(* ===== verification/V2_Prelude.thy ===== *)
theory V2_Prelude
  imports Main "HOL-Library.Word" "HOL-Library.Signed_Division"
begin

text \<open>
  Shared vocabulary of the development: the C integer types the library uses, the
  constants of \<^verbatim>\<open>lib/vxw_defs.h\<close> and \<^verbatim>\<open>lib/v2lpthread.h\<close>, the outcome of a
  library call (it returns, it blocks, or it dereferences a null pointer), and the list
  lemmas the components share.
\<close>

unbundle bit_operations_syntax

named_theorems vxw_codes "numeric constants of vxw_defs.h and v2lpthread.h"
named_theorems c_int_simps "arithmetic on C integers inside their range"
named_theorems outcome_simps "sequencing of calls that may block or crash"


section \<open>Addresses, threads and C integers\<close>

text \<open>An address is a natural number; 0 is the null pointer. A \<open>pthread_t\<close> is a natural
  number too, and 0 is the value the library uses for ``no thread''.\<close>

type_synonym addr = nat
type_synonym pthread = nat
type_synonym byte = "8 word"

abbreviation NULL :: addr where "NULL \<equiv> 0"

text \<open>Null tests keep the form \<open>p \<noteq> NULL\<close> in proofs.\<close>

declare neq0_conv [iff del] bot_nat_0.not_eq_extremum [simp del]

text \<open>\<open>s32\<close> reduces an integer to the range of a 32-bit signed \<open>int\<close>. Signed
  overflow wraps around, as it does in the code gcc emits for these functions.\<close>

definition s32 :: "int \<Rightarrow> int" where
  "s32 x = (x + 2147483648) mod 4294967296 - 2147483648"

definition u32 :: "int \<Rightarrow> int" where
  "u32 x = x mod 4294967296"

definition in_s32 :: "int \<Rightarrow> bool" where
  "in_s32 x \<longleftrightarrow> -2147483648 \<le> x \<and> x \<le> 2147483647"


section \<open>Constants\<close>

definition OK :: int where [vxw_codes]: "OK = 0"
definition ERROR :: int where [vxw_codes]: "ERROR = -1"

definition ENOSYS :: int where [vxw_codes]: "ENOSYS = 38"
definition EINVAL :: int where [vxw_codes]: "EINVAL = 22"
definition ETIMEDOUT :: int where [vxw_codes]: "ETIMEDOUT = 110"

definition V2PT_TICK :: int where [vxw_codes]: "V2PT_TICK = 10"
definition MIN_V2PT_PRIORITY :: int where [vxw_codes]: "MIN_V2PT_PRIORITY = 255"
definition MAX_V2PT_PRIORITY :: int where [vxw_codes]: "MAX_V2PT_PRIORITY = 0"

definition READY :: "32 word" where [vxw_codes]: "READY = 0x0000"
definition PEND :: "32 word" where [vxw_codes]: "PEND = 0x0001"
definition DELAY :: "32 word" where [vxw_codes]: "DELAY = 0x0002"
definition SUSPEND :: "32 word" where [vxw_codes]: "SUSPEND = 0x0004"
definition TIMEOUT :: "32 word" where [vxw_codes]: "TIMEOUT = 0x0008"
definition INH_PRI :: "32 word" where [vxw_codes]: "INH_PRI = 0x0010"
definition DEAD :: "32 word" where [vxw_codes]: "DEAD = 0x0080"
definition RDY_MSK :: "32 word" where [vxw_codes]: "RDY_MSK = 0x008f"

definition TASK_ERRS :: int where [vxw_codes]: "TASK_ERRS = 0x00030000"
definition MEM_ERRS :: int where [vxw_codes]: "MEM_ERRS = 0x00110000"
definition MSGQ_ERRS :: int where [vxw_codes]: "MSGQ_ERRS = 0x00410000"
definition OBJ_ERRS :: int where [vxw_codes]: "OBJ_ERRS = 0x003d0000"
definition SEM_ERRS :: int where [vxw_codes]: "SEM_ERRS = 0x00160000"
definition SM_OBJ_ERRS :: int where [vxw_codes]: "SM_OBJ_ERRS = 0x00580000"

definition S_memLib_NOT_ENOUGH_MEMORY :: int where
  [vxw_codes]: "S_memLib_NOT_ENOUGH_MEMORY = MEM_ERRS + 1"
definition S_msgQLib_INVALID_MSG_LENGTH :: int where
  [vxw_codes]: "S_msgQLib_INVALID_MSG_LENGTH = MSGQ_ERRS + 1"
definition S_objLib_OBJ_DELETED :: int where
  [vxw_codes]: "S_objLib_OBJ_DELETED = OBJ_ERRS + 3"
definition S_objLib_OBJ_ID_ERROR :: int where
  [vxw_codes]: "S_objLib_OBJ_ID_ERROR = OBJ_ERRS + 1"
definition S_objLib_OBJ_TIMEOUT :: int where
  [vxw_codes]: "S_objLib_OBJ_TIMEOUT = OBJ_ERRS + 4"
definition S_objLib_OBJ_UNAVAILABLE :: int where
  [vxw_codes]: "S_objLib_OBJ_UNAVAILABLE = OBJ_ERRS + 2"
definition S_semLib_INVALID_OPERATION :: int where
  [vxw_codes]: "S_semLib_INVALID_OPERATION = SEM_ERRS + 0x00000068"
definition S_smObjLib_NOT_INITIALIZED :: int where
  [vxw_codes]: "S_smObjLib_NOT_INITIALIZED = SM_OBJ_ERRS + 1"
definition S_taskLib_ILLEGAL_PRIORITY :: int where
  [vxw_codes]: "S_taskLib_ILLEGAL_PRIORITY = TASK_ERRS + 0x00000065"

definition NO_WAIT :: int where [vxw_codes]: "NO_WAIT = 0"
definition WAIT_FOREVER :: int where [vxw_codes]: "WAIT_FOREVER = -1"

definition MSG_PRI_NORMAL :: int where [vxw_codes]: "MSG_PRI_NORMAL = 0x00"
definition MSG_PRI_URGENT :: int where [vxw_codes]: "MSG_PRI_URGENT = 0x01"
definition MSG_Q_FIFO :: "32 word" where [vxw_codes]: "MSG_Q_FIFO = 0x00"
definition MSG_Q_PRIORITY :: "32 word" where [vxw_codes]: "MSG_Q_PRIORITY = 0x01"

definition SEM_EMPTY :: int where [vxw_codes]: "SEM_EMPTY = 0x00"
definition SEM_FULL :: int where [vxw_codes]: "SEM_FULL = 0x01"
definition SEM_Q_FIFO :: "32 word" where [vxw_codes]: "SEM_Q_FIFO = 0x00"
definition SEM_Q_PRIORITY :: "32 word" where [vxw_codes]: "SEM_Q_PRIORITY = 0x01"
definition SEM_DELETE_SAFE :: "32 word" where [vxw_codes]: "SEM_DELETE_SAFE = 0x04"
definition SEM_INVERSION_SAFE :: "32 word" where [vxw_codes]: "SEM_INVERSION_SAFE = 0x08"


lemma error_codes_neq_OK [simp]:
  "ERROR \<noteq> OK" "ENOSYS \<noteq> OK" "S_objLib_OBJ_ID_ERROR \<noteq> OK" "S_objLib_OBJ_DELETED \<noteq> OK"
  "S_objLib_OBJ_TIMEOUT \<noteq> OK" "S_objLib_OBJ_UNAVAILABLE \<noteq> OK" "S_semLib_INVALID_OPERATION \<noteq> OK"
  "S_memLib_NOT_ENOUGH_MEMORY \<noteq> OK" "S_msgQLib_INVALID_MSG_LENGTH \<noteq> OK"
  "S_taskLib_ILLEGAL_PRIORITY \<noteq> OK" "ETIMEDOUT \<noteq> OK" "OK \<noteq> ERROR"
  by (simp_all add: vxw_codes)


section \<open>Outcomes of a call\<close>

text \<open>A library call returns (\<open>Done\<close>), or the calling thread stops at a lock another
  thread holds (\<open>Blocked\<close>), or it dereferences a null pointer (\<open>Crashed\<close>).
  \<open>obind\<close> is sequencing: what follows runs only if the call returned.\<close>

datatype 'a outcome = Done 'a | Blocked | Crashed

primrec obind :: "'a outcome \<Rightarrow> ('a \<Rightarrow> 'b outcome) \<Rightarrow> 'b outcome" where
  "obind (Done x) f = f x"
| "obind Blocked f = Blocked"
| "obind Crashed f = Crashed"

primrec returned :: "'a outcome \<Rightarrow> bool" where
  "returned (Done x) = True"
| "returned Blocked = False"
| "returned Crashed = False"

lemma obind_Done_iff [outcome_simps]:
  "obind m f = Done y \<longleftrightarrow> (\<exists>x. m = Done x \<and> f x = Done y)"
  by (cases m) auto

lemma obind_assoc [outcome_simps]: "obind (obind m f) g = obind m (\<lambda>x. obind (f x) g)"
  by (cases m) auto

lemma obind_return [outcome_simps]: "obind m Done = m"
  by (cases m) auto

lemma returned_iff: "returned m \<longleftrightarrow> (\<exists>x. m = Done x)"
  by (cases m) auto


section \<open>C integers inside their range\<close>

lemma s32_id [c_int_simps]: "in_s32 x \<Longrightarrow> s32 x = x"
  unfolding in_s32_def s32_def by (simp add: mod_pos_pos_trivial)

lemma s32_in_range: "in_s32 (s32 x)"
proof -
  have "0 \<le> (x + 2147483648) mod 4294967296" and "(x + 2147483648) mod 4294967296 < 4294967296"
    by simp_all
  then show ?thesis by (auto simp: in_s32_def s32_def)
qed

lemma s32_idem [simp]: "s32 (s32 x) = s32 x"
  by (rule s32_id) (rule s32_in_range)

lemma s32_mod: "s32 x mod 4294967296 = x mod 4294967296"
  unfolding s32_def by (simp add: mod_diff_left_eq)

lemma s32_eq_mod:
  assumes "x mod 4294967296 = y mod 4294967296"
  shows "s32 x = s32 y"
proof -
  have "(x + 2147483648) mod 4294967296 = (y + 2147483648) mod 4294967296"
    using assms refl by (rule mod_add_cong)
  then show ?thesis by (simp only: s32_def)
qed

lemma s32_mult: "s32 (s32 a * b) = s32 (a * b)"
  by (rule s32_eq_mod) (metis s32_mod mod_mult_left_eq)

lemma u32_id [c_int_simps]: "0 \<le> x \<Longrightarrow> x < 4294967296 \<Longrightarrow> u32 x = x"
  by (simp add: u32_def)

lemma in_s32_between: "in_s32 a \<Longrightarrow> in_s32 b \<Longrightarrow> a \<le> x \<Longrightarrow> x \<le> b \<Longrightarrow> in_s32 x"
  by (simp add: in_s32_def)

text \<open>Truncating division agrees with Euclidean division where both operands are
  non-negative, the only case the code relies on.\<close>

lemma sdiv_nonneg [c_int_simps]: "0 \<le> a \<Longrightarrow> 0 \<le> b \<Longrightarrow> a sdiv b = a div (b::int)"
  by (auto simp: signed_divide_int_def sgn_if)

lemma smod_nonneg [c_int_simps]: "0 \<le> a \<Longrightarrow> 0 \<le> b \<Longrightarrow> a smod b = a mod (b::int)"
  by (auto simp: signed_modulo_int_def sgn_if)


section \<open>Lists of control blocks\<close>

lemma takeWhile_neq_notin [simp]: "x \<notin> set xs \<Longrightarrow> takeWhile (\<lambda>y. y \<noteq> x) xs = xs"
  by (induction xs) auto

lemma notin_takeWhile_neq [simp]: "x \<notin> set (takeWhile (\<lambda>y. y \<noteq> x) xs)"
  by (metis (mono_tags) set_takeWhileD)

lemma set_takeWhile_subset: "set (takeWhile P xs) \<subseteq> set xs"
  by (meson set_takeWhileD subsetI)

lemma find_None_notin: "find P xs = None \<longleftrightarrow> (\<forall>x \<in> set xs. \<not> P x)"
  by (induction xs) auto

lemma find_Some_in: "find P xs = Some x \<Longrightarrow> x \<in> set xs \<and> P x"
  by (induction xs) (auto split: if_splits)

lemma find_cong_set: "(\<And>x. x \<in> set xs \<Longrightarrow> P x = Q x) \<Longrightarrow> find P xs = find Q xs"
  by (induction xs) auto

lemma find_last: "(\<And>x. x \<in> set xs \<Longrightarrow> \<not> P x) \<Longrightarrow> P a \<Longrightarrow> find P (xs @ [a]) = Some a"
  by (induction xs) auto

end
