(* ===== verification/Linked_List.thy ===== *)
theory Linked_List
  imports V2_Prelude
begin

text \<open>
  The intrusive singly linked lists of the library, at the level of the pointers the C
  code follows. \<^verbatim>\<open>sem_list\<close>, \<^verbatim>\<open>mqueue_list\<close>, \<^verbatim>\<open>wdog_list\<close> and \<^verbatim>\<open>task_list\<close> are linked
  through \<^verbatim>\<open>nxt_sem\<close>, \<^verbatim>\<open>nxt_queue\<close>, \<^verbatim>\<open>next\<close> and \<^verbatim>\<open>nxt_task\<close>; the lists of pended tasks
  (\<^verbatim>\<open>first_susp\<close>, \<^verbatim>\<open>first_write_susp\<close>) through \<^verbatim>\<open>nxt_susp\<close>. All of them are walked with
  a pointer to a pointer cell (\<^verbatim>\<open>T **i\<close>), so a cell is either the list head or the
  \<^verbatim>\<open>next\<close> field of a node.

  The loops follow pointers, and a cyclic list would make them run forever: they are
  defined with \<^theory_text>\<open>partial_function (option)\<close>, \<open>None\<close> meaning that the loop does not
  return. The lemmas show that on a well-formed list every loop returns, and that it
  implements the list operation used by the component models.
\<close>


section \<open>Pointer cells\<close>

datatype cell = Head | Next addr

record slist =
  sl_head :: addr
  sl_next :: "addr \<Rightarrow> addr"

fun rd :: "slist \<Rightarrow> cell \<Rightarrow> addr" where
  "rd s Head = sl_head s"
| "rd s (Next a) = sl_next s a"

fun wr :: "slist \<Rightarrow> cell \<Rightarrow> addr \<Rightarrow> slist" where
  "wr s Head v = s\<lparr>sl_head := v\<rparr>"
| "wr s (Next a) v = s\<lparr>sl_next := (sl_next s)(a := v)\<rparr>"


section \<open>The loops of the C code\<close>

text \<open>\<open>while (*i) i = &(*i)->next;\<close>\<close>

partial_function (option) find_tail :: "slist \<Rightarrow> cell \<Rightarrow> cell option" where
  "find_tail s i = (if rd s i = NULL then Some i else find_tail s (Next (rd s i)))"

text \<open>\<open>for (p = list; p; p = p->next) if (p == x) break;\<close> and the result is whether the
  walk stopped at \<open>x\<close>.\<close>

partial_function (option) search_loop :: "slist \<Rightarrow> addr \<Rightarrow> addr \<Rightarrow> bool option" where
  "search_loop s p x =
     (if p = NULL then Some False
      else if p = x then Some True
      else search_loop s (sl_next s p) x)"

text \<open>\<open>while (*i) { if (*i == x) break; i = &(*i)->next; }\<close>\<close>

partial_function (option) find_cell :: "slist \<Rightarrow> cell \<Rightarrow> addr \<Rightarrow> cell option" where
  "find_cell s i x =
     (if rd s i = NULL then Some i
      else if rd s i = x then Some i
      else find_cell s (Next (rd s i)) x)"

text \<open>\<^verbatim>\<open>link_smcb\<close>, \<^verbatim>\<open>link_wdog\<close> and the tail insertion of \<^verbatim>\<open>taskInit\<close>: clear the
  \<open>next\<close> field of the new node, walk to the tail, store the node there.\<close>

definition link_tail :: "addr \<Rightarrow> slist \<Rightarrow> slist option" where
  "link_tail new s =
     (let s0 = s\<lparr>sl_next := (sl_next s)(new := NULL)\<rparr>
      in map_option (\<lambda>i. wr s0 i new) (find_tail s0 Head))"

text \<open>\<^verbatim>\<open>unlink_smcb\<close>, \<^verbatim>\<open>unlink_qcb\<close>, \<^verbatim>\<open>unlink_wdog\<close> and the removal loop of
  \<^verbatim>\<open>task_delete\<close>.\<close>

definition unlink_ptr :: "addr \<Rightarrow> slist \<Rightarrow> slist option" where
  "unlink_ptr x s =
     map_option (\<lambda>i. if rd s i = NULL then s else wr s i (sl_next s (rd s i)))
       (find_cell s Head x)"

text \<open>\<^verbatim>\<open>link_susp_task\<close>. The loop body removes an entry equal to the new one and goes on
  from the same cell; the \<open>next\<close> field of the new entry was cleared before the loop.\<close>

partial_function (option) link_susp_loop :: "slist \<Rightarrow> cell \<Rightarrow> addr \<Rightarrow> slist option" where
  "link_susp_loop s i new =
     (if rd s i = NULL then Some (wr s i new)
      else if rd s i = new then link_susp_loop (wr s i (sl_next s (rd s i))) i new
      else link_susp_loop s (Next (rd s i)) new)"

definition link_susp_ptr :: "addr \<Rightarrow> slist \<Rightarrow> slist option" where
  "link_susp_ptr new s =
     (if new = NULL then Some s
      else link_susp_loop (s\<lparr>sl_next := (sl_next s)(new := NULL)\<rparr>) Head new)"

text \<open>\<^verbatim>\<open>unlink_susp_task\<close>: a removed entry also has its \<open>next\<close> field cleared.\<close>

definition unlink_susp_ptr :: "addr \<Rightarrow> slist \<Rightarrow> slist option" where
  "unlink_susp_ptr entry s =
     (if entry = NULL then Some s
      else map_option
        (\<lambda>i. if rd s i = NULL then s
             else let s1 = wr s i (sl_next s (rd s i))
                  in s1\<lparr>sl_next := (sl_next s1)(entry := NULL)\<rparr>)
        (find_cell s Head entry))"


section \<open>The list a head pointer stands for\<close>

fun chain :: "(addr \<Rightarrow> addr) \<Rightarrow> addr \<Rightarrow> addr list \<Rightarrow> bool" where
  "chain n p [] \<longleftrightarrow> p = NULL"
| "chain n p (x # xs) \<longleftrightarrow> p = x \<and> x \<noteq> NULL \<and> chain n (n x) xs"

definition represents :: "slist \<Rightarrow> addr list \<Rightarrow> bool" where
  "represents s xs \<longleftrightarrow> chain (sl_next s) (sl_head s) xs"

lemma chain_unique: "chain n p xs \<Longrightarrow> chain n p ys \<Longrightarrow> xs = ys"
proof (induction xs arbitrary: p ys)
  case Nil
  then show ?case by (cases ys) auto
next
  case (Cons x xs)
  then show ?case by (cases ys) auto
qed

lemma chain_append_tail: "chain n p (xs @ ys) \<Longrightarrow> \<exists>q. chain n q ys"
  by (induction xs arbitrary: p) auto

lemma chain_head_notin: "chain n p (x # xs) \<Longrightarrow> x \<notin> set xs"
proof
  assume ch: "chain n p (x # xs)" and "x \<in> set xs"
  then obtain ys zs where xs: "xs = ys @ x # zs" by (auto simp: in_set_conv_decomp)
  from ch xs obtain q where "chain n q (x # zs)"
    using chain_append_tail [of n "n x" ys "x # zs"] by auto
  moreover have "chain n (n x) xs" using ch by simp
  ultimately have "zs = xs" using chain_unique [of n "n x" zs xs] by simp
  with xs show False by simp
qed

lemma chain_distinct: "chain n p xs \<Longrightarrow> distinct xs"
proof (induction xs arbitrary: p)
  case Nil
  then show ?case by simp
next
  case (Cons x xs)
  from Cons.prems have "x \<notin> set xs" by (rule chain_head_notin)
  moreover from Cons.prems have "chain n (n x) xs" by simp
  ultimately show ?case using Cons.IH by simp
qed

lemma represents_distinct: "represents s xs \<Longrightarrow> distinct xs"
  unfolding represents_def by (rule chain_distinct)

lemma chain_cong: "(\<And>x. x \<in> set xs \<Longrightarrow> n x = n' x) \<Longrightarrow> chain n p xs = chain n' p xs"
  by (induction xs arbitrary: p) auto

lemma chain_upd_notin [simp]: "x \<notin> set xs \<Longrightarrow> chain (n(x := v)) p xs = chain n p xs"
  by (rule chain_cong) auto

lemma chain_nonnull: "chain n p xs \<Longrightarrow> NULL \<notin> set xs"
  by (induction xs arbitrary: p) auto

text \<open>Redirecting the \<open>next\<close> field of one node replaces everything behind it.\<close>

lemma chain_redirect:
  assumes "chain n p (us @ u # post)" and "chain (n(u := v)) v qs"
  shows "chain (n(u := v)) p (us @ u # qs)"
  using assms(1)
proof (induction us arbitrary: p)
  case Nil
  then show ?case using assms(2) by (simp add: fun_upd_def)
next
  case (Cons x us)
  then have "x \<notin> set (us @ u # post)"
    using chain_head_notin [of n p x "us @ u # post"] by simp
  then have "x \<noteq> u" by simp
  with Cons show ?case by simp
qed


section \<open>Every walk returns, and where it stops\<close>

definition tail_cell :: "cell \<Rightarrow> addr list \<Rightarrow> cell" where
  "tail_cell i xs = (if xs = [] then i else Next (last xs))"

lemma tail_cell_Nil [simp]: "tail_cell i [] = i"
  by (simp add: tail_cell_def)

lemma tail_cell_Cons [simp]: "tail_cell i (x # xs) = tail_cell (Next x) xs"
  by (simp add: tail_cell_def)

lemma find_tail_returns:
  "chain (sl_next s) (rd s i) xs \<Longrightarrow> find_tail s i = Some (tail_cell i xs)"
proof (induction xs arbitrary: i)
  case Nil
  then show ?case by (simp add: find_tail.simps)
next
  case (Cons x xs)
  then have "find_tail s (Next x) = Some (tail_cell (Next x) xs)" by simp
  with Cons.prems show ?case by (simp add: find_tail.simps [of s i])
qed

lemma search_loop_returns:
  "chain (sl_next s) p xs \<Longrightarrow> search_loop s p x = Some (x \<in> set xs)"
proof (induction xs arbitrary: p)
  case Nil
  then show ?case by (simp add: search_loop.simps)
next
  case (Cons y xs)
  then show ?case by (auto simp: search_loop.simps [of s y])
qed

lemma find_cell_returns:
  "chain (sl_next s) (rd s i) xs \<Longrightarrow>
     find_cell s i x = Some (tail_cell i (takeWhile (\<lambda>y. y \<noteq> x) xs))"
proof (induction xs arbitrary: i)
  case Nil
  then show ?case by (simp add: find_cell.simps)
next
  case (Cons y xs)
  then have "find_cell s (Next y) x = Some (tail_cell (Next y) (takeWhile (\<lambda>y. y \<noteq> x) xs))"
    by simp
  with Cons.prems show ?case by (auto simp: find_cell.simps [of s i])
qed

lemma wr_tail_cell:
  assumes "represents s (pre @ post)"
    and "chain (sl_next (wr s (tail_cell Head pre) v)) v qs"
  shows "represents (wr s (tail_cell Head pre) v) (pre @ qs)"
proof (cases pre rule: rev_cases)
  case Nil
  with assms(2) show ?thesis by (simp add: represents_def)
next
  case (snoc us u)
  with assms have "chain ((sl_next s)(u := v)) (sl_head s) (us @ u # qs)"
    by (intro chain_redirect [of _ _ _ _ post]) (simp_all add: represents_def tail_cell_def)
  with snoc show ?thesis by (simp add: represents_def tail_cell_def)
qed

lemma rd_tail_cell:
  assumes "represents s (pre @ post)"
  shows "rd s (tail_cell Head pre) = (if post = [] then NULL else hd post)"
proof -
  have gen: "rd s (tail_cell i pre) = (if post = [] then NULL else hd post)"
    if "chain (sl_next s) (rd s i) (pre @ post)" for i
    using that by (induction pre arbitrary: i) (auto split: list.splits simp: neq_Nil_conv)
  from assms show ?thesis by (intro gen) (simp add: represents_def)
qed



section \<open>The loops implement list operations\<close>

text \<open>Tail insertion of a node that is in no list appends it.\<close>

lemma link_tail_appends:
  assumes "represents s xs" and "new \<notin> set xs" and "new \<noteq> NULL"
  shows "\<exists>s'. link_tail new s = Some s' \<and> represents s' (xs @ [new])
           \<and> (\<forall>x. x \<noteq> new \<and> x \<notin> set xs \<longrightarrow> sl_next s' x = sl_next s x)"
proof -
  define s0 where "s0 = s\<lparr>sl_next := (sl_next s)(new := NULL)\<rparr>"
  have r0: "represents s0 (xs @ [])"
    using assms by (simp add: represents_def s0_def)
  then have walk: "find_tail s0 Head = Some (tail_cell Head xs)"
    by (intro find_tail_returns) (simp add: represents_def)
  let ?s' = "wr s0 (tail_cell Head xs) new"
  have "sl_next ?s' new = NULL"
    using assms(2) by (cases xs rule: rev_cases) (auto simp: tail_cell_def s0_def)
  then have "represents ?s' (xs @ [new])"
    using r0 assms(3) by (intro wr_tail_cell [of s0 xs "[]"]) simp_all
  moreover have "\<forall>x. x \<noteq> new \<and> x \<notin> set xs \<longrightarrow> sl_next ?s' x = sl_next s x"
    by (cases xs rule: rev_cases) (auto simp: tail_cell_def s0_def)
  ultimately show ?thesis
    using walk by (simp add: link_tail_def s0_def Let_def)
qed

text \<open>The lookup loop decides membership.\<close>

lemma search_decides_member:
  "represents s xs \<Longrightarrow> search_loop s (sl_head s) x = Some (x \<in> set xs)"
  unfolding represents_def by (rule search_loop_returns)

lemma remove1_takeWhile:
  "x \<in> set xs \<Longrightarrow> remove1 x xs = takeWhile (\<lambda>y. y \<noteq> x) xs @ tl (dropWhile (\<lambda>y. y \<noteq> x) xs)"
  by (induction xs) auto

lemma dropWhile_neq_Cons:
  "x \<in> set xs \<Longrightarrow> dropWhile (\<lambda>y. y \<noteq> x) xs = x # tl (dropWhile (\<lambda>y. y \<noteq> x) xs)"
  by (induction xs) auto

lemma chain_suffix: "chain n p (pre @ x # post) \<Longrightarrow> chain n (n x) post"
  by (induction pre arbitrary: p) auto

text \<open>The removal loop removes the node and leaves the list alone when it is absent.\<close>

lemma unlink_at:
  assumes "represents s (pre @ x # post)"
  shows "represents (wr s (tail_cell Head pre) (sl_next s x)) (pre @ post)"
proof (rule wr_tail_cell [OF assms])
  have dist: "distinct (pre @ x # post)" using assms by (rule represents_distinct)
  have "chain (sl_next s) (sl_next s x) post"
    using assms by (auto simp: represents_def intro: chain_suffix)
  moreover have "sl_next (wr s (tail_cell Head pre) (sl_next s x)) y = sl_next s y"
    if "y \<in> set post" for y
    using that dist by (cases pre rule: rev_cases) (auto simp: tail_cell_def)
  ultimately show "chain (sl_next (wr s (tail_cell Head pre) (sl_next s x))) (sl_next s x) post"
    using chain_cong [of post "sl_next (wr s (tail_cell Head pre) (sl_next s x))" "sl_next s"]
    by blast
qed

lemma unlink_ptr_removes:
  assumes "represents s xs"
  shows "\<exists>s'. unlink_ptr x s = Some s' \<and> represents s' (remove1 x xs)"
proof -
  let ?pre = "takeWhile (\<lambda>y. y \<noteq> x) xs" and ?post = "dropWhile (\<lambda>y. y \<noteq> x) xs"
  have walk: "find_cell s Head x = Some (tail_cell Head ?pre)"
    using assms by (intro find_cell_returns) (simp add: represents_def)
  have split: "represents s (?pre @ ?post)" using assms by simp
  show ?thesis
  proof (cases "x \<in> set xs")
    case True
    then have post: "?post = x # tl ?post" by (rule dropWhile_neq_Cons)
    then have rdx: "rd s (tail_cell Head ?pre) = x"
      using rd_tail_cell [OF split] by (metis list.discI list.sel(1))
    have "x \<noteq> NULL" using True assms chain_nonnull unfolding represents_def by metis
    then have "unlink_ptr x s = Some (wr s (tail_cell Head ?pre) (sl_next s x))"
      by (simp add: unlink_ptr_def walk rdx)
    moreover have "represents (wr s (tail_cell Head ?pre) (sl_next s x)) (?pre @ tl ?post)"
      using split post by (intro unlink_at) metis
    ultimately show ?thesis using True by (auto simp: remove1_takeWhile)
  next
    case False
    then have "rd s (tail_cell Head ?pre) = NULL"
      using rd_tail_cell [of s xs "[]"] assms by simp
    then show ?thesis
      using False assms by (simp add: unlink_ptr_def walk remove1_idem)
  qed
qed

text \<open>The insertion loop of \<^verbatim>\<open>link_susp_task\<close> skips what is in front of the new entry.\<close>

lemma link_susp_loop_skip:
  "chain (sl_next s) (rd s i) (pre @ post) \<Longrightarrow> new \<notin> set pre \<Longrightarrow>
     link_susp_loop s i new = link_susp_loop s (tail_cell i pre) new"
proof (induction pre arbitrary: i)
  case Nil
  then show ?case by simp
next
  case (Cons x pre)
  then have "link_susp_loop s (Next x) new = link_susp_loop s (tail_cell (Next x) pre) new"
    by simp
  with Cons.prems show ?case by (simp add: link_susp_loop.simps [of s i])
qed

lemma link_susp_loop_stop:
  assumes "rd s c = NULL \<or> rd s c = new" and "sl_next s new = NULL" and "new \<noteq> NULL"
    and "c \<noteq> Next new"
  shows "\<exists>s'. link_susp_loop s c new = Some (wr s' c new) \<and> (s' = s \<or> s' = wr s c NULL)"
proof (cases "rd s c = NULL")
  case True
  then show ?thesis by (auto simp: link_susp_loop.simps)
next
  case False
  then have rdc: "rd s c = new" using assms(1) by simp
  have "rd (wr s c NULL) c = NULL" by (cases c) simp_all
  then have "link_susp_loop (wr s c NULL) c new = Some (wr (wr s c NULL) c new)"
    by (simp add: link_susp_loop.simps)
  then have "link_susp_loop s c new = Some (wr (wr s c NULL) c new)"
    using rdc assms by (simp add: link_susp_loop.simps [of s c])
  then show ?thesis by blast
qed

lemma wr_wr_same: "wr (wr s c v) c v' = wr s c v'"
  by (cases c) simp_all

text \<open>Clearing the \<open>next\<close> field of an entry cuts off what was behind it.\<close>

lemma cut_after:
  assumes "represents s xs" and "new \<noteq> NULL"
  shows "represents (s\<lparr>sl_next := (sl_next s)(new := NULL)\<rparr>)
           (takeWhile (\<lambda>y. y \<noteq> new) xs @ (if new \<in> set xs then [new] else []))"
proof (cases "new \<in> set xs")
  case True
  then have "xs = takeWhile (\<lambda>y. y \<noteq> new) xs @ new # tl (dropWhile (\<lambda>y. y \<noteq> new) xs)"
    using dropWhile_neq_Cons by (metis takeWhile_dropWhile_id)
  then obtain pre post where xs: "xs = pre @ new # post" and pre: "pre = takeWhile (\<lambda>y. y \<noteq> new) xs"
    by blast
  have "chain ((sl_next s)(new := NULL)) (sl_head s) (pre @ new # [])"
    using assms(1) xs by (intro chain_redirect [of _ _ _ _ post]) (simp_all add: represents_def)
  with True pre show ?thesis by (simp add: represents_def)
next
  case False
  with assms show ?thesis by (simp add: represents_def)
qed

text \<open>So \<^verbatim>\<open>link_susp_task\<close> keeps the entries in front of the new one and puts it last:
  a plain append when the entry was not in the list, a truncation when it was.\<close>

lemma link_susp_ptr_links:
  assumes "represents s xs" and "new \<noteq> NULL"
  shows "\<exists>s'. link_susp_ptr new s = Some s'
           \<and> represents s' (takeWhile (\<lambda>y. y \<noteq> new) xs @ [new])"
proof -
  let ?pre = "takeWhile (\<lambda>y. y \<noteq> new) xs" and ?post = "if new \<in> set xs then [new] else []"
  define s0 where "s0 = s\<lparr>sl_next := (sl_next s)(new := NULL)\<rparr>"
  let ?c = "tail_cell Head ?pre"
  have r0: "represents s0 (?pre @ ?post)"
    unfolding s0_def using assms by (rule cut_after)
  have notnew: "?c \<noteq> Next new"
    using notin_takeWhile_neq [of new xs] by (auto simp: tail_cell_def dest!: last_in_set)
  have "link_susp_loop s0 Head new = link_susp_loop s0 ?c new"
    using r0 by (intro link_susp_loop_skip [of _ _ _ ?post]) (simp_all add: represents_def)
  moreover have "\<exists>s'. link_susp_loop s0 ?c new = Some (wr s' ?c new) \<and> (s' = s0 \<or> s' = wr s0 ?c NULL)"
    using rd_tail_cell [OF r0] assms(2) notnew
    by (intro link_susp_loop_stop) (auto simp: s0_def split: if_splits)
  ultimately have res: "link_susp_ptr new s = Some (wr s0 ?c new)"
    using assms(2) by (auto simp: link_susp_ptr_def s0_def wr_wr_same)
  have "sl_next (wr s0 ?c new) new = NULL"
    using notnew by (cases ?c) (auto simp: s0_def)
  then have "represents (wr s0 ?c new) (?pre @ [new])"
    using r0 assms(2) by (intro wr_tail_cell [of s0 ?pre ?post]) simp_all
  with res show ?thesis by blast
qed

text \<open>\<^verbatim>\<open>unlink_susp_task\<close> removes the entry.\<close>

lemma unlink_susp_ptr_eq:
  "entry \<noteq> NULL \<Longrightarrow> find_cell s Head entry = Some i \<Longrightarrow>
   unlink_susp_ptr entry s =
     (if rd s i = NULL then Some s
      else map_option (\<lambda>t. t\<lparr>sl_next := (sl_next t)(entry := NULL)\<rparr>) (unlink_ptr entry s))"
  by (simp add: unlink_susp_ptr_def unlink_ptr_def Let_def)

lemma unlink_susp_ptr_removes:
  assumes "represents s xs" and "entry \<noteq> NULL"
  shows "\<exists>s'. unlink_susp_ptr entry s = Some s' \<and> represents s' (remove1 entry xs)"
proof -
  from assms(1) obtain s1 where un: "unlink_ptr entry s = Some s1"
    and r1: "represents s1 (remove1 entry xs)"
    using unlink_ptr_removes by blast
  from assms(1) have walk: "find_cell s Head entry = Some (tail_cell Head (takeWhile (\<lambda>y. y \<noteq> entry) xs))"
    by (intro find_cell_returns) (simp add: represents_def)
  have "entry \<notin> set (remove1 entry xs)"
    using represents_distinct [OF assms(1)] by simp
  then have r2: "represents (s1\<lparr>sl_next := (sl_next s1)(entry := NULL)\<rparr>) (remove1 entry xs)"
    using r1 by (simp add: represents_def)
  show ?thesis
  proof (cases "rd s (tail_cell Head (takeWhile (\<lambda>y. y \<noteq> entry) xs)) = NULL")
    case True
    then have "s1 = s" using un walk by (simp add: unlink_ptr_def)
    with r1 True walk assms(2) show ?thesis by (simp add: unlink_susp_ptr_eq)
  next
    case False
    with r2 un walk assms(2) show ?thesis by (simp add: unlink_susp_ptr_eq)
  qed
qed

end
