(* ===== verification/V2_State.thy ===== *)
theory V2_State
  imports Linked_List
begin

text \<open>
  The data of the library: the control blocks of \<^verbatim>\<open>lib/v2lpthread.h\<close>, \<^verbatim>\<open>lib/internal.h\<close>
  and \<^verbatim>\<open>lib/lmsgQLib.c\<close> as records, and the process-wide state (\<open>world\<close>) made of the
  static variables of the C files, the heap of control blocks and what the POSIX layer
  remembers of each thread.

  A list linked through a \<open>next\<close> field is kept as the HOL list of its nodes; theory
  \<open>Linked_List\<close> shows that the pointer loops implement the list operations used here. A
  mutex that a call can leave locked is a field that holds the owning thread (0 when
  free); a mutex that every function releases before it returns or sleeps is not part of the
  state.
\<close>


section \<open>Control blocks\<close>

datatype sched_policy = SCHED_OTHER | SCHED_FIFO | SCHED_RR

record task_t =
  taskid :: int
  taskname :: "string option"
  pthrid :: pthread
  attr_policy :: sched_policy
  attr_priority :: int
  prv_priority :: int
  entry_point :: addr
  parms :: "int list"
  static_task :: bool
  t_flags :: int
  state :: "32 word"
  vxw_priority :: int
  delete_safe_count :: int
  t_first_susp :: "addr list"
  waiting :: addr

record v2lsem_t =
  sem_lock :: pthread
  sem_flags :: "32 word"
  token_count :: int
  send_type :: "32 word"
  recursion_level :: int
  current_owner :: addr
  sem_first_susp :: "addr list"

record v2pt_mqueue_t =
  queue_lock :: pthread
  qdlet_lock :: pthread
  qfull_lock :: pthread
  extent :: "byte list"
  queue_head :: int
  queue_tail :: int
  first_msg_in_queue :: int
  last_msg_in_queue :: int
  q_send_type :: "32 word"
  q_first_susp :: "addr list"
  q_first_write_susp :: "addr list"
  msg_count :: int
  msgs_per_queue :: int
  msg_len :: int
  vmsg_len :: int
  order :: int

record v2pt_wdog_t =
  ticks_remaining :: int
  timeout_func :: addr
  timeout_parm :: int

text \<open>The first field \<^verbatim>\<open>check\<close> of \<^verbatim>\<open>task_t\<close> is never used, and \<^verbatim>\<open>waiting_m\<close> is only
  printed by \<^verbatim>\<open>taskShow\<close>; both are left out.\<close>


section \<open>The process\<close>

text \<open>The heaps map an allocated address to its control block; freeing a block removes it.
  \<open>errno\<close> is thread-local. \<open>threads\<close> holds the POSIX threads that exist, and
  \<open>thr_sched\<close> the policy and priority last requested for a thread with
  \<open>pthread_setschedparam\<close>. \<open>prio_min\<close> and \<open>prio_max\<close> are what the operating system
  answers to \<open>sched_get_priority_min\<close> and \<open>sched_get_priority_max\<close>; no operation
  changes them.\<close>

record world =
  tasks :: "addr \<rightharpoonup> task_t"
  task_list :: "addr list"
  locker :: pthread
  taskLock_level :: "64 word"
  round_robin_enabled :: bool
  sems :: "addr \<rightharpoonup> v2lsem_t"
  sem_list :: "addr list"
  queues :: "addr \<rightharpoonup> v2pt_mqueue_t"
  mqueue_list :: "addr list"
  wdogs :: "addr \<rightharpoonup> v2pt_wdog_t"
  wdog_list :: "addr list"
  restart_wdog :: addr
  errno :: "pthread \<Rightarrow> int"
  threads :: "pthread set"
  thr_sched :: "pthread \<Rightarrow> (sched_policy \<times> int) option"
  prio_min :: "sched_policy \<Rightarrow> int"
  prio_max :: "sched_policy \<Rightarrow> int"

text \<open>A control block of all-zero bytes, what \<open>memset(task, 0, sizeof *task)\<close> leaves.\<close>

definition zero_task :: task_t where
  "zero_task = \<lparr>taskid = 0, taskname = None, pthrid = 0, attr_policy = SCHED_OTHER,
     attr_priority = 0, prv_priority = 0, entry_point = NULL, parms = replicate 10 0,
     static_task = False, t_flags = 0, state = 0, vxw_priority = 0, delete_safe_count = 0,
     t_first_susp = [], waiting = NULL\<rparr>"

definition zero_sem :: v2lsem_t where
  "zero_sem = \<lparr>sem_lock = 0, sem_flags = 0, token_count = 0, send_type = 0,
     recursion_level = 0, current_owner = NULL, sem_first_susp = []\<rparr>"

definition zero_queue :: v2pt_mqueue_t where
  "zero_queue = \<lparr>queue_lock = 0, qdlet_lock = 0, qfull_lock = 0, extent = [], queue_head = 0, queue_tail = 0,
     first_msg_in_queue = 0, last_msg_in_queue = 0, q_send_type = 0, q_first_susp = [],
     q_first_write_susp = [], msg_count = 0, msgs_per_queue = 0, msg_len = 0, vmsg_len = 0,
     order = 0\<rparr>"

definition zero_wdog :: v2pt_wdog_t where
  "zero_wdog = \<lparr>ticks_remaining = 0, timeout_func = NULL, timeout_parm = 0\<rparr>"

text \<open>The state of the process before any library call, for given priority ranges of the
  operating system.\<close>

definition boot_world :: "(sched_policy \<Rightarrow> int) \<Rightarrow> (sched_policy \<Rightarrow> int) \<Rightarrow> world" where
  "boot_world lo hi = \<lparr>tasks = Map.empty, task_list = [], locker = 0, taskLock_level = 0,
     round_robin_enabled = False, sems = Map.empty, sem_list = [], queues = Map.empty,
     mqueue_list = [], wdogs = Map.empty, wdog_list = [], restart_wdog = NULL,
     errno = (\<lambda>_. 0), threads = {}, thr_sched = (\<lambda>_. None), prio_min = lo, prio_max = hi\<rparr>"


section \<open>Reading and writing through pointers\<close>

definition tcb :: "world \<Rightarrow> addr \<Rightarrow> task_t" where
  "tcb w a = (case tasks w a of Some t \<Rightarrow> t | None \<Rightarrow> zero_task)"

definition upd_task :: "addr \<Rightarrow> (task_t \<Rightarrow> task_t) \<Rightarrow> world \<Rightarrow> world" where
  "upd_task a f w = w\<lparr>tasks := (tasks w)(a := map_option f (tasks w a))\<rparr>"

definition smcb :: "world \<Rightarrow> addr \<Rightarrow> v2lsem_t" where
  "smcb w a = (case sems w a of Some s \<Rightarrow> s | None \<Rightarrow> zero_sem)"

definition upd_sem :: "addr \<Rightarrow> (v2lsem_t \<Rightarrow> v2lsem_t) \<Rightarrow> world \<Rightarrow> world" where
  "upd_sem a f w = w\<lparr>sems := (sems w)(a := map_option f (sems w a))\<rparr>"

definition qcb :: "world \<Rightarrow> addr \<Rightarrow> v2pt_mqueue_t" where
  "qcb w a = (case queues w a of Some q \<Rightarrow> q | None \<Rightarrow> zero_queue)"

definition upd_queue :: "addr \<Rightarrow> (v2pt_mqueue_t \<Rightarrow> v2pt_mqueue_t) \<Rightarrow> world \<Rightarrow> world" where
  "upd_queue a f w = w\<lparr>queues := (queues w)(a := map_option f (queues w a))\<rparr>"

definition wdcb :: "world \<Rightarrow> addr \<Rightarrow> v2pt_wdog_t" where
  "wdcb w a = (case wdogs w a of Some d \<Rightarrow> d | None \<Rightarrow> zero_wdog)"

definition upd_wdog :: "addr \<Rightarrow> (v2pt_wdog_t \<Rightarrow> v2pt_wdog_t) \<Rightarrow> world \<Rightarrow> world" where
  "upd_wdog a f w = w\<lparr>wdogs := (wdogs w)(a := map_option f (wdogs w a))\<rparr>"

definition set_errno :: "pthread \<Rightarrow> int \<Rightarrow> world \<Rightarrow> world" where
  "set_errno me e w = w\<lparr>errno := (errno w)(me := e)\<rparr>"

text \<open>The common ending of the API functions: an error goes to \<open>errno\<close> and the call
  returns \<open>ERROR\<close>.\<close>

definition finish :: "pthread \<Rightarrow> int \<Rightarrow> world \<Rightarrow> (int \<times> world) outcome" where
  "finish me error w =
     (if error \<noteq> OK then Done (ERROR, set_errno me error w) else Done (error, w))"


section \<open>Frame lemmas\<close>

named_theorems frame "what a state update leaves unchanged"

lemma upd_task_frame [frame, simp]:
  "task_list (upd_task a f w) = task_list w"
  "locker (upd_task a f w) = locker w"
  "taskLock_level (upd_task a f w) = taskLock_level w"
  "round_robin_enabled (upd_task a f w) = round_robin_enabled w"
  "sems (upd_task a f w) = sems w"
  "sem_list (upd_task a f w) = sem_list w"
  "queues (upd_task a f w) = queues w"
  "mqueue_list (upd_task a f w) = mqueue_list w"
  "wdogs (upd_task a f w) = wdogs w"
  "wdog_list (upd_task a f w) = wdog_list w"
  "restart_wdog (upd_task a f w) = restart_wdog w"
  "errno (upd_task a f w) = errno w"
  "threads (upd_task a f w) = threads w"
  "thr_sched (upd_task a f w) = thr_sched w"
  "prio_min (upd_task a f w) = prio_min w"
  "prio_max (upd_task a f w) = prio_max w"
  by (simp_all add: upd_task_def)

lemma upd_sem_frame [frame, simp]:
  "tasks (upd_sem a g w) = tasks w"
  "task_list (upd_sem a g w) = task_list w"
  "locker (upd_sem a g w) = locker w"
  "taskLock_level (upd_sem a g w) = taskLock_level w"
  "round_robin_enabled (upd_sem a g w) = round_robin_enabled w"
  "sem_list (upd_sem a g w) = sem_list w"
  "queues (upd_sem a g w) = queues w"
  "mqueue_list (upd_sem a g w) = mqueue_list w"
  "wdogs (upd_sem a g w) = wdogs w"
  "wdog_list (upd_sem a g w) = wdog_list w"
  "restart_wdog (upd_sem a g w) = restart_wdog w"
  "errno (upd_sem a g w) = errno w"
  "threads (upd_sem a g w) = threads w"
  "thr_sched (upd_sem a g w) = thr_sched w"
  "prio_min (upd_sem a g w) = prio_min w"
  "prio_max (upd_sem a g w) = prio_max w"
  by (simp_all add: upd_sem_def)

lemma upd_queue_frame [frame, simp]:
  "tasks (upd_queue a h w) = tasks w"
  "task_list (upd_queue a h w) = task_list w"
  "locker (upd_queue a h w) = locker w"
  "taskLock_level (upd_queue a h w) = taskLock_level w"
  "round_robin_enabled (upd_queue a h w) = round_robin_enabled w"
  "sems (upd_queue a h w) = sems w"
  "sem_list (upd_queue a h w) = sem_list w"
  "mqueue_list (upd_queue a h w) = mqueue_list w"
  "wdogs (upd_queue a h w) = wdogs w"
  "wdog_list (upd_queue a h w) = wdog_list w"
  "restart_wdog (upd_queue a h w) = restart_wdog w"
  "errno (upd_queue a h w) = errno w"
  "threads (upd_queue a h w) = threads w"
  "thr_sched (upd_queue a h w) = thr_sched w"
  "prio_min (upd_queue a h w) = prio_min w"
  "prio_max (upd_queue a h w) = prio_max w"
  by (simp_all add: upd_queue_def)

lemma upd_wdog_frame [frame, simp]:
  "tasks (upd_wdog a k w) = tasks w"
  "task_list (upd_wdog a k w) = task_list w"
  "locker (upd_wdog a k w) = locker w"
  "taskLock_level (upd_wdog a k w) = taskLock_level w"
  "round_robin_enabled (upd_wdog a k w) = round_robin_enabled w"
  "sems (upd_wdog a k w) = sems w"
  "sem_list (upd_wdog a k w) = sem_list w"
  "queues (upd_wdog a k w) = queues w"
  "mqueue_list (upd_wdog a k w) = mqueue_list w"
  "wdog_list (upd_wdog a k w) = wdog_list w"
  "restart_wdog (upd_wdog a k w) = restart_wdog w"
  "errno (upd_wdog a k w) = errno w"
  "threads (upd_wdog a k w) = threads w"
  "thr_sched (upd_wdog a k w) = thr_sched w"
  "prio_min (upd_wdog a k w) = prio_min w"
  "prio_max (upd_wdog a k w) = prio_max w"
  by (simp_all add: upd_wdog_def)

lemma set_errno_frame [frame, simp]:
  "tasks (set_errno me e w) = tasks w"
  "task_list (set_errno me e w) = task_list w"
  "locker (set_errno me e w) = locker w"
  "taskLock_level (set_errno me e w) = taskLock_level w"
  "round_robin_enabled (set_errno me e w) = round_robin_enabled w"
  "sems (set_errno me e w) = sems w"
  "sem_list (set_errno me e w) = sem_list w"
  "queues (set_errno me e w) = queues w"
  "mqueue_list (set_errno me e w) = mqueue_list w"
  "wdogs (set_errno me e w) = wdogs w"
  "wdog_list (set_errno me e w) = wdog_list w"
  "restart_wdog (set_errno me e w) = restart_wdog w"
  "threads (set_errno me e w) = threads w"
  "thr_sched (set_errno me e w) = thr_sched w"
  "prio_min (set_errno me e w) = prio_min w"
  "prio_max (set_errno me e w) = prio_max w"
  "errno (set_errno me e w) me = e"
  by (simp_all add: set_errno_def)

lemma dom_upd_task [simp]: "dom (tasks (upd_task a f w)) = dom (tasks w)"
  by (auto simp: upd_task_def split: if_splits)

lemma dom_upd_sem [simp]: "dom (sems (upd_sem a g w)) = dom (sems w)"
  by (auto simp: upd_sem_def split: if_splits)

lemma dom_upd_queue [simp]: "dom (queues (upd_queue a h w)) = dom (queues w)"
  by (auto simp: upd_queue_def split: if_splits)

lemma dom_upd_wdog [simp]: "dom (wdogs (upd_wdog a k w)) = dom (wdogs w)"
  by (auto simp: upd_wdog_def split: if_splits)

lemma tcb_upd_same [simp]: "a \<in> dom (tasks w) \<Longrightarrow> tcb (upd_task a f w) a = f (tcb w a)"
  by (auto simp: tcb_def upd_task_def)

lemma tcb_upd_other [simp]: "a \<noteq> b \<Longrightarrow> tcb (upd_task a f w) b = tcb w b"
  by (simp add: tcb_def upd_task_def)

lemma smcb_upd_same [simp]: "a \<in> dom (sems w) \<Longrightarrow> smcb (upd_sem a g w) a = g (smcb w a)"
  by (auto simp: smcb_def upd_sem_def)

lemma smcb_upd_other [simp]: "a \<noteq> b \<Longrightarrow> smcb (upd_sem a g w) b = smcb w b"
  by (simp add: smcb_def upd_sem_def)

lemma qcb_upd_same [simp]: "a \<in> dom (queues w) \<Longrightarrow> qcb (upd_queue a h w) a = h (qcb w a)"
  by (auto simp: qcb_def upd_queue_def)

lemma qcb_upd_other [simp]: "a \<noteq> b \<Longrightarrow> qcb (upd_queue a h w) b = qcb w b"
  by (simp add: qcb_def upd_queue_def)

lemma wdcb_upd_same [simp]: "a \<in> dom (wdogs w) \<Longrightarrow> wdcb (upd_wdog a k w) a = k (wdcb w a)"
  by (auto simp: wdcb_def upd_wdog_def)

lemma wdcb_upd_other [simp]: "a \<noteq> b \<Longrightarrow> wdcb (upd_wdog a k w) b = wdcb w b"
  by (simp add: wdcb_def upd_wdog_def)

text \<open>A control block read depends on its heap only.\<close>

lemma tcb_cong: "tasks w = tasks w' \<Longrightarrow> tcb w = tcb w'"
  by (simp add: tcb_def fun_eq_iff)

lemma smcb_cong: "sems w = sems w' \<Longrightarrow> smcb w = smcb w'"
  by (simp add: smcb_def fun_eq_iff)

lemma heap_read_frame [frame, simp]:
  "tcb (upd_sem s g w) = tcb w" "tcb (upd_queue q h w) = tcb w" "tcb (upd_wdog d k w) = tcb w"
  "tcb (set_errno me e w) = tcb w"
  "smcb (upd_task a f w) = smcb w" "smcb (upd_queue q h w) = smcb w"
  "smcb (upd_wdog d k w) = smcb w" "smcb (set_errno me e w) = smcb w"
  "qcb (upd_task a f w) = qcb w" "qcb (upd_sem s g w) = qcb w"
  "qcb (upd_wdog d k w) = qcb w" "qcb (set_errno me e w) = qcb w"
  "wdcb (upd_task a f w) = wdcb w" "wdcb (upd_sem s g w) = wdcb w"
  "wdcb (upd_queue q h w) = wdcb w" "wdcb (set_errno me e w) = wdcb w"
  by (simp_all add: tcb_def smcb_def qcb_def wdcb_def fun_eq_iff)

end
