(* ===== verification/Interfaces.thy ===== *)
theory Interfaces
  imports V2_State
begin

text \<open>
  The contracts between the components, as locales. Each is interpreted on the library's
  own operations in the theory of the component that provides them.
  \<^item> \<open>pend_list\<close>: the list of tasks waiting on an object, with the operations
    \<^verbatim>\<open>link_susp_task\<close> and \<^verbatim>\<open>unlink_susp_task\<close>; provided by \<^verbatim>\<open>ltaskLib.c\<close>, used by the
    semaphores, the message queues and task deletion.
  \<^item> \<open>registry\<close>: the global list of the live objects of one kind, with linking,
    unlinking and the validity check every API function starts with; provided by
    \<^verbatim>\<open>lsemLib.c\<close>, \<^verbatim>\<open>lmsgQLib.c\<close> and \<^verbatim>\<open>lwdLib.c\<close>.
  \<^item> \<open>msg_buffer\<close>: a bounded buffer of messages with insertion at both ends and removal at
    the front; provided by the ring of bytes of a message queue in \<^verbatim>\<open>lmsgQLib.c\<close>.
\<close>


section \<open>Lists of pended tasks\<close>

locale pend_list =
  fixes waiters :: "'s \<Rightarrow> addr list"
    and link :: "addr \<Rightarrow> 's \<Rightarrow> 's"
    and unlink :: "addr \<Rightarrow> 's \<Rightarrow> 's"
    and live :: "'s \<Rightarrow> bool"
  assumes waiters_link:
      "live s \<Longrightarrow> t \<noteq> NULL \<Longrightarrow> waiters (link t s) = takeWhile (\<lambda>x. x \<noteq> t) (waiters s) @ [t]"
    and waiters_unlink:
      "live s \<Longrightarrow> t \<noteq> NULL \<Longrightarrow> waiters (unlink t s) = remove1 t (waiters s)"
    and live_link: "live s \<Longrightarrow> live (link t s)"
    and live_unlink: "live s \<Longrightarrow> live (unlink t s)"
begin

text \<open>A task that was not waiting goes to the back and everyone in front keeps the place.\<close>

lemma link_new: "live s \<Longrightarrow> t \<noteq> NULL \<Longrightarrow> t \<notin> set (waiters s) \<Longrightarrow> waiters (link t s) = waiters s @ [t]"
  by (simp add: waiters_link)

lemma link_in: "live s \<Longrightarrow> t \<noteq> NULL \<Longrightarrow> t \<in> set (waiters (link t s))"
  by (simp add: waiters_link)

lemma distinct_link: "live s \<Longrightarrow> t \<noteq> NULL \<Longrightarrow> distinct (waiters s) \<Longrightarrow> distinct (waiters (link t s))"
  by (simp add: waiters_link)

lemma distinct_unlink: "live s \<Longrightarrow> t \<noteq> NULL \<Longrightarrow> distinct (waiters s) \<Longrightarrow> distinct (waiters (unlink t s))"
  by (simp add: waiters_unlink)

lemma unlink_gone:
  "live s \<Longrightarrow> t \<noteq> NULL \<Longrightarrow> distinct (waiters s) \<Longrightarrow> t \<notin> set (waiters (unlink t s))"
  by (simp add: waiters_unlink)

text \<open>Waiting and giving up leaves the list as it was.\<close>

lemma link_unlink:
  "live s \<Longrightarrow> t \<noteq> NULL \<Longrightarrow> t \<notin> set (waiters s) \<Longrightarrow> waiters (unlink t (link t s)) = waiters s"
  by (simp add: waiters_unlink live_link link_new remove1_append)

text \<open>The task at the head stays at the head until it is unlinked itself.\<close>

lemma head_link:
  "live s \<Longrightarrow> t \<noteq> NULL \<Longrightarrow> waiters s = h # ts \<Longrightarrow> h \<noteq> t \<Longrightarrow> hd (waiters (link t s)) = h"
  by (simp add: waiters_link)

lemma head_unlink:
  "live s \<Longrightarrow> t \<noteq> NULL \<Longrightarrow> waiters s = h # ts \<Longrightarrow> h \<noteq> t \<Longrightarrow> hd (waiters (unlink t s)) = h"
  by (simp add: waiters_unlink)

end


section \<open>Registries of live objects\<close>

locale registry =
  fixes ids :: "'s \<Rightarrow> addr list"
    and link :: "addr \<Rightarrow> 's \<Rightarrow> 's"
    and unlink :: "addr \<Rightarrow> 's \<Rightarrow> 's"
    and valid :: "addr \<Rightarrow> 's \<Rightarrow> bool"
  assumes ids_link: "ids (link a s) = ids s @ [a]"
    and ids_unlink: "ids (unlink a s) = remove1 a (ids s)"
    and valid_iff: "valid a s \<longleftrightarrow> a \<in> set (ids s)"
begin

lemma valid_link [simp]: "valid a (link b s) \<longleftrightarrow> a = b \<or> valid a s"
  by (auto simp: valid_iff ids_link)

lemma distinct_link: "distinct (ids s) \<Longrightarrow> \<not> valid a s \<Longrightarrow> distinct (ids (link a s))"
  by (simp add: valid_iff ids_link)

lemma distinct_unlink: "distinct (ids s) \<Longrightarrow> distinct (ids (unlink a s))"
  by (simp add: ids_unlink)

text \<open>A handle is invalid once its object is unlinked, and no other handle changes.\<close>

lemma stale_handle: "distinct (ids s) \<Longrightarrow> \<not> valid a (unlink a s)"
  by (simp add: valid_iff ids_unlink)

lemma other_handle: "a \<noteq> b \<Longrightarrow> valid a (unlink b s) \<longleftrightarrow> valid a s"
  by (simp add: valid_iff ids_unlink)

lemma link_unlink: "\<not> valid a s \<Longrightarrow> ids (unlink a (link a s)) = ids s"
  by (simp add: valid_iff ids_link ids_unlink remove1_append)

end


section \<open>Bounded buffers of messages\<close>

text \<open>A buffer holds a list of messages, at most \<open>capacity\<close> of them. Insertion at the back
  and at the front and removal from the front return on a well-formed buffer, the first
  two if there is room for a message that \<open>fits\<close>, the last if there is a message.\<close>

datatype 'm buf_op = Back 'm | Front 'm | Pop

text \<open>The specification: the results of a sequence of operations on a list of at most \<open>cap\<close>
  messages, \<open>None\<close> if an operation is used outside its contract.\<close>

fun deque_run :: "('m \<Rightarrow> bool) \<Rightarrow> nat \<Rightarrow> 'm buf_op list \<Rightarrow> 'm list \<Rightarrow> ('m list \<times> 'm list) option" where
  "deque_run ok cap [] ms = Some ([], ms)"
| "deque_run ok cap (Back m # ops) ms =
     (if ok m \<and> length ms < cap then deque_run ok cap ops (ms @ [m]) else None)"
| "deque_run ok cap (Front m # ops) ms =
     (if ok m \<and> length ms < cap then deque_run ok cap ops (m # ms) else None)"
| "deque_run ok cap (Pop # ops) [] = None"
| "deque_run ok cap (Pop # ops) (m # ms) =
     map_option (apfst ((#) m)) (deque_run ok cap ops ms)"

locale msg_buffer =
  fixes msgs :: "'q \<Rightarrow> 'm list"
    and wf :: "'q \<Rightarrow> bool"
    and capacity :: "'q \<Rightarrow> nat"
    and fits :: "'q \<Rightarrow> 'm \<Rightarrow> bool"
    and push_back :: "'m \<Rightarrow> 'q \<Rightarrow> 'q outcome"
    and push_front :: "'m \<Rightarrow> 'q \<Rightarrow> 'q outcome"
    and pop :: "'q \<Rightarrow> ('m \<times> 'q) outcome"
  assumes at_back: "wf q \<Longrightarrow> fits q m \<Longrightarrow> length (msgs q) < capacity q \<Longrightarrow>
      \<exists>q'. push_back m q = Done q' \<and> wf q' \<and> msgs q' = msgs q @ [m]
         \<and> capacity q' = capacity q \<and> fits q' = fits q"
    and at_front: "wf q \<Longrightarrow> fits q m \<Longrightarrow> length (msgs q) < capacity q \<Longrightarrow>
      \<exists>q'. push_front m q = Done q' \<and> wf q' \<and> msgs q' = m # msgs q
         \<and> capacity q' = capacity q \<and> fits q' = fits q"
    and remove: "wf q \<Longrightarrow> msgs q = m # ms \<Longrightarrow>
      \<exists>q'. pop q = Done (m, q') \<and> wf q' \<and> msgs q' = ms
         \<and> capacity q' = capacity q \<and> fits q' = fits q"
    and bounded: "wf q \<Longrightarrow> length (msgs q) \<le> capacity q"
begin

fun run :: "'m buf_op list \<Rightarrow> 'q \<Rightarrow> ('m list \<times> 'q) outcome" where
  "run [] q = Done ([], q)"
| "run (Back m # ops) q = obind (push_back m q) (run ops)"
| "run (Front m # ops) q = obind (push_front m q) (run ops)"
| "run (Pop # ops) q =
     obind (pop q) (\<lambda>(m, q'). obind (run ops q') (\<lambda>(ms, q''). Done (m # ms, q'')))"

text \<open>The buffer does what the list does, in every sequence of operations.\<close>

lemma run_refines:
  assumes "wf q" and "deque_run (fits q) (capacity q) ops (msgs q) = Some (out, ms)"
  shows "\<exists>q'. run ops q = Done (out, q') \<and> wf q' \<and> msgs q' = ms"
  using assms
proof (induction ops arbitrary: q out)
  case Nil
  then show ?case by simp
next
  case (Cons op ops)
  show ?case
  proof (cases op)
    case (Back m)
    then obtain q1 where "push_back m q = Done q1" "wf q1" "msgs q1 = msgs q @ [m]"
      "capacity q1 = capacity q" "fits q1 = fits q"
      using at_back [of q m] Cons.prems by (auto split: if_splits)
    then show ?thesis using Cons.IH [of q1 out] Cons.prems Back by (auto split: if_splits)
  next
    case (Front m)
    then obtain q1 where "push_front m q = Done q1" "wf q1" "msgs q1 = m # msgs q"
      "capacity q1 = capacity q" "fits q1 = fits q"
      using at_front [of q m] Cons.prems by (auto split: if_splits)
    then show ?thesis using Cons.IH [of q1 out] Cons.prems Front by (auto split: if_splits)
  next
    case Pop
    then obtain m ms1 where m: "msgs q = m # ms1" using Cons.prems(2) by (cases "msgs q") auto
    then obtain q1 where "pop q = Done (m, q1)" "wf q1" "msgs q1 = ms1"
      "capacity q1 = capacity q" "fits q1 = fits q"
      using remove [OF Cons.prems(1)] by blast
    then show ?thesis using Cons.IH [of q1 "tl out"] Cons.prems(2) Pop m by auto
  qed
qed

text \<open>What is sent to an empty buffer comes out in the same order, and leaves it empty.\<close>

lemma deque_fifo:
  "list_all ok ms \<Longrightarrow> length ms' + length ms \<le> cap \<Longrightarrow>
     deque_run ok cap (map Back ms @ replicate (length ms' + length ms) Pop) ms' = Some (ms' @ ms, [])"
proof (induction ms arbitrary: ms')
  case Nil
  then show ?case by (induction ms') auto
next
  case (Cons m ms)
  then show ?case using Cons.IH [of "ms' @ [m]"] by simp
qed

lemma fifo:
  assumes "wf q" and "msgs q = []" and "list_all (fits q) ms" and "length ms \<le> capacity q"
  shows "\<exists>q'. run (map Back ms @ replicate (length ms) Pop) q = Done (ms, q') \<and> wf q' \<and> msgs q' = []"
  using run_refines [OF assms(1)] deque_fifo [OF assms(3), of "[]"] assms(2,4) by simp

text \<open>A message at the front overtakes the others.\<close>

lemma overtake:
  assumes "wf q" and "fits q m" and "length (msgs q) < capacity q"
  shows "\<exists>q' q''. push_front m q = Done q' \<and> pop q' = Done (m, q'') \<and> msgs q'' = msgs q"
  using at_front [OF assms] remove by blast

end

end
