(* ===== verification/Task_Core.thy ===== *)
theory Task_Core
  imports Interfaces
begin

text \<open>
  The core of \<^verbatim>\<open>lib/ltaskLib.c\<close> that every other file calls: finding control blocks
  (\<^verbatim>\<open>my_task\<close>, \<^verbatim>\<open>task_for\<close>, \<^verbatim>\<open>new_tid\<close>), the scheduler lock (\<^verbatim>\<open>taskLock\<close>,
  \<^verbatim>\<open>taskUnlock\<close>), the lists of pended tasks (\<^verbatim>\<open>link_susp_task\<close>, \<^verbatim>\<open>unlink_susp_task\<close>,
  \<^verbatim>\<open>signal_for_my_task\<close>) and the translation of VxWorks priorities
  (\<^verbatim>\<open>translate_priority\<close>). Every function takes the calling thread (\<open>pthread_self()\<close>) as
  its argument \<open>me\<close>.
\<close>


section \<open>Control blocks of tasks\<close>

definition or_null :: "addr option \<Rightarrow> addr" where
  "or_null r = (case r of Some a \<Rightarrow> a | None \<Rightarrow> NULL)"

definition my_task :: "pthread \<Rightarrow> world \<Rightarrow> addr" where
  "my_task me w = or_null (find (\<lambda>t. me = pthrid (tcb w t)) (task_list w))"

definition task_for :: "pthread \<Rightarrow> int \<Rightarrow> world \<Rightarrow> addr" where
  "task_for me tid w =
     (if tid = 0 then my_task me w
      else or_null (find (\<lambda>t. taskid (tcb w t) = tid) (task_list w)))"

fun new_tid_from :: "(addr \<Rightarrow> int) \<Rightarrow> addr list \<Rightarrow> int \<Rightarrow> int" where
  "new_tid_from tid [] n = n"
| "new_tid_from tid (t # ts) n =
     new_tid_from tid ts (if tid t < 65536 \<and> tid t \<ge> n then tid t + 1 else n)"

definition new_tid :: "world \<Rightarrow> int" where
  "new_tid w = new_tid_from (\<lambda>t. taskid (tcb w t)) (task_list w) 1"


section \<open>The scheduler lock\<close>

text \<open>\<open>pthread_attr_setschedparam\<close> on the attributes of a task followed by
  \<open>pthread_setschedparam\<close> on its thread, the policy being the one in the attributes.\<close>

definition set_sched :: "addr \<Rightarrow> int \<Rightarrow> world \<Rightarrow> world" where
  "set_sched t prio w =
     (upd_task t (\<lambda>x. x\<lparr>attr_priority := prio\<rparr>) w)
       \<lparr>thr_sched := (thr_sched w)(pthrid (tcb w t) \<mapsto> (attr_policy (tcb w t), prio))\<rparr>"

definition taskLock :: "pthread \<Rightarrow> world \<Rightarrow> world outcome" where
  "taskLock me w =
     (let task = my_task me w in
      if locker w = 0 \<or> locker w = me then
        let level = taskLock_level w + 1;
            level' = (if level = 0 then level - 1 else level);
            w1 = w\<lparr>locker := me, taskLock_level := level'\<rparr>
        in Done (if task \<noteq> NULL
                 then set_sched task (prio_max w (attr_policy (tcb w task))) w1
                 else w1)
      else Blocked)"

definition taskUnlock :: "pthread \<Rightarrow> world \<Rightarrow> world" where
  "taskUnlock me w =
     (if locker w = me then
        let level = (if taskLock_level w > 0 then taskLock_level w - 1 else taskLock_level w)
        in if level < 1 then
             let task = my_task me w;
                 w1 = (if task \<noteq> NULL then set_sched task (prv_priority (tcb w task)) w else w)
             in w1\<lparr>locker := 0, taskLock_level := level\<rparr>
           else w\<lparr>taskLock_level := level\<rparr>
      else w)"


section \<open>Lists of pended tasks\<close>

text \<open>The list heads a \<open>task_t **list_head\<close> argument can point to.\<close>

datatype susp_head =
    SemSusp addr | QueueSusp addr | QueueWriteSusp addr | TaskSusp addr

fun get_susp :: "susp_head \<Rightarrow> world \<Rightarrow> addr list" where
  "get_susp (SemSusp a) w = sem_first_susp (smcb w a)"
| "get_susp (QueueSusp a) w = q_first_susp (qcb w a)"
| "get_susp (QueueWriteSusp a) w = q_first_write_susp (qcb w a)"
| "get_susp (TaskSusp a) w = t_first_susp (tcb w a)"

fun set_susp :: "susp_head \<Rightarrow> addr list \<Rightarrow> world \<Rightarrow> world" where
  "set_susp (SemSusp a) xs w = upd_sem a (\<lambda>s. s\<lparr>sem_first_susp := xs\<rparr>) w"
| "set_susp (QueueSusp a) xs w = upd_queue a (\<lambda>q. q\<lparr>q_first_susp := xs\<rparr>) w"
| "set_susp (QueueWriteSusp a) xs w = upd_queue a (\<lambda>q. q\<lparr>q_first_write_susp := xs\<rparr>) w"
| "set_susp (TaskSusp a) xs w = upd_task a (\<lambda>t. t\<lparr>t_first_susp := xs\<rparr>) w"

definition link_susp_task :: "susp_head \<Rightarrow> addr \<Rightarrow> world \<Rightarrow> world" where
  "link_susp_task h new_entry w =
     (if new_entry = NULL then w
      else upd_task new_entry (\<lambda>t. t\<lparr>state := state t OR PEND\<rparr>)
             (set_susp h (takeWhile (\<lambda>t. t \<noteq> new_entry) (get_susp h w) @ [new_entry]) w))"

definition unlink_susp_task :: "susp_head \<Rightarrow> addr \<Rightarrow> world \<Rightarrow> world" where
  "unlink_susp_task h entry w =
     (if entry = NULL then w
      else if entry \<in> set (get_susp h w)
      then upd_task entry (\<lambda>t. t\<lparr>state := state t AND NOT PEND\<rparr>)
             (set_susp h (remove1 entry (get_susp h w)) w)
      else w)"

fun highest_of :: "(addr \<Rightarrow> int) \<Rightarrow> addr list \<Rightarrow> addr \<Rightarrow> addr" where
  "highest_of prio [] best = best"
| "highest_of prio (t # ts) best =
     highest_of prio ts (if prio t > prio best then t else best)"

definition signalled_task :: "addr list \<Rightarrow> int \<Rightarrow> world \<Rightarrow> addr" where
  "signalled_task xs pend_order w =
     (let first = (case xs of [] \<Rightarrow> NULL | t # _ \<Rightarrow> t) in
      if pend_order \<noteq> 0 then highest_of (\<lambda>t. prv_priority (tcb w t)) xs first
      else first)"

definition signal_for_my_task :: "pthread \<Rightarrow> susp_head \<Rightarrow> int \<Rightarrow> world \<Rightarrow> bool" where
  "signal_for_my_task me h pend_order w \<longleftrightarrow>
     signalled_task (get_susp h w) pend_order w = my_task me w"


section \<open>Priorities\<close>

text \<open>The result and the error code left in \<open>*errp\<close>. The policy comes with the range the
  operating system reports for it.\<close>

definition translate_priority :: "world \<Rightarrow> int \<Rightarrow> sched_policy \<Rightarrow> int \<Rightarrow> int \<times> int" where
  "translate_priority w v2pthread_priority sched_policy err =
     (let err' = (if v2pthread_priority > MIN_V2PT_PRIORITY \<or> v2pthread_priority < MAX_V2PT_PRIORITY
                  then S_taskLib_ILLEGAL_PRIORITY else err);
          p0 = s32 (MIN_V2PT_PRIORITY - v2pthread_priority);
          min_priority = prio_min w sched_policy;
          max_priority = prio_max w sched_policy;
          p1 = s32 (p0 * max_priority);
          p2 = p1 sdiv (MIN_V2PT_PRIORITY + 1);
          p3 = p2 smod (max_priority - 1)
      in (if p3 < min_priority then min_priority else p3, err'))"


section \<open>Lemmas: control blocks and frames\<close>

definition task_wf :: "world \<Rightarrow> bool" where
  "task_wf w \<longleftrightarrow> distinct (task_list w) \<and> NULL \<notin> set (task_list w)
     \<and> set (task_list w) \<subseteq> dom (tasks w)"

definition lock_wf :: "world \<Rightarrow> bool" where
  "lock_wf w \<longleftrightarrow> (locker w = 0 \<longleftrightarrow> taskLock_level w = 0)"

lemma or_null_simps [simp]: "or_null None = NULL" "or_null (Some a) = a"
  by (simp_all add: or_null_def)

lemma or_null_find_in:
  "or_null (find P xs) \<noteq> NULL \<Longrightarrow> or_null (find P xs) \<in> set xs \<and> P (or_null (find P xs))"
  by (cases "find P xs") (auto dest: find_Some_in)

lemma my_task_in: "my_task me w \<noteq> NULL \<Longrightarrow> my_task me w \<in> set (task_list w)"
  unfolding my_task_def using or_null_find_in by blast

lemma my_task_pthrid: "my_task me w \<noteq> NULL \<Longrightarrow> pthrid (tcb w (my_task me w)) = me"
  by (auto simp: my_task_def dest: or_null_find_in)

lemma my_task_dom: "task_wf w \<Longrightarrow> my_task me w \<noteq> NULL \<Longrightarrow> my_task me w \<in> dom (tasks w)"
  using my_task_in [of me w] by (auto simp: task_wf_def)

lemma task_for_in: "task_for me tid w \<noteq> NULL \<Longrightarrow> task_for me tid w \<in> set (task_list w)"
  by (auto simp: task_for_def split: if_splits dest: my_task_in or_null_find_in)

lemma task_for_dom: "task_wf w \<Longrightarrow> task_for me tid w \<noteq> NULL \<Longrightarrow> task_for me tid w \<in> dom (tasks w)"
  using task_for_in [of me tid w] by (auto simp: task_wf_def)

lemma task_for_taskid:
  "tid \<noteq> 0 \<Longrightarrow> task_for me tid w \<noteq> NULL \<Longrightarrow> taskid (tcb w (task_for me tid w)) = tid"
  by (auto simp: task_for_def dest: or_null_find_in)

lemma task_for_NULL_iff:
  assumes "task_wf w" and "tid \<noteq> 0"
  shows "task_for me tid w = NULL \<longleftrightarrow> (\<forall>t \<in> set (task_list w). taskid (tcb w t) \<noteq> tid)"
proof -
  have "or_null (find P (task_list w)) = NULL \<longleftrightarrow> find P (task_list w) = None" for P
    using assms(1) find_Some_in [of P "task_list w"]
    by (cases "find P (task_list w)") (auto simp: task_wf_def)
  with assms(2) show ?thesis by (simp add: task_for_def find_None_notin)
qed

text \<open>Lookups depend on the task list and on one field of the control blocks.\<close>

lemma tcb_upd_field: "(\<And>x. F (f x) = F x) \<Longrightarrow> F (tcb (upd_task a f w) t) = F (tcb w t)"
  by (cases "a = t"; cases "tasks w t") (auto simp: tcb_def upd_task_def)

lemma my_task_cong:
  "task_list w = task_list w' \<Longrightarrow>
   (\<And>t. t \<in> set (task_list w) \<Longrightarrow> pthrid (tcb w t) = pthrid (tcb w' t)) \<Longrightarrow>
   my_task me w = my_task me w'"
  unfolding my_task_def by (intro arg_cong [of _ _ or_null]) (auto intro: find_cong_set)

lemma my_task_upd [simp]:
  "(\<And>x. pthrid (f x) = pthrid x) \<Longrightarrow> my_task me (upd_task a f w) = my_task me w"
  by (intro my_task_cong) (simp_all add: tcb_upd_field)

lemma task_for_upd [simp]:
  "(\<And>x. pthrid (f x) = pthrid x) \<Longrightarrow> (\<And>x. taskid (f x) = taskid x) \<Longrightarrow>
   task_for me tid (upd_task a f w) = task_for me tid w"
  by (simp add: task_for_def tcb_upd_field)

lemma my_task_frame [frame, simp]:
  "my_task me (upd_sem s g w) = my_task me w" "my_task me (upd_queue q h w) = my_task me w"
  "my_task me (upd_wdog d k w) = my_task me w" "my_task me (set_errno th e w) = my_task me w"
  "my_task me (w\<lparr>locker := l\<rparr>) = my_task me w"
  "my_task me (w\<lparr>taskLock_level := v\<rparr>) = my_task me w"
  "my_task me (w\<lparr>thr_sched := ts\<rparr>) = my_task me w"
  by (auto intro!: my_task_cong simp: tcb_def)

lemma tcb_lock_frame [frame, simp]:
  "tcb (w\<lparr>locker := l\<rparr>) = tcb w" "tcb (w\<lparr>taskLock_level := v\<rparr>) = tcb w"
  "tcb (w\<lparr>thr_sched := ts\<rparr>) = tcb w"
  by (simp_all add: tcb_def fun_eq_iff)

lemma set_sched_frame [frame, simp]:
  "task_list (set_sched t p w) = task_list w"
  "locker (set_sched t p w) = locker w"
  "taskLock_level (set_sched t p w) = taskLock_level w"
  "round_robin_enabled (set_sched t p w) = round_robin_enabled w"
  "sems (set_sched t p w) = sems w"
  "sem_list (set_sched t p w) = sem_list w"
  "queues (set_sched t p w) = queues w"
  "mqueue_list (set_sched t p w) = mqueue_list w"
  "wdogs (set_sched t p w) = wdogs w"
  "wdog_list (set_sched t p w) = wdog_list w"
  "restart_wdog (set_sched t p w) = restart_wdog w"
  "errno (set_sched t p w) = errno w"
  "threads (set_sched t p w) = threads w"
  "prio_min (set_sched t p w) = prio_min w"
  "prio_max (set_sched t p w) = prio_max w"
  "dom (tasks (set_sched t p w)) = dom (tasks w)"
  "my_task me (set_sched t p w) = my_task me w"
  by (simp_all add: set_sched_def)

lemma tcb_set_sched: "tcb (set_sched t p w) = tcb (upd_task t (\<lambda>x. x\<lparr>attr_priority := p\<rparr>) w)"
  by (simp add: set_sched_def)

lemma tcb_set_sched_field:
  "(\<And>x. F (x\<lparr>attr_priority := p\<rparr>) = F x) \<Longrightarrow> F (tcb (set_sched t p w) a) = F (tcb w a)"
  unfolding tcb_set_sched by (rule tcb_upd_field)


section \<open>Lemmas: the scheduler lock\<close>

text \<open>The new nesting level: one more, and no wrap-around at the largest value.\<close>

definition level_up :: "64 word \<Rightarrow> 64 word" where
  "level_up v = (if v + 1 = 0 then - 1 else v + 1)"

lemma level_up_nonzero [simp]: "level_up v \<noteq> 0"
  by (auto simp: level_up_def)

lemma unat_level_up: "unat v + 1 < 2 ^ 64 \<Longrightarrow> unat (level_up v) = unat v + 1"
proof -
  assume "unat v + 1 < 2 ^ 64"
  then have "unat (v + 1) = unat v + 1" by (simp add: unat_word_ariths)
  then show ?thesis by (auto simp: level_up_def)
qed

lemma taskLock_eq:
  "taskLock me w =
     (if locker w = 0 \<or> locker w = me then
        let task = my_task me w;
            w1 = w\<lparr>locker := me, taskLock_level := level_up (taskLock_level w)\<rparr>
        in Done (if task \<noteq> NULL then set_sched task (prio_max w (attr_policy (tcb w task))) w1
                 else w1)
      else Blocked)"
  by (auto simp: taskLock_def level_up_def Let_def)

lemma taskLock_Done_iff: "(\<exists>w'. taskLock me w = Done w') \<longleftrightarrow> locker w = 0 \<or> locker w = me"
  by (simp add: taskLock_eq Let_def)

lemma taskLock_never_crashes: "taskLock me w \<noteq> Crashed"
  by (simp add: taskLock_eq Let_def)

lemma taskLock_DoneD:
  "taskLock me w = Done w' \<Longrightarrow>
     (locker w = 0 \<or> locker w = me) \<and>
     w' = (let task = my_task me w;
               w1 = w\<lparr>locker := me, taskLock_level := level_up (taskLock_level w)\<rparr>
           in if task \<noteq> NULL then set_sched task (prio_max w (attr_policy (tcb w task))) w1 else w1)"
  by (simp add: taskLock_eq Let_def split: if_split_asm)

lemma taskLock_frame:
  assumes "taskLock me w = Done w'"
  shows "locker w' = me" "taskLock_level w' = level_up (taskLock_level w)"
    "task_list w' = task_list w" "dom (tasks w') = dom (tasks w)"
    "round_robin_enabled w' = round_robin_enabled w"
    "sems w' = sems w" "sem_list w' = sem_list w" "queues w' = queues w"
    "mqueue_list w' = mqueue_list w" "wdogs w' = wdogs w" "wdog_list w' = wdog_list w"
    "restart_wdog w' = restart_wdog w" "errno w' = errno w" "threads w' = threads w"
    "prio_min w' = prio_min w" "prio_max w' = prio_max w"
    "my_task th w' = my_task th w"
  using taskLock_DoneD [OF assms] by (simp_all add: Let_def)

lemma taskLock_field:
  assumes "taskLock me w = Done w'" and "\<And>x p. F (x\<lparr>attr_priority := p\<rparr>) = F x"
  shows "F (tcb w' a) = F (tcb w a)"
  using taskLock_DoneD [OF assms(1)] assms(2) by (simp add: Let_def tcb_set_sched_field)

lemma taskUnlock_frame [frame, simp]:
  "task_list (taskUnlock me w) = task_list w"
  "dom (tasks (taskUnlock me w)) = dom (tasks w)"
  "round_robin_enabled (taskUnlock me w) = round_robin_enabled w"
  "sems (taskUnlock me w) = sems w" "sem_list (taskUnlock me w) = sem_list w"
  "queues (taskUnlock me w) = queues w" "mqueue_list (taskUnlock me w) = mqueue_list w"
  "wdogs (taskUnlock me w) = wdogs w" "wdog_list (taskUnlock me w) = wdog_list w"
  "restart_wdog (taskUnlock me w) = restart_wdog w" "errno (taskUnlock me w) = errno w"
  "threads (taskUnlock me w) = threads w"
  "prio_min (taskUnlock me w) = prio_min w" "prio_max (taskUnlock me w) = prio_max w"
  "my_task th (taskUnlock me w) = my_task th w"
  by (simp_all add: taskUnlock_def Let_def)

lemma taskUnlock_field:
  "(\<And>x p. F (x\<lparr>attr_priority := p\<rparr>) = F x) \<Longrightarrow> F (tcb (taskUnlock me w) a) = F (tcb w a)"
  by (simp add: taskUnlock_def Let_def tcb_set_sched_field)

lemma taskLock_wf: "taskLock me w = Done w' \<Longrightarrow> task_wf w \<Longrightarrow> task_wf w'"
  by (simp add: task_wf_def taskLock_frame)

lemma taskUnlock_wf [simp]: "task_wf (taskUnlock me w) = task_wf w"
  by (simp add: task_wf_def)

lemma task_for_eqI:
  assumes "task_list w' = task_list w" and "\<And>t. pthrid (tcb w' t) = pthrid (tcb w t)"
    and "\<And>t. taskid (tcb w' t) = taskid (tcb w t)"
  shows "task_for me tid w' = task_for me tid w"
  using assms by (simp add: task_for_def my_task_def)

lemma taskLock_task_for: "taskLock me w = Done w' \<Longrightarrow> task_for th tid w' = task_for th tid w"
  by (rule task_for_eqI) (simp_all add: taskLock_frame taskLock_field)

lemma level_pred: "v \<noteq> 0 \<Longrightarrow> unat (v - 1) = unat (v :: 64 word) - 1"
  by (metis unat_minus_one)

lemma taskUnlock_level:
  assumes "locker w = me" and "taskLock_level w \<noteq> 0"
  shows "taskLock_level (taskUnlock me w) = taskLock_level w - 1"
    and "locker (taskUnlock me w) = (if taskLock_level w = 1 then 0 else me)"
proof -
  have pos: "taskLock_level w > 0" using assms(2) by (simp add: word_neq_0_conv)
  have one: "taskLock_level w - 1 < 1 \<longleftrightarrow> taskLock_level w = 1"
    by (metis diff_eq_eq add_0 word_less_1)
  show "taskLock_level (taskUnlock me w) = taskLock_level w - 1"
    using assms pos one by (simp add: taskUnlock_def Let_def)
  show "locker (taskUnlock me w) = (if taskLock_level w = 1 then 0 else me)"
    using assms pos one by (auto simp: taskUnlock_def Let_def)
qed

lemma taskUnlock_other: "locker w \<noteq> me \<Longrightarrow> taskUnlock me w = w"
  by (simp add: taskUnlock_def)

text \<open>\<open>n\<close> nested calls of \<^verbatim>\<open>taskLock\<close> by the same thread.\<close>

fun lock_times :: "nat \<Rightarrow> pthread \<Rightarrow> world \<Rightarrow> world outcome" where
  "lock_times 0 me w = Done w"
| "lock_times (Suc n) me w = obind (taskLock me w) (lock_times n me)"

lemma lock_times_level:
  assumes "me \<noteq> 0" and "locker w = 0 \<or> locker w = me" and "unat (taskLock_level w) + n < 2 ^ 64"
  shows "\<exists>w'. lock_times n me w = Done w' \<and> unat (taskLock_level w') = unat (taskLock_level w) + n
           \<and> (n \<noteq> 0 \<longrightarrow> locker w' = me) \<and> (n = 0 \<longrightarrow> w' = w)"
  using assms(2,3)
proof (induction n arbitrary: w)
  case 0
  then show ?case by simp
next
  case (Suc n)
  from Suc.prems(1) obtain w1 where w1: "taskLock me w = Done w1"
    using taskLock_Done_iff by blast
  have lev: "unat (taskLock_level w1) = unat (taskLock_level w) + 1"
    using taskLock_frame(2) [OF w1] Suc.prems(2) by (simp add: unat_level_up)
  have lk: "locker w1 = me" using w1 by (rule taskLock_frame(1))
  from Suc.IH [of w1] lk lev Suc.prems(2) obtain w' where
    "lock_times n me w1 = Done w'" "unat (taskLock_level w') = unat (taskLock_level w1) + n"
    "n \<noteq> 0 \<longrightarrow> locker w' = me" "n = 0 \<longrightarrow> w' = w1"
    by auto
  with w1 lev lk show ?case by (cases n) auto
qed

lemma unlock_times_level:
  assumes "me \<noteq> 0" and "locker w = me" and "unat (taskLock_level w) = n" and "k \<le> n" and "0 < n"
  shows "unat (taskLock_level ((taskUnlock me ^^ k) w)) = n - k
           \<and> locker ((taskUnlock me ^^ k) w) = (if k = n then 0 else me)"
  using assms(4)
proof (induction k)
  case 0
  then show ?case using assms by simp
next
  case (Suc k)
  let ?w = "(taskUnlock me ^^ k) w"
  from Suc have lev: "unat (taskLock_level ?w) = n - k" and lk: "locker ?w = me" by auto
  from lev Suc.prems have nz: "taskLock_level ?w \<noteq> 0" by auto
  have one: "taskLock_level ?w = 1 \<longleftrightarrow> Suc k = n"
    using lev Suc.prems by (auto simp: word_unat_eq_iff)
  from lk nz have "taskLock_level (taskUnlock me ?w) = taskLock_level ?w - 1"
    and "locker (taskUnlock me ?w) = (if taskLock_level ?w = 1 then 0 else me)"
    by (rule taskUnlock_level)+
  with lev nz one show ?case by (auto simp: level_pred)
qed

text \<open>C9. The scheduler lock nests. From an unlocked scheduler, \<open>n > 0\<close> calls of
  \<^verbatim>\<open>taskLock\<close> by one thread all return and leave that thread the locker; it stays the
  locker through the first \<open>n - 1\<close> calls of \<^verbatim>\<open>taskUnlock\<close>, and exactly the last one
  unlocks the scheduler.\<close>

theorem taskLock_nests:
  assumes "me \<noteq> 0" and "locker w = 0" and "taskLock_level w = 0" and "0 < n" and "n < 2 ^ 64"
  shows "\<exists>w'. lock_times n me w = Done w' \<and> locker w' = me
           \<and> (\<forall>k < n. locker ((taskUnlock me ^^ k) w') = me)
           \<and> locker ((taskUnlock me ^^ n) w') = 0 \<and> taskLock_level ((taskUnlock me ^^ n) w') = 0"
proof -
  from assms lock_times_level [of me w n] obtain w' where w': "lock_times n me w = Done w'"
    and lev: "unat (taskLock_level w') = n" and lk: "locker w' = me"
    by auto
  have un: "unat (taskLock_level ((taskUnlock me ^^ k) w')) = n - k
      \<and> locker ((taskUnlock me ^^ k) w') = (if k = n then 0 else me)" if "k \<le> n" for k
    using assms(1) lk lev that assms(4) by (rule unlock_times_level)
  have "taskLock_level ((taskUnlock me ^^ n) w') = 0"
    using un [of n] by (simp add: unat_eq_0)
  with w' lk un show ?thesis by force
qed

theorem taskLock_nests_witness:
  "\<exists>w'. lock_times 3 7 (boot_world (\<lambda>_. 1) (\<lambda>_. 99)) = Done w' \<and> locker w' = 7
     \<and> locker ((taskUnlock 7 ^^ 2) w') = 7
     \<and> locker ((taskUnlock 7 ^^ 3) w') = 0 \<and> taskLock_level ((taskUnlock 7 ^^ 3) w') = 0"
  using taskLock_nests [of 7 "boot_world (\<lambda>_. 1) (\<lambda>_. 99)" 3]
  by (auto simp: boot_world_def)

text \<open>The scheduler lock excludes every other thread: once a call of \<^verbatim>\<open>taskLock\<close> has
  returned to one thread, the same call by any other thread blocks, and a \<^verbatim>\<open>taskUnlock\<close> by
  any other thread changes nothing.\<close>

theorem taskLock_excludes:
  assumes "taskLock me w = Done w'" and "me \<noteq> 0" and "other \<noteq> me"
  shows "taskLock other w' = Blocked \<and> taskUnlock other w' = w'"
proof
  have lk: "locker w' = me" using assms(1) by (rule taskLock_frame(1))
  show "taskLock other w' = Blocked"
    using lk assms(2,3) by (auto simp: taskLock_eq)
  show "taskUnlock other w' = w'"
    using lk assms(3) by (intro taskUnlock_other) auto
qed

theorem taskLock_excludes_witness:
  "\<exists>w'. taskLock 7 (boot_world (\<lambda>_. 1) (\<lambda>_. 99)) = Done w'
     \<and> taskLock 8 w' = Blocked \<and> taskUnlock 8 w' = w'"
proof -
  obtain w' where "taskLock 7 (boot_world (\<lambda>_. 1) (\<lambda>_. 99)) = Done w'"
    using taskLock_Done_iff [of 7 "boot_world (\<lambda>_. 1) (\<lambda>_. 99)"] by (auto simp: boot_world_def)
  with taskLock_excludes [OF this, of 8] show ?thesis by simp
qed


section \<open>Lemmas: task identifiers\<close>

lemma new_tid_from_ge: "n \<le> new_tid_from tid ts n"
proof (induction ts arbitrary: n)
  case Nil
  then show ?case by simp
next
  case (Cons t ts)
  show ?case
    using Cons.IH [of "if tid t < 65536 \<and> tid t \<ge> n then tid t + 1 else n"] by auto
qed

lemma new_tid_from_above:
  "t \<in> set ts \<Longrightarrow> tid t < 65536 \<Longrightarrow> tid t < new_tid_from tid ts n"
proof (induction ts arbitrary: n)
  case Nil
  then show ?case by simp
next
  case (Cons u ts)
  show ?case
  proof (cases "t \<in> set ts")
    case True
    then show ?thesis using Cons by simp
  next
    case False
    then have "t = u" using Cons.prems by simp
    with Cons.prems show ?thesis
      using new_tid_from_ge [of "if tid u < 65536 \<and> tid u \<ge> n then tid u + 1 else n" tid ts]
      by (auto split: if_splits)
  qed
qed

lemma new_tid_from_le: "n \<le> 65536 \<Longrightarrow> new_tid_from tid ts n \<le> 65536"
  by (induction ts arbitrary: n) auto

lemma new_tid_unused:
  assumes "\<And>t. t \<in> set (task_list w) \<Longrightarrow> taskid (tcb w t) \<noteq> 65536"
  shows "1 \<le> new_tid w \<and> new_tid w \<le> 65536
           \<and> (\<forall>t \<in> set (task_list w). taskid (tcb w t) \<noteq> new_tid w)"
proof (intro conjI ballI)
  show "1 \<le> new_tid w" unfolding new_tid_def by (rule new_tid_from_ge)
  show le: "new_tid w \<le> 65536" unfolding new_tid_def by (rule new_tid_from_le) simp
  fix t
  assume t: "t \<in> set (task_list w)"
  show "taskid (tcb w t) \<noteq> new_tid w"
  proof (cases "taskid (tcb w t) < 65536")
    case True
    with t have "taskid (tcb w t) < new_tid w"
      unfolding new_tid_def by (intro new_tid_from_above)
    then show ?thesis by simp
  next
    case False
    with assms [OF t] le show ?thesis by auto
  qed
qed

text \<open>\<^verbatim>\<open>new_tid\<close> never returns an identifier in use, as long as the highest small
  identifier has not reached 65535: it is at least 1, above every identifier below 65536,
  at most 65536, and different from the identifier of every task in the list.\<close>

theorem new_tid_fresh:
  assumes "\<And>t. t \<in> set (task_list w) \<Longrightarrow> taskid (tcb w t) \<noteq> 65536"
  shows "1 \<le> new_tid w \<and> new_tid w \<le> 65536
           \<and> (\<forall>t \<in> set (task_list w). taskid (tcb w t) \<noteq> new_tid w)"
  using assms by (rule new_tid_unused)

text \<open>A process with two tasks, for the witnesses: control blocks at addresses 100 and 200
  with identifiers 1 and 2, run by the threads 7 and 8, under the priority ranges of
  Linux.\<close>

definition linux_lo :: "sched_policy \<Rightarrow> int" where
  "linux_lo p = (if p = SCHED_OTHER then 0 else 1)"

definition linux_hi :: "sched_policy \<Rightarrow> int" where
  "linux_hi p = (if p = SCHED_OTHER then 0 else 99)"

definition two_tasks :: world where
  "two_tasks = (boot_world linux_lo linux_hi)
     \<lparr>tasks := [100 \<mapsto> zero_task\<lparr>taskid := 1, pthrid := 7, attr_policy := SCHED_FIFO,
                     prv_priority := 40, attr_priority := 40\<rparr>,
              200 \<mapsto> zero_task\<lparr>taskid := 2, pthrid := 8, attr_policy := SCHED_FIFO,
                     prv_priority := 60, attr_priority := 60\<rparr>],
      task_list := [100, 200], threads := {7, 8}\<rparr>"

lemmas demo_simps = two_tasks_def boot_world_def zero_task_def tcb_def linux_lo_def linux_hi_def

theorem new_tid_fresh_witness:
  "1 \<le> new_tid two_tasks \<and> taskid (tcb two_tasks 100) \<noteq> new_tid two_tasks
     \<and> taskid (tcb two_tasks 200) \<noteq> new_tid two_tasks"
proof -
  have "taskid (tcb two_tasks t) \<noteq> 65536" if "t \<in> set (task_list two_tasks)" for t
    using that by (auto simp: demo_simps)
  then show ?thesis
    using new_tid_fresh [of two_tasks] by (auto simp: demo_simps)
qed


section \<open>Lemmas: pended tasks\<close>

fun head_live :: "susp_head \<Rightarrow> world \<Rightarrow> bool" where
  "head_live (SemSusp a) w \<longleftrightarrow> a \<in> dom (sems w)"
| "head_live (QueueSusp a) w \<longleftrightarrow> a \<in> dom (queues w)"
| "head_live (QueueWriteSusp a) w \<longleftrightarrow> a \<in> dom (queues w)"
| "head_live (TaskSusp a) w \<longleftrightarrow> a \<in> dom (tasks w)"

lemma get_set_susp: "head_live h w \<Longrightarrow> get_susp h (set_susp h xs w) = xs"
  by (cases h) (simp_all del: domIff)

lemma get_susp_state [simp]: "get_susp h (upd_task a (\<lambda>t. t\<lparr>state := v t\<rparr>) w) = get_susp h w"
  by (cases h) (simp_all add: tcb_upd_field [where F = t_first_susp])

lemma head_live_set_susp [simp]: "head_live h (set_susp h' xs w) = head_live h w"
  by (cases h; cases h') (simp_all del: domIff)

lemma head_live_upd_task [simp]: "head_live h (upd_task a f w) = head_live h w"
  by (cases h) (simp_all del: domIff)

lemma get_susp_link:
  "head_live h w \<Longrightarrow> t \<noteq> NULL \<Longrightarrow>
     get_susp h (link_susp_task h t w) = takeWhile (\<lambda>x. x \<noteq> t) (get_susp h w) @ [t]"
  by (simp add: link_susp_task_def get_set_susp)

lemma get_susp_unlink:
  "head_live h w \<Longrightarrow> t \<noteq> NULL \<Longrightarrow>
     get_susp h (unlink_susp_task h t w) = remove1 t (get_susp h w)"
  by (simp add: unlink_susp_task_def get_set_susp remove1_idem)

interpretation susp: pend_list "get_susp h" "link_susp_task h" "unlink_susp_task h" "head_live h"
  for h
  by unfold_locales
    (auto simp: get_susp_link get_susp_unlink, auto simp: link_susp_task_def unlink_susp_task_def)

text \<open>The list operations are what the pointer loops of the C code compute.\<close>

text \<open>C14. The pointer loops of \<^verbatim>\<open>link_susp_task\<close> and \<^verbatim>\<open>unlink_susp_task\<close> implement the
  model: started on a well-formed \<^verbatim>\<open>nxt_susp\<close> list that holds the waiters of an object,
  both loops return, and the list they leave holds the waiters the model computes.\<close>

theorem susp_loops_refine:
  assumes "represents s (get_susp h w)" and "head_live h w" and "t \<noteq> NULL"
  shows "(\<exists>s'. link_susp_ptr t s = Some s' \<and> represents s' (get_susp h (link_susp_task h t w)))
       \<and> (\<exists>s'. unlink_susp_ptr t s = Some s' \<and> represents s' (get_susp h (unlink_susp_task h t w)))"
  using link_susp_ptr_links [OF assms(1,3)] unlink_susp_ptr_removes [OF assms(1,3)] assms(2,3)
  by (simp add: get_susp_link get_susp_unlink)

theorem susp_loops_refine_witness:
  "(\<exists>s'. link_susp_ptr 200 \<lparr>sl_head = NULL, sl_next = (\<lambda>_. NULL)\<rparr> = Some s'
       \<and> represents s' (get_susp (TaskSusp 100) (link_susp_task (TaskSusp 100) 200 two_tasks)))
   \<and> (\<exists>s'. unlink_susp_ptr 200 \<lparr>sl_head = NULL, sl_next = (\<lambda>_. NULL)\<rparr> = Some s'
       \<and> represents s' (get_susp (TaskSusp 100) (unlink_susp_task (TaskSusp 100) 200 two_tasks)))"
  by (rule susp_loops_refine) (simp_all add: represents_def demo_simps)

text \<open>Which task a signal is for.\<close>

lemma highest_of_spec:
  "highest_of prio xs b \<in> insert b (set xs)
     \<and> (\<forall>t \<in> insert b (set xs). prio t \<le> prio (highest_of prio xs b))"
proof (induction xs arbitrary: b)
  case Nil
  then show ?case by simp
next
  case (Cons x xs)
  show ?case using Cons.IH [of "if prio x > prio b then x else b"] by auto
qed

text \<open>The task a signal is meant for: in FIFO order the task that waits longest, in
  priority order a waiting task whose POSIX priority no other waiting task exceeds.\<close>

theorem signalled_task_spec:
  assumes "xs \<noteq> []"
  shows "signalled_task xs 0 w = hd xs
       \<and> (pend_order \<noteq> 0 \<longrightarrow> signalled_task xs pend_order w \<in> set xs
          \<and> (\<forall>t \<in> set xs. prv_priority (tcb w t)
                 \<le> prv_priority (tcb w (signalled_task xs pend_order w))))"
proof (cases xs)
  case Nil
  with assms show ?thesis by simp
next
  case (Cons x ys)
  then show ?thesis
    using highest_of_spec [of "\<lambda>t. prv_priority (tcb w t)" xs x]
    by (auto simp: signalled_task_def Let_def)
qed

theorem signalled_task_spec_witness:
  "signalled_task [100, 200] 0 two_tasks = 100
     \<and> prv_priority (tcb two_tasks 100)
         \<le> prv_priority (tcb two_tasks (signalled_task [100, 200] 1 two_tasks))"
  using signalled_task_spec [of "[100, 200]" two_tasks 1] by simp


section \<open>Lemmas: priorities\<close>

text \<open>For a legal priority and a policy with at most 256 levels nothing overflows and no
  operand is negative.\<close>

lemma translate_priority_eq:
  assumes "0 \<le> v" and "v \<le> 255" and "2 \<le> prio_max w p" and "prio_max w p \<le> 256"
  shows "translate_priority w v p e =
           (max (prio_min w p) ((255 - v) * prio_max w p div 256 mod (prio_max w p - 1)), e)"
proof -
  have le: "(255 - v) * prio_max w p \<le> 255 * 256"
    using assms by (intro mult_mono) auto
  have nn: "0 \<le> (255 - v) * prio_max w p" using assms by simp
  have "s32 (255 - v) = 255 - v"
    using assms by (intro s32_id) (simp add: in_s32_def)
  moreover have "s32 ((255 - v) * prio_max w p) = (255 - v) * prio_max w p"
    using nn le by (intro s32_id) (simp add: in_s32_def)
  moreover have "((255 - v) * prio_max w p) sdiv 256 = (255 - v) * prio_max w p div 256"
    using nn by (intro sdiv_nonneg) auto
  moreover have "((255 - v) * prio_max w p div 256) smod (prio_max w p - 1)
      = (255 - v) * prio_max w p div 256 mod (prio_max w p - 1)"
    using nn assms(3) by (intro smod_nonneg) auto
  ultimately show ?thesis
    using assms(1,2) by (auto simp: translate_priority_def Let_def vxw_codes max_def)
qed

text \<open>A legal priority is translated into the range of the policy with the two highest
  levels kept free, as the code means to reserve them: the result is at least
  \<open>sched_get_priority_min\<close> and at most \<open>sched_get_priority_max - 2\<close>, and no error is
  set.\<close>

lemma translate_priority_range:
  assumes "0 \<le> v" and "v \<le> 255" and "3 \<le> prio_max w p" and "prio_max w p \<le> 256"
    and "prio_min w p \<le> prio_max w p - 2"
  shows "prio_min w p \<le> fst (translate_priority w v p e)
       \<and> fst (translate_priority w v p e) \<le> prio_max w p - 2
       \<and> snd (translate_priority w v p e) = e"
proof -
  have "(255 - v) * prio_max w p div 256 mod (prio_max w p - 1) < prio_max w p - 1"
    using assms(3) by (intro pos_mod_bound) simp
  then have "(255 - v) * prio_max w p div 256 mod (prio_max w p - 1) \<le> prio_max w p - 2"
    by linarith
  then show ?thesis
    using assms by (simp add: translate_priority_eq)
qed

theorem translate_priority_range_witness:
  "1 \<le> fst (translate_priority two_tasks 100 SCHED_FIFO 0)
     \<and> fst (translate_priority two_tasks 100 SCHED_FIFO 0) \<le> 97
     \<and> snd (translate_priority two_tasks 100 SCHED_FIFO 0) = 0"
  using translate_priority_range [of 100 two_tasks SCHED_FIFO 0] by (simp add: demo_simps)

text \<open>With the priority range of Linux (1 to 99) the translation respects the VxWorks
  order from priority 2 downwards: of two priorities between 2 and 255 the smaller number,
  which is the more urgent one, never gets the lower POSIX priority.\<close>

lemma translate_priority_antimono:
  assumes "2 \<le> a" and "a \<le> b" and "b \<le> 255" and "prio_min w p = 1" and "prio_max w p = 99"
  shows "fst (translate_priority w b p e) \<le> fst (translate_priority w a p e)"
proof -
  have small: "(255 - v) * 99 div 256 mod 98 = (255 - v) * 99 div 256"
    if "2 \<le> v" and "v \<le> 255" for v :: int
    using that by (intro mod_pos_pos_trivial) auto
  have "(255 - b) * 99 div 256 \<le> (255 - a) * 99 div (256 :: int)"
    using assms(2) by (intro zdiv_mono1) auto
  moreover have "(255 - a) * 99 div 256 mod 98 = (255 - a) * 99 div 256"
    and "(255 - b) * 99 div 256 mod 98 = (255 - b) * 99 div 256"
    using assms(1-3) by (intro small; linarith)+
  ultimately have "max 1 ((255 - b) * 99 div 256 mod 98) \<le> max 1 ((255 - a) * 99 div 256 mod 98)"
    by (simp add: max.coboundedI2)
  then show ?thesis
    using assms by (simp add: translate_priority_eq)
qed

theorem translate_priority_antimono_witness:
  "fst (translate_priority two_tasks 200 SCHED_RR 0) \<le> fst (translate_priority two_tasks 10 SCHED_RR 0)"
  by (rule translate_priority_antimono) (simp_all add: demo_simps)

text \<open>The most urgent VxWorks priority is not translated into the highest POSIX priority
  but into the lowest: whatever the range of the policy (3 to 256 levels), priority 0 ends
  at \<open>sched_get_priority_min\<close>, because the quotient equals the modulus and the remainder
  is 0.\<close>

lemma translate_priority_zero_is_lowest:
  assumes "3 \<le> prio_max w p" and "prio_max w p \<le> 256" and "0 \<le> prio_min w p"
  shows "fst (translate_priority w 0 p e) = prio_min w p"
proof -
  have "255 * prio_max w p div 256 = prio_max w p - 1"
    using assms by (intro int_div_pos_eq [where r = "256 - prio_max w p"]) auto
  then show ?thesis using assms by (simp add: translate_priority_eq)
qed

theorem translate_priority_zero_is_lowest_witness:
  "fst (translate_priority two_tasks 0 SCHED_FIFO 0) = 1
     \<and> fst (translate_priority two_tasks 2 SCHED_FIFO 0) = 97"
  using translate_priority_zero_is_lowest [of two_tasks SCHED_FIFO 0]
  by (simp add: demo_simps translate_priority_def Let_def vxw_codes s32_def)

text \<open>An illegal priority is reported, whatever else is computed.\<close>

lemma translate_priority_illegal:
  "v < 0 \<or> 255 < v \<Longrightarrow> snd (translate_priority w v p e) = S_taskLib_ILLEGAL_PRIORITY"
  by (auto simp: translate_priority_def Let_def vxw_codes)

text \<open>C22. What \<^verbatim>\<open>translate_priority\<close> computes for the priority range of Linux (1 to 99). A legal
  VxWorks priority gets a POSIX priority between 1 and 97, so that the two highest levels stay
  free, and an illegal one is reported. From 2 downwards the order is respected: of two
  priorities between 2 and 255 the more urgent one, with the smaller number, never gets the
  lower POSIX priority. But the two most urgent priorities 0 and 1 get the lowest POSIX
  priority, because the scaled priority is reduced modulo the limit where it should be
  clipped.\<close>

theorem translate_priority_spec:
  assumes "prio_min w p = 1" and "prio_max w p = 99"
  shows "(\<forall>v. 0 \<le> v \<and> v \<le> 255 \<longrightarrow> 1 \<le> fst (translate_priority w v p e)
             \<and> fst (translate_priority w v p e) \<le> 97 \<and> snd (translate_priority w v p e) = e)
     \<and> (\<forall>v. v < 0 \<or> 255 < v \<longrightarrow> snd (translate_priority w v p e) = S_taskLib_ILLEGAL_PRIORITY)
     \<and> (\<forall>a b. 2 \<le> a \<and> a \<le> b \<and> b \<le> 255 \<longrightarrow>
             fst (translate_priority w b p e) \<le> fst (translate_priority w a p e))
     \<and> fst (translate_priority w 0 p e) = 1 \<and> fst (translate_priority w 1 p e) = 1"
proof (intro conjI allI impI; (elim conjE)?)
  show "fst (translate_priority w 1 p e) = 1" using assms by (simp add: translate_priority_eq)
  show "fst (translate_priority w 0 p e) = 1" using assms translate_priority_zero_is_lowest [of w p e] by simp
next
  fix v :: int
  assume "0 \<le> v" "v \<le> 255"
  with translate_priority_range [of v w p e] assms
  show "1 \<le> fst (translate_priority w v p e)" "fst (translate_priority w v p e) \<le> 97"
    "snd (translate_priority w v p e) = e"
    by simp_all
qed (use assms translate_priority_illegal translate_priority_antimono in blast)+

theorem translate_priority_spec_witness:
  "fst (translate_priority two_tasks 200 SCHED_RR 0) \<le> fst (translate_priority two_tasks 10 SCHED_RR 0)
     \<and> fst (translate_priority two_tasks 0 SCHED_RR 0) = 1 \<and> fst (translate_priority two_tasks 100 SCHED_RR 0) \<le> 97"
  using translate_priority_spec [of two_tasks SCHED_RR 0] by (simp add: demo_simps)

end
