(* ===== verification/Task_Lib.thy ===== *)
theory Task_Lib
  imports Task_Core
begin

text \<open>
  The task API of \<^verbatim>\<open>lib/ltaskLib.c\<close>: creation (\<^verbatim>\<open>taskInit\<close>, \<^verbatim>\<open>taskActivate\<close>,
  \<^verbatim>\<open>taskSpawn\<close>), deletion (\<^verbatim>\<open>task_delete\<close>, \<^verbatim>\<open>taskDeleteForce\<close>, \<^verbatim>\<open>taskDelete\<close>), deletion
  safety (\<^verbatim>\<open>taskSafe\<close>, \<^verbatim>\<open>taskUnsafe\<close>), priorities, delays and queries. \<^verbatim>\<open>taskRestart\<close>
  starts a watchdog and is in theory \<open>Wd_Lib\<close>.

  What the environment decides is an argument: the block \<open>malloc\<close> returns (0 when it
  fails), the return code of \<open>pthread_create\<close> and the thread it makes. A thread made by
  \<open>pthread_create\<close> inherits the scheduling of its creator: the attributes are initialised
  with \<open>PTHREAD_INHERIT_SCHED\<close> and the code does not change that.
\<close>


section \<open>Calls that sleep at a condition variable\<close>

text \<open>A call that reaches \<open>pthread_cond_wait\<close> is \<open>Parked\<close>; the rest of the call is
  a definition of its own, run when the condition is met.\<close>

datatype 'r call = Ret 'r | Parked

definition ret_status :: "pthread \<Rightarrow> int \<Rightarrow> world \<Rightarrow> (int call \<times> world) outcome" where
  "ret_status me error w = obind (finish me error w) (\<lambda>(r, w'). Done (Ret r, w'))"


section \<open>Deletion safety\<close>

definition taskSafe :: "pthread \<Rightarrow> world \<Rightarrow> (int \<times> world) outcome" where
  "taskSafe me w =
     obind (taskLock me w) (\<lambda>w1.
       let t = my_task me w1 in
       if t = NULL then Crashed
       else
         let c = s32 (delete_safe_count (tcb w1 t) + 1);
             c' = (if c \<le> 0 then s32 (c - 1) else c)
         in Done (OK, taskUnlock me (upd_task t (\<lambda>x. x\<lparr>delete_safe_count := c'\<rparr>) w1)))"

text \<open>\<^verbatim>\<open>notify_task_delete\<close> returns at once when no task waits for the deletion; otherwise
  it wakes the waiting tasks and sleeps until the last one has left the list.\<close>

definition notify_task_delete :: "addr \<Rightarrow> world \<Rightarrow> unit call" where
  "notify_task_delete task w = (if t_first_susp (tcb w task) = [] then Ret () else Parked)"

definition taskUnsafe :: "pthread \<Rightarrow> world \<Rightarrow> (int call \<times> world) outcome" where
  "taskUnsafe me w =
     obind (taskLock me w) (\<lambda>w1.
       let t = my_task me w1 in
       if t = NULL then Crashed
       else
         let c = delete_safe_count (tcb w1 t);
             c' = (if c > 0 then c - 1 else c);
             task_made_deletable = (c > 0 \<and> c' = 0);
             w2 = taskUnlock me (upd_task t (\<lambda>x. x\<lparr>delete_safe_count := c'\<rparr>) w1)
         in if task_made_deletable \<and> t_first_susp (tcb w2 t) \<noteq> []
            then case notify_task_delete t w2 of
                   Ret _ \<Rightarrow> Done (Ret OK, w2)
                 | Parked \<Rightarrow> Done (Parked, w2)
            else Done (Ret OK, w2))"


section \<open>Deletion\<close>

definition task_delete :: "addr \<Rightarrow> world \<Rightarrow> world" where
  "task_delete task w =
     (let w1 = (if waiting (tcb w task) \<noteq> NULL
                then unlink_susp_task (SemSusp (waiting (tcb w task))) task w else w);
          w2 = w1\<lparr>task_list := remove1 task (task_list w1)\<rparr>
      in if static_task (tcb w2 task) then w2
         else w2\<lparr>tasks := (tasks w2)(task := None)\<rparr>)"

definition task_delete_unlock :: "pthread \<Rightarrow> addr \<Rightarrow> world \<Rightarrow> world" where
  "task_delete_unlock me task w = taskUnlock me (task_delete task w)"

text \<open>\<open>pthread_cancel\<close> and \<open>pthread_join\<close>; a control block that was never activated
  has no thread to cancel.\<close>

definition cancel_join :: "addr \<Rightarrow> world \<Rightarrow> world outcome" where
  "cancel_join t w =
     (if pthrid (tcb w t) = 0 then Crashed
      else Done (w\<lparr>threads := threads w - {pthrid (tcb w t)}\<rparr>))"

definition taskDeleteForce :: "pthread \<Rightarrow> int \<Rightarrow> world \<Rightarrow> (int call \<times> world) outcome" where
  "taskDeleteForce me tid w =
     (let self_task = my_task me w in
      obind (taskLock me w) (\<lambda>w1.
        let t = task_for me tid w1 in
        if t = NULL then ret_status me S_objLib_OBJ_DELETED (taskUnlock me w1)
        else case notify_task_delete t w1 of
          Parked \<Rightarrow> Done (Parked, w1)
        | Ret _ \<Rightarrow>
            if t \<noteq> self_task then
              obind (cancel_join t w1) (\<lambda>w2.
                ret_status me OK (taskUnlock me (task_delete t w2)))
            else ret_status me OK (taskUnlock me (task_delete_unlock me self_task w1))))"

text \<open>\<^verbatim>\<open>task_pend_delete\<close> up to the wait for \<open>t_deletable\<close>, and from its end.\<close>

definition task_pend_delete :: "pthread \<Rightarrow> addr \<Rightarrow> addr \<Rightarrow> world \<Rightarrow> world" where
  "task_pend_delete me self_task t w = taskUnlock me (link_susp_task (TaskSusp t) self_task w)"

definition task_pend_delete_resume :: "pthread \<Rightarrow> addr \<Rightarrow> addr \<Rightarrow> world \<Rightarrow> (unit call \<times> world) outcome" where
  "task_pend_delete_resume me self_task t w =
     (if delete_safe_count (tcb w t) > 0 then Done (Parked, w)
      else obind (taskLock me w) (\<lambda>w1.
        if self_task = NULL then Crashed
        else Done (Ret (),
          if waiting (tcb w1 self_task) \<noteq> NULL
          then unlink_susp_task (SemSusp (waiting (tcb w1 self_task))) self_task w1 else w1)))"

definition taskDelete :: "pthread \<Rightarrow> int \<Rightarrow> world \<Rightarrow> (int call \<times> world) outcome" where
  "taskDelete me tid w =
     (let self_task = my_task me w in
      obind (taskLock me w) (\<lambda>w1.
        let t = task_for me tid w1 in
        if t = NULL then ret_status me S_objLib_OBJ_DELETED (taskUnlock me w1)
        else if \<not> delete_safe_count (tcb w1 t) > 0 then
          obind (taskDeleteForce me tid w1) (\<lambda>(r, w2).
            case r of
              Parked \<Rightarrow> Done (Parked, w2)
            | Ret error \<Rightarrow> ret_status me error (taskUnlock me w2))
        else if t = self_task then ret_status me S_objLib_OBJ_UNAVAILABLE (taskUnlock me w1)
        else Done (Parked, task_pend_delete me self_task t w1)))"

text \<open>The rest of a \<^verbatim>\<open>taskDelete\<close> that pended in \<^verbatim>\<open>task_pend_delete\<close>.\<close>

definition taskDelete_resume :: "pthread \<Rightarrow> addr \<Rightarrow> addr \<Rightarrow> world \<Rightarrow> (int call \<times> world) outcome" where
  "taskDelete_resume me self_task t w =
     obind (task_pend_delete_resume me self_task t w) (\<lambda>(r, w1).
       case r of Parked \<Rightarrow> Done (Parked, w1) | Ret _ \<Rightarrow> ret_status me OK (taskUnlock me w1))"


section \<open>Creation\<close>

text \<open>The control block \<^verbatim>\<open>taskInit\<close> writes.\<close>

definition init_tcb :: "world \<Rightarrow> addr \<Rightarrow> string option \<Rightarrow> int \<Rightarrow> int \<Rightarrow> addr \<Rightarrow> int list \<Rightarrow> addr \<Rightarrow> task_t \<times> int" where
  "init_tcb w task name pri opts funcptr args nameblk =
     (let policy = (if round_robin_enabled w then SCHED_RR else SCHED_FIFO);
          (new_priority, error) = translate_priority w pri policy OK
      in (zero_task\<lparr>pthrid := 0, taskid := s32 (int task),
            taskname := (if nameblk \<noteq> NULL then name else None),
            vxw_priority := pri, attr_policy := policy, prv_priority := new_priority,
            attr_priority := new_priority, entry_point := funcptr, static_task := True,
            t_flags := opts, state := DEAD, delete_safe_count := 0, t_first_susp := [],
            parms := args\<rparr>, error))"

definition taskInit ::
  "pthread \<Rightarrow> addr \<Rightarrow> string option \<Rightarrow> int \<Rightarrow> int \<Rightarrow> addr \<Rightarrow> int list \<Rightarrow> addr \<Rightarrow> world \<Rightarrow> (int \<times> world) outcome" where
  "taskInit me task name pri opts funcptr args nameblk w =
     (if opts \<noteq> 0 then Done (ENOSYS, set_errno me ENOSYS w)
      else if task = NULL then finish me S_objLib_OBJ_ID_ERROR w
      else
        let (t, error) = init_tcb w task name pri opts funcptr args nameblk;
            w1 = w\<lparr>tasks := (tasks w)(task \<mapsto> t)\<rparr>;
            w2 = (if error = OK then w1\<lparr>task_list := task_list w1 @ [task]\<rparr> else w1)
        in finish me error w2)"

definition taskActivate :: "pthread \<Rightarrow> int \<Rightarrow> int \<Rightarrow> pthread \<Rightarrow> world \<Rightarrow> (int \<times> world) outcome" where
  "taskActivate me tid rc thr w =
     obind (taskLock me w) (\<lambda>w1.
       let task = task_for me tid w1 in
       if task = NULL then finish me S_objLib_OBJ_ID_ERROR (taskUnlock me w1)
       else if state (tcb w1 task) = DEAD then
         let w2 = upd_task task (\<lambda>t. t\<lparr>state := READY, pthrid := 0\<rparr>) w1 in
         if rc \<noteq> 0
         then finish me S_memLib_NOT_ENOUGH_MEMORY (taskUnlock me (task_delete task w2))
         else finish me OK (taskUnlock me
           ((upd_task task (\<lambda>t. t\<lparr>pthrid := thr\<rparr>) w2)
              \<lparr>threads := insert thr (threads w2),
               thr_sched := (thr_sched w2)(thr := thr_sched w2 me)\<rparr>))
       else finish me OK (taskUnlock me w1))"

text \<open>\<open>sprintf(myname, "t%d", my_tid)\<close> for the positive identifiers \<^verbatim>\<open>new_tid\<close>
  returns.\<close>

fun dec_string :: "nat \<Rightarrow> string" where
  "dec_string n =
     (if n < 10 then [char_of (48 + n)] else dec_string (n div 10) @ [char_of (48 + n mod 10)])"

declare dec_string.simps [simp del]

definition default_name :: "int \<Rightarrow> string" where
  "default_name tid = CHR ''t'' # dec_string (nat tid)"

definition taskSpawn ::
  "pthread \<Rightarrow> string option \<Rightarrow> int \<Rightarrow> int \<Rightarrow> addr \<Rightarrow> int list \<Rightarrow> addr \<Rightarrow> addr \<Rightarrow> int \<Rightarrow> pthread \<Rightarrow> world
     \<Rightarrow> (int \<times> world) outcome" where
  "taskSpawn me name pri opts funcptr args blk nameblk rc thr w =
     (if blk = NULL then Crashed
      else
        let w0 = w\<lparr>tasks := (tasks w)(blk \<mapsto> zero_task)\<rparr>;
            my_tid = new_tid w0;
            name' = (case name of None \<Rightarrow> Some (default_name my_tid) | Some n \<Rightarrow> Some n)
        in obind (taskInit me blk name' pri opts funcptr args nameblk w0) (\<lambda>(error, w1).
             let w2 = (if error \<noteq> OK then w1\<lparr>tasks := (tasks w1)(blk := None)\<rparr>
                       else upd_task blk (\<lambda>t. t\<lparr>taskid := my_tid, static_task := False\<rparr>) w1)
             in obind (taskActivate me my_tid rc thr w2) (\<lambda>(error', w3).
                  if error' \<noteq> OK then Done (error', set_errno me error' w3)
                  else Done (my_tid, w3))))"


section \<open>Priorities\<close>

definition taskPriorityGet :: "pthread \<Rightarrow> int \<Rightarrow> world \<Rightarrow> (int \<times> int option \<times> world) outcome" where
  "taskPriorityGet me tid w =
     obind (taskLock me w) (\<lambda>w1.
       let task = task_for me tid w1;
           w2 = taskUnlock me w1
       in if task \<noteq> NULL then Done (OK, Some (vxw_priority (tcb w1 task)), w2)
          else Done (ERROR, None, set_errno me S_objLib_OBJ_ID_ERROR w2))"

definition taskPrioritySet :: "pthread \<Rightarrow> int \<Rightarrow> int \<Rightarrow> world \<Rightarrow> (int \<times> world) outcome" where
  "taskPrioritySet me tid pri w =
     obind (taskLock me w) (\<lambda>w1.
       let task = task_for me tid w1 in
       if task = NULL then finish me S_objLib_OBJ_ID_ERROR (taskUnlock me w1)
       else
         let (new_priority, error) = translate_priority w1 pri (attr_policy (tcb w1 task)) OK;
             w2 = upd_task task (\<lambda>t. t\<lparr>vxw_priority := pri, prv_priority := new_priority\<rparr>) w1;
             w3 = (if tid \<noteq> 0 \<and> task \<noteq> my_task me w2 then set_sched task new_priority w2 else w2)
         in finish me error (taskUnlock me w3))"


section \<open>Delays and queries\<close>

definition taskDelay_usecs :: "int \<Rightarrow> int" where
  "taskDelay_usecs interval = u32 (s32 (s32 (interval * V2PT_TICK) * 1000))"

definition taskDelay_begin :: "pthread \<Rightarrow> world \<Rightarrow> world" where
  "taskDelay_begin me w =
     (let task = my_task me w in
      if task \<noteq> NULL then upd_task task (\<lambda>t. t\<lparr>state := state t OR DELAY\<rparr>) w else w)"

definition taskDelay_end :: "addr \<Rightarrow> world \<Rightarrow> world" where
  "taskDelay_end task w =
     (if task \<noteq> NULL then upd_task task (\<lambda>t. t\<lparr>state := state t AND NOT DELAY\<rparr>) w else w)"

definition taskIdListGet :: "pthread \<Rightarrow> int \<Rightarrow> world \<Rightarrow> (int list \<times> world) outcome" where
  "taskIdListGet me maxIds w =
     obind (taskLock me w) (\<lambda>w1.
       Done (map (\<lambda>t. taskid (tcb w1 t)) (take (nat maxIds) (task_list w1)), taskUnlock me w1))"

definition taskIdSelf :: "pthread \<Rightarrow> world \<Rightarrow> int" where
  "taskIdSelf me w = (if my_task me w \<noteq> NULL then taskid (tcb w (my_task me w)) else 0)"

definition taskIdVerify :: "pthread \<Rightarrow> int \<Rightarrow> world \<Rightarrow> (int \<times> world) outcome" where
  "taskIdVerify me tid w =
     finish me (if task_for me tid w \<noteq> NULL then OK else S_objLib_OBJ_ID_ERROR) w"

definition taskIsReady :: "pthread \<Rightarrow> int \<Rightarrow> world \<Rightarrow> bool" where
  "taskIsReady me tid w =
     (let task = task_for me tid w
      in task \<noteq> NULL \<and> state (tcb w task) AND RDY_MSK = READY)"

definition taskIsSuspended :: "pthread \<Rightarrow> int \<Rightarrow> world \<Rightarrow> int \<times> world" where
  "taskIsSuspended me tid w = (0, set_errno me ENOSYS w)"

definition taskSuspend :: "pthread \<Rightarrow> int \<Rightarrow> world \<Rightarrow> int \<times> world" where
  "taskSuspend me tid w = (ENOSYS, set_errno me ENOSYS w)"

definition taskResume :: "pthread \<Rightarrow> int \<Rightarrow> world \<Rightarrow> int \<times> world" where
  "taskResume me tid w = (ENOSYS, set_errno me ENOSYS w)"

definition taskName :: "pthread \<Rightarrow> int \<Rightarrow> world \<Rightarrow> string option" where
  "taskName me tid w =
     (let t = task_for me tid w in if t \<noteq> NULL then taskname (tcb w t) else Some ''NULLTASK'')"

text \<open>\<^verbatim>\<open>taskNameToId\<close> compares with \<open>strcmp\<close>, which dereferences the name of every
  task it passes.\<close>

fun name_scan :: "world \<Rightarrow> string \<Rightarrow> addr list \<Rightarrow> int outcome" where
  "name_scan w name [] = Done ERROR"
| "name_scan w name (t # ts) =
     (case taskname (tcb w t) of
        None \<Rightarrow> Crashed
      | Some n \<Rightarrow> if name = n then Done (taskid (tcb w t)) else name_scan w name ts)"

definition taskNameToId :: "string option \<Rightarrow> world \<Rightarrow> int outcome" where
  "taskNameToId name w =
     (case name of None \<Rightarrow> Done ERROR | Some n \<Rightarrow> name_scan w n (task_list w))"

definition taskTcb :: "pthread \<Rightarrow> int \<Rightarrow> world \<Rightarrow> addr" where
  "taskTcb me tid w = task_for me tid w"

text \<open>\<^verbatim>\<open>task_wrapper_cleanup\<close>, run when a thread is cancelled or exits inside its task.\<close>

definition task_wrapper_cleanup :: "pthread \<Rightarrow> world \<Rightarrow> world" where
  "task_wrapper_cleanup me w =
     (if locker w = me then w\<lparr>taskLock_level := 0, locker := 0\<rparr> else w)"

text \<open>\<^verbatim>\<open>task_wrapper\<close>, which runs in the new thread, until it calls the entry point of the
  task: it waits until \<^verbatim>\<open>taskActivate\<close> has stored the identifier of the thread, which it
  looks for again every 5 milliseconds.\<close>

datatype wrapper = Waits | Calls addr "int list"

definition task_wrapper_poll :: "addr \<Rightarrow> world \<Rightarrow> wrapper" where
  "task_wrapper_poll task w =
     (if pthrid (tcb w task) = 0 then Waits else Calls (entry_point (tcb w task)) (parms (tcb w task)))"

definition task_wrapper_begin :: "pthread \<Rightarrow> addr \<Rightarrow> world \<Rightarrow> wrapper \<times> world" where
  "task_wrapper_begin me task w = (let w1 = set_errno me 0 w in (task_wrapper_poll task w1, w1))"

text \<open>What \<^verbatim>\<open>task_wrapper\<close> does after the entry point of the task has returned.\<close>

definition task_wrapper_end :: "pthread \<Rightarrow> addr \<Rightarrow> world \<Rightarrow> (int call \<times> world) outcome" where
  "task_wrapper_end me task w =
     (let w1 = task_wrapper_cleanup me w in
      if tasks w1 task = None then Crashed
      else taskDeleteForce me (taskid (tcb w1 task)) w1)"


section \<open>Lemmas: the invariant of the task list\<close>

lemma case_call_Done [outcome_simps]:
  "(case r of Ret x \<Rightarrow> f x | Parked \<Rightarrow> g) = Done y \<longleftrightarrow>
     (\<exists>x. r = Ret x \<and> f x = Done y) \<or> (r = Parked \<and> g = Done y)"
  by (cases r) auto

text \<open>Fields of the control blocks that locking leaves alone.\<close>

lemma taskLock_fields:
  assumes "taskLock me w = Done w'"
  shows "taskid (tcb w' a) = taskid (tcb w a)" "taskname (tcb w' a) = taskname (tcb w a)"
    "pthrid (tcb w' a) = pthrid (tcb w a)" "attr_policy (tcb w' a) = attr_policy (tcb w a)"
    "prv_priority (tcb w' a) = prv_priority (tcb w a)" "state (tcb w' a) = state (tcb w a)"
    "static_task (tcb w' a) = static_task (tcb w a)" "waiting (tcb w' a) = waiting (tcb w a)"
    "vxw_priority (tcb w' a) = vxw_priority (tcb w a)"
    "delete_safe_count (tcb w' a) = delete_safe_count (tcb w a)"
    "t_first_susp (tcb w' a) = t_first_susp (tcb w a)"
  by (rule taskLock_field [OF assms]; simp)+

lemma taskUnlock_fields [simp]:
  "taskid (tcb (taskUnlock me w) a) = taskid (tcb w a)"
  "taskname (tcb (taskUnlock me w) a) = taskname (tcb w a)"
  "pthrid (tcb (taskUnlock me w) a) = pthrid (tcb w a)"
  "attr_policy (tcb (taskUnlock me w) a) = attr_policy (tcb w a)"
  "prv_priority (tcb (taskUnlock me w) a) = prv_priority (tcb w a)"
  "state (tcb (taskUnlock me w) a) = state (tcb w a)"
  "static_task (tcb (taskUnlock me w) a) = static_task (tcb w a)"
  "waiting (tcb (taskUnlock me w) a) = waiting (tcb w a)"
  "vxw_priority (tcb (taskUnlock me w) a) = vxw_priority (tcb w a)"
  "delete_safe_count (tcb (taskUnlock me w) a) = delete_safe_count (tcb w a)"
  "t_first_susp (tcb (taskUnlock me w) a) = t_first_susp (tcb w a)"
  by (rule taskUnlock_field; simp)+

text \<open>The invariant: the list holds distinct allocated control blocks, every thread
  recorded in one exists and belongs to one task only, and the scheduler is locked exactly
  when the nesting level is positive.\<close>

definition task_inv :: "world \<Rightarrow> bool" where
  "task_inv w \<longleftrightarrow> task_wf w \<and> lock_wf w
     \<and> (\<forall>t \<in> set (task_list w). pthrid (tcb w t) \<noteq> 0 \<longrightarrow> pthrid (tcb w t) \<in> threads w)
     \<and> (\<forall>t \<in> set (task_list w). \<forall>u \<in> set (task_list w).
          pthrid (tcb w t) = pthrid (tcb w u) \<longrightarrow> pthrid (tcb w t) \<noteq> 0 \<longrightarrow> t = u)"

named_theorems keeps_inv "operations that preserve the invariant of the task list"

lemma task_inv_cong:
  assumes "task_list w' = task_list w" and "dom (tasks w') = dom (tasks w)"
    and "\<And>t. pthrid (tcb w' t) = pthrid (tcb w t)" and "threads w' = threads w"
    and "lock_wf w' = lock_wf w"
  shows "task_inv w' = task_inv w"
  using assms by (simp add: task_inv_def task_wf_def)

lemma lock_wf_cong:
  "locker w' = locker w \<Longrightarrow> taskLock_level w' = taskLock_level w \<Longrightarrow> lock_wf w' = lock_wf w"
  by (simp add: lock_wf_def)

lemma task_inv_upd [simp]:
  "(\<And>x. pthrid (f x) = pthrid x) \<Longrightarrow> task_inv (upd_task a f w) = task_inv w"
  "task_inv (upd_sem s g w) = task_inv w"
  "task_inv (upd_queue q h w) = task_inv w"
  "task_inv (set_errno me e w) = task_inv w"
  by (intro task_inv_cong lock_wf_cong; simp add: tcb_upd_field)+

lemma task_inv_thr_sched [simp]: "task_inv (w\<lparr>thr_sched := ts\<rparr>) = task_inv w"
  by (intro task_inv_cong lock_wf_cong) simp_all

lemma task_inv_set_susp [simp]: "task_inv (set_susp h xs w) = task_inv w"
  by (cases h) simp_all

lemma task_inv_susp [simp]:
  "task_inv (link_susp_task h t w) = task_inv w" "task_inv (unlink_susp_task h t w) = task_inv w"
  by (simp_all add: link_susp_task_def unlink_susp_task_def)

lemma taskUnlock_lock_wf: "me \<noteq> 0 \<Longrightarrow> lock_wf w \<Longrightarrow> lock_wf (taskUnlock me w)"
  by (cases "locker w = me")
    (auto simp: lock_wf_def taskUnlock_other taskUnlock_level dest: taskUnlock_level)

lemma task_inv_taskLock [keeps_inv]:
  assumes "taskLock me w = Done w'" and "task_inv w" and "me \<noteq> 0"
  shows "task_inv w'"
proof -
  have "lock_wf w'" using assms by (simp add: lock_wf_def taskLock_frame)
  moreover have "lock_wf w" using assms(2) by (simp add: task_inv_def)
  ultimately have "task_inv w' = task_inv w"
    using assms(1) by (intro task_inv_cong) (simp_all add: taskLock_frame taskLock_fields)
  with assms(2) show ?thesis by simp
qed

lemma task_inv_taskUnlock [keeps_inv]: "task_inv w \<Longrightarrow> me \<noteq> 0 \<Longrightarrow> task_inv (taskUnlock me w)"
proof -
  assume i: "task_inv w" and me: "me \<noteq> 0"
  then have "lock_wf (taskUnlock me w) = lock_wf w"
    by (simp add: taskUnlock_lock_wf task_inv_def)
  then have "task_inv (taskUnlock me w) = task_inv w"
    by (intro task_inv_cong) simp_all
  with i show ?thesis by simp
qed

lemma finish_Done:
  "finish me e w = Done (r, w') \<longleftrightarrow>
     (e = OK \<and> r = OK \<and> w' = w) \<or> (e \<noteq> OK \<and> r = ERROR \<and> w' = set_errno me e w)"
  by (auto simp: finish_def)

lemma ret_status_Done:
  "ret_status me e w = Done (r, w') \<longleftrightarrow>
     (e = OK \<and> r = Ret OK \<and> w' = w) \<or> (e \<noteq> OK \<and> r = Ret ERROR \<and> w' = set_errno me e w)"
  by (auto simp: ret_status_def finish_def)

lemma task_inv_finish [keeps_inv]:
  "finish me e w = Done (r, w') \<Longrightarrow> task_inv w \<Longrightarrow> task_inv w'"
  "ret_status me e w = Done (c, w') \<Longrightarrow> task_inv w \<Longrightarrow> task_inv w'"
  by (auto simp: finish_Done ret_status_Done)

text \<open>Deletion of a control block.\<close>

lemma link_susp_frame [frame, simp]:
  "task_list (link_susp_task h t w) = task_list w"
  "threads (link_susp_task h t w) = threads w"
  "locker (link_susp_task h t w) = locker w"
  "taskLock_level (link_susp_task h t w) = taskLock_level w"
  "errno (link_susp_task h t w) = errno w"
  "dom (tasks (link_susp_task h t w)) = dom (tasks w)"
  "sem_list (link_susp_task h t w) = sem_list w"
  "mqueue_list (link_susp_task h t w) = mqueue_list w"
  "dom (sems (link_susp_task h t w)) = dom (sems w)"
  "dom (queues (link_susp_task h t w)) = dom (queues w)"
  by (cases h; simp add: link_susp_task_def del: domIff)+

lemma unlink_susp_frame [frame, simp]:
  "task_list (unlink_susp_task h t w) = task_list w"
  "threads (unlink_susp_task h t w) = threads w"
  "locker (unlink_susp_task h t w) = locker w"
  "taskLock_level (unlink_susp_task h t w) = taskLock_level w"
  "errno (unlink_susp_task h t w) = errno w"
  "dom (tasks (unlink_susp_task h t w)) = dom (tasks w)"
  "sem_list (unlink_susp_task h t w) = sem_list w"
  "mqueue_list (unlink_susp_task h t w) = mqueue_list w"
  "dom (sems (unlink_susp_task h t w)) = dom (sems w)"
  "dom (queues (unlink_susp_task h t w)) = dom (queues w)"
  by (cases h; simp add: unlink_susp_task_def del: domIff)+

lemma tcb_set_susp_field:
  "(\<And>x xs. F (x\<lparr>t_first_susp := xs\<rparr>) = F x) \<Longrightarrow> F (tcb (set_susp h xs w) a) = F (tcb w a)"
  by (cases h) (simp_all add: tcb_upd_field)

lemma tcb_susp_field:
  assumes "\<And>x v. F (x\<lparr>state := v\<rparr>) = F x" and "\<And>x xs. F (x\<lparr>t_first_susp := xs\<rparr>) = F x"
  shows "F (tcb (link_susp_task h t w) a) = F (tcb w a)"
    and "F (tcb (unlink_susp_task h t w) a) = F (tcb w a)"
  using assms
  by (simp_all add: link_susp_task_def unlink_susp_task_def tcb_upd_field tcb_set_susp_field)

text \<open>The list left, the blocks left, and every other control block untouched by its
  fields other than the state.\<close>

lemma task_delete_frame [simp]:
  "task_list (task_delete t w) = remove1 t (task_list w)"
  "threads (task_delete t w) = threads w"
  "locker (task_delete t w) = locker w"
  "taskLock_level (task_delete t w) = taskLock_level w"
  "errno (task_delete t w) = errno w"
  by (simp_all add: task_delete_def Let_def)

lemma dom_task_delete: "dom (tasks w) - {t} \<subseteq> dom (tasks (task_delete t w))"
  unfolding task_delete_def Let_def by (simp del: domIff)

lemma tcb_free_other: "a \<noteq> t \<Longrightarrow> tcb (w\<lparr>tasks := (tasks w)(t := None)\<rparr>) a = tcb w a"
  by (simp add: tcb_def)

lemma tcb_list_frame [simp]: "tcb (w\<lparr>task_list := ts\<rparr>) = tcb w" "tcb (w\<lparr>threads := th\<rparr>) = tcb w"
  by (simp_all add: tcb_def fun_eq_iff)

lemma tcb_free_list_other:
  "a \<noteq> t \<Longrightarrow> tcb (w\<lparr>task_list := ts, tasks := (tasks w)(t := None)\<rparr>) a = tcb w a"
  by (simp add: tcb_def)

lemma pthrid_task_delete: "a \<noteq> t \<Longrightarrow> pthrid (tcb (task_delete t w) a) = pthrid (tcb w a)"
  by (simp add: task_delete_def Let_def tcb_free_list_other tcb_susp_field)

lemma taskid_task_delete: "a \<noteq> t \<Longrightarrow> taskid (tcb (task_delete t w) a) = taskid (tcb w a)"
  by (simp add: task_delete_def Let_def tcb_free_list_other tcb_susp_field)

lemma task_inv_shrink:
  assumes "task_inv w" and "task_list w' = remove1 t (task_list w)"
    and "dom (tasks w) - {t} \<subseteq> dom (tasks w')"
    and "\<And>a. a \<noteq> t \<Longrightarrow> pthrid (tcb w' a) = pthrid (tcb w a)"
    and "threads w - {pthrid (tcb w t)} \<subseteq> threads w'" and "lock_wf w'"
    and "t \<in> set (task_list w) \<or> threads w \<subseteq> threads w'"
  shows "task_inv w'"
proof -
  have d: "distinct (task_list w)" and n0: "NULL \<notin> set (task_list w)"
    and sub: "set (task_list w) \<subseteq> dom (tasks w)"
    and thr: "\<And>a. a \<in> set (task_list w) \<Longrightarrow> pthrid (tcb w a) \<noteq> 0 \<Longrightarrow> pthrid (tcb w a) \<in> threads w"
    and inj: "\<And>a b. a \<in> set (task_list w) \<Longrightarrow> b \<in> set (task_list w) \<Longrightarrow>
                pthrid (tcb w a) = pthrid (tcb w b) \<Longrightarrow> pthrid (tcb w a) \<noteq> 0 \<Longrightarrow> a = b"
    using assms(1) by (auto simp: task_inv_def task_wf_def)
  have set': "set (task_list w') = set (task_list w) - {t}" using d assms(2) by simp
  have eq: "pthrid (tcb w' a) = pthrid (tcb w a)" if "a \<in> set (task_list w')" for a
    using that set' assms(4) by simp
  have "task_wf w'"
    using d n0 sub set' assms(2,3) by (auto simp: task_wf_def)
  moreover have "pthrid (tcb w' a) \<in> threads w'"
    if a: "a \<in> set (task_list w')" and nz: "pthrid (tcb w' a) \<noteq> 0" for a
  proof -
    from a set' have a': "a \<in> set (task_list w)" "a \<noteq> t" by auto
    have "pthrid (tcb w a) \<in> threads w" using thr a' eq [OF a] nz by simp
    moreover have "pthrid (tcb w a) \<noteq> pthrid (tcb w t)" if "t \<in> set (task_list w)"
      using inj [OF a'(1) that] a'(2) eq [OF a] nz by auto
    ultimately show ?thesis using assms(5,7) eq [OF a] by auto
  qed
  moreover have "a = b" if "a \<in> set (task_list w')" "b \<in> set (task_list w')"
    "pthrid (tcb w' a) = pthrid (tcb w' b)" "pthrid (tcb w' a) \<noteq> 0" for a b
    using that eq set' inj [of a b] by auto
  ultimately show ?thesis using assms(6) by (auto simp: task_inv_def)
qed

lemma task_inv_task_delete [keeps_inv]: "task_inv w \<Longrightarrow> task_inv (task_delete t w)"
  by (rule task_inv_shrink [where t = t])
    (use dom_task_delete pthrid_task_delete in \<open>auto simp: task_inv_def lock_wf_def\<close>)

lemma task_inv_cancel_delete [keeps_inv]:
  assumes "task_inv w" and "t \<in> set (task_list w)" and "cancel_join t w = Done w'"
  shows "task_inv (task_delete t w')"
proof -
  from assms(3) have w': "w' = w\<lparr>threads := threads w - {pthrid (tcb w t)}\<rparr>"
    by (simp add: cancel_join_def split: if_split_asm)
  show ?thesis
  proof (rule task_inv_shrink [OF assms(1), where t = t])
    show "dom (tasks w) - {t} \<subseteq> dom (tasks (task_delete t w'))"
      using dom_task_delete [of w' t] by (simp add: w')
    show "pthrid (tcb (task_delete t w') a) = pthrid (tcb w a)" if "a \<noteq> t" for a
      using pthrid_task_delete [OF that, of w'] by (simp add: w')
  qed (use assms(1,2) in \<open>auto simp: w' task_inv_def lock_wf_def\<close>)
qed

text \<open>Every operation of the task API preserves the invariant.\<close>

lemma task_inv_taskSafe [keeps_inv]:
  "taskSafe me w = Done (r, w') \<Longrightarrow> task_inv w \<Longrightarrow> me \<noteq> 0 \<Longrightarrow> task_inv w'"
  by (auto simp: taskSafe_def obind_Done_iff Let_def split: if_split_asm
      intro!: task_inv_taskUnlock dest: task_inv_taskLock)

lemma task_inv_taskUnsafe [keeps_inv]:
  "taskUnsafe me w = Done (r, w') \<Longrightarrow> task_inv w \<Longrightarrow> me \<noteq> 0 \<Longrightarrow> task_inv w'"
  by (auto simp: taskUnsafe_def obind_Done_iff case_call_Done Let_def split: if_split_asm
      intro!: task_inv_taskUnlock dest: task_inv_taskLock)

lemma task_inv_taskDeleteForce [keeps_inv]:
  assumes "taskDeleteForce me tid w = Done (r, w')" and "task_inv w" and me: "me \<noteq> 0"
  shows "task_inv w'"
proof -
  obtain w1 where w1: "taskLock me w = Done w1"
    using assms(1) by (auto simp: taskDeleteForce_def obind_Done_iff Let_def)
  have i1: "task_inv w1" using w1 assms(2) me by (rule task_inv_taskLock)
  let ?t = "task_for me tid w1"
  consider "ret_status me S_objLib_OBJ_DELETED (taskUnlock me w1) = Done (r, w')"
    | "w' = w1"
    | w2 where "?t \<noteq> NULL" "cancel_join ?t w1 = Done w2"
        "ret_status me OK (taskUnlock me (task_delete ?t w2)) = Done (r, w')"
    | "ret_status me OK (taskUnlock me (task_delete_unlock me (my_task me w) w1)) = Done (r, w')"
    using assms(1) w1
    by (auto simp: taskDeleteForce_def outcome_simps Let_def split: if_split_asm)
  then show ?thesis
  proof cases
    case 1
    then show ?thesis by (rule task_inv_finish(2)) (rule task_inv_taskUnlock [OF i1 me])
  next
    case 2
    then show ?thesis using i1 by simp
  next
    case 3
    have "task_inv (task_delete ?t w2)"
      using i1 task_for_in [OF 3(1)] 3(2) by (rule task_inv_cancel_delete)
    then show ?thesis by (intro task_inv_finish(2) [OF 3(3)] task_inv_taskUnlock me)
  next
    case 4
    then show ?thesis
      by (rule task_inv_finish(2))
        (simp add: task_delete_unlock_def task_inv_taskUnlock task_inv_task_delete i1 me)
  qed
qed

lemma task_inv_taskDelete [keeps_inv]:
  assumes "taskDelete me tid w = Done (r, w')" and "task_inv w" and me: "me \<noteq> 0"
  shows "task_inv w'"
proof -
  obtain w1 where w1: "taskLock me w = Done w1"
    using assms(1) by (auto simp: taskDelete_def obind_Done_iff Let_def)
  have i1: "task_inv w1" using w1 assms(2) me by (rule task_inv_taskLock)
  consider e where "ret_status me e (taskUnlock me w1) = Done (r, w')"
    | w2 where "taskDeleteForce me tid w1 = Done (Parked, w2)" "w' = w2"
    | e w2 where "taskDeleteForce me tid w1 = Done (Ret e, w2)"
        "ret_status me e (taskUnlock me w2) = Done (r, w')"
    | t where "w' = task_pend_delete me (my_task me w) t w1"
    using assms(1) w1
    by (auto simp: taskDelete_def outcome_simps Let_def split: if_split_asm)
  then show ?thesis
  proof cases
    case 1
    then show ?thesis by (rule task_inv_finish(2)) (rule task_inv_taskUnlock [OF i1 me])
  next
    case 2
    then show ?thesis using task_inv_taskDeleteForce [OF 2(1) i1 me] by simp
  next
    case 3
    from task_inv_taskDeleteForce [OF 3(1) i1 me] have "task_inv (taskUnlock me w2)"
      using me by (rule task_inv_taskUnlock)
    with 3(2) show ?thesis by (rule task_inv_finish(2))
  next
    case 4
    then show ?thesis by (simp add: task_pend_delete_def task_inv_taskUnlock i1 me)
  qed
qed

lemma task_inv_taskDelete_resume [keeps_inv]:
  "taskDelete_resume me self t w = Done (r, w') \<Longrightarrow> task_inv w \<Longrightarrow> me \<noteq> 0 \<Longrightarrow> task_inv w'"
  by (auto simp: taskDelete_resume_def task_pend_delete_resume_def obind_Done_iff ret_status_Done
          case_call_Done
        split: if_split_asm
      intro!: task_inv_taskUnlock dest: task_inv_taskLock)

lemma task_inv_taskPrioritySet [keeps_inv]:
  "taskPrioritySet me tid pri w = Done (r, w') \<Longrightarrow> task_inv w \<Longrightarrow> me \<noteq> 0 \<Longrightarrow> task_inv w'"
  by (auto simp: taskPrioritySet_def obind_Done_iff Let_def set_sched_def
        split: if_split_asm prod.split_asm
      intro!: task_inv_taskUnlock dest: task_inv_taskLock
      elim!: task_inv_finish(1))

lemma tcb_poke_other: "b \<noteq> a \<Longrightarrow> tcb (w\<lparr>tasks := (tasks w)(a := x)\<rparr>) b = tcb w b"
  by (simp add: tcb_def)

lemma task_inv_poke:
  assumes "task_inv w" and "a \<notin> set (task_list w)"
  shows "task_inv (w\<lparr>tasks := (tasks w)(a := x)\<rparr>)"
proof -
  have same: "tcb (w\<lparr>tasks := (tasks w)(a := x)\<rparr>) b = tcb w b" if "b \<in> set (task_list w)" for b
    using that assms(2) by (intro tcb_poke_other) auto
  have "task_wf (w\<lparr>tasks := (tasks w)(a := x)\<rparr>)"
    using assms by (auto simp: task_inv_def task_wf_def split: if_split_asm)
  with assms(1) show ?thesis by (simp add: task_inv_def lock_wf_def same cong: ball_cong)
qed

lemma task_inv_append:
  "task_inv w \<Longrightarrow> a \<notin> set (task_list w) \<Longrightarrow> a \<noteq> NULL \<Longrightarrow> a \<in> dom (tasks w) \<Longrightarrow>
     pthrid (tcb w a) = 0 \<Longrightarrow> task_inv (w\<lparr>task_list := task_list w @ [a]\<rparr>)"
  by (auto simp: task_inv_def task_wf_def lock_wf_def)

lemma init_tcb_pthrid: "pthrid (fst (init_tcb w a name pri opts f args nb)) = 0"
  by (simp add: init_tcb_def Let_def split: prod.split)

text \<open>What \<^verbatim>\<open>taskInit\<close> leaves behind.\<close>

lemma taskInit_cases:
  assumes "taskInit me a name pri opts f args nb w = Done (r, w')"
  obtains "opts \<noteq> 0" "r = ENOSYS" "w' = set_errno me ENOSYS w"
    | "a = NULL" "r = ERROR" "w' = set_errno me S_objLib_OBJ_ID_ERROR w"
    | t e where "opts = 0" "a \<noteq> NULL" "init_tcb w a name pri opts f args nb = (t, e)" "e \<noteq> OK"
        "r = ERROR" "w' = set_errno me e (w\<lparr>tasks := (tasks w)(a \<mapsto> t)\<rparr>)"
    | t where "opts = 0" "a \<noteq> NULL" "init_tcb w a name pri opts f args nb = (t, OK)"
        "r = OK" "w' = w\<lparr>tasks := (tasks w)(a \<mapsto> t), task_list := task_list w @ [a]\<rparr>"
  using assms
  by (auto simp: taskInit_def finish_Done vxw_codes Let_def split: if_split_asm prod.split_asm)

lemma task_inv_taskInit [keeps_inv]:
  assumes "taskInit me a name pri opts f args nb w = Done (r, w')" and i: "task_inv w"
    and a: "a \<notin> set (task_list w)"
  shows "task_inv w'"
  using assms(1)
proof (cases rule: taskInit_cases)
  case (4 t)
  let ?w = "w\<lparr>tasks := (tasks w)(a \<mapsto> t)\<rparr>"
  have "pthrid t = 0" using init_tcb_pthrid [of w a name pri opts f args nb] 4 by simp
  then have "task_inv (?w\<lparr>task_list := task_list ?w @ [a]\<rparr>)"
    using task_inv_poke [OF i a, of "Some t"] a 4(2) by (intro task_inv_append) (auto simp: tcb_def)
  with 4 show ?thesis by simp
qed (use task_inv_poke [OF i a] i in simp_all)

text \<open>What \<^verbatim>\<open>taskActivate\<close> does once the scheduler is locked.\<close>

lemma taskActivate_cases:
  assumes "taskActivate me tid rc thr w = Done (r, w')"
  obtains w1 where "taskLock me w = Done w1" "task_for me tid w1 = NULL" "r = ERROR"
      "w' = set_errno me S_objLib_OBJ_ID_ERROR (taskUnlock me w1)"
    | w1 where "taskLock me w = Done w1" "task_for me tid w1 \<noteq> NULL" "r = OK"
      "state (tcb w1 (task_for me tid w1)) \<noteq> DEAD" "w' = taskUnlock me w1"
    | w1 where "taskLock me w = Done w1" "task_for me tid w1 \<noteq> NULL" "r = ERROR" "rc \<noteq> 0"
      "w' = set_errno me S_memLib_NOT_ENOUGH_MEMORY (taskUnlock me (task_delete (task_for me tid w1)
              (upd_task (task_for me tid w1) (\<lambda>t. t\<lparr>state := READY, pthrid := 0\<rparr>) w1)))"
    | w1 w2 where "taskLock me w = Done w1" "task_for me tid w1 \<noteq> NULL" "r = OK" "rc = 0"
      "state (tcb w1 (task_for me tid w1)) = DEAD"
      "w2 = upd_task (task_for me tid w1) (\<lambda>t. t\<lparr>state := READY, pthrid := 0\<rparr>) w1"
      "w' = taskUnlock me ((upd_task (task_for me tid w1) (\<lambda>t. t\<lparr>pthrid := thr\<rparr>) w2)
              \<lparr>threads := insert thr (threads w2),
               thr_sched := (thr_sched w2)(thr := thr_sched w2 me)\<rparr>)"
  using assms
  by (auto simp: taskActivate_def finish_Done obind_Done_iff Let_def vxw_codes split: if_split_asm)

lemma pthrid_upd: "pthrid (tcb (upd_task a f w) b) =
    (if b = a \<and> a \<in> dom (tasks w) then pthrid (f (tcb w a)) else pthrid (tcb w b))"
  by (auto simp: tcb_def upd_task_def split: option.splits)

lemma task_inv_set_thread:
  assumes "task_inv w" and "a \<in> set (task_list w)"
    and "thr = 0 \<or> thr \<notin> threads w" and "threads w' = threads w \<union> (if thr = 0 then {} else {thr})"
    and "tasks w' = tasks (upd_task a f w)" and "\<And>x. pthrid (f x) = thr"
    and "task_list w' = task_list w" and "lock_wf w'"
  shows "task_inv w'"
proof -
  have a: "a \<in> dom (tasks w)" using assms(1,2) by (auto simp: task_inv_def task_wf_def)
  have p: "pthrid (tcb w' b) = (if b = a then thr else pthrid (tcb w b))" for b
    using a tcb_cong [OF assms(5)] by (auto simp: pthrid_upd assms(6))
  have thr: "pthrid (tcb w b) \<in> threads w" if "b \<in> set (task_list w)" "pthrid (tcb w b) \<noteq> 0" for b
    using assms(1) that by (simp add: task_inv_def)
  have "task_wf w'" using assms by (simp add: task_inv_def task_wf_def del: domIff)
  moreover have "b = c" if "b \<in> set (task_list w)" "c \<in> set (task_list w)"
    "pthrid (tcb w' b) = pthrid (tcb w' c)" "pthrid (tcb w' b) \<noteq> 0" for b c
  proof (cases "pthrid (tcb w' b) = thr")
    case True
    with that assms(3) have fresh: "thr \<notin> threads w" by simp
    have "x = a" if "x \<in> set (task_list w)" "pthrid (tcb w' x) = thr" for x
      using that p [of x] thr [of x] fresh True \<open>pthrid (tcb w' b) \<noteq> 0\<close> by (auto split: if_split_asm)
    with True that show ?thesis by metis
  next
    case False
    with that(3) p have "b \<noteq> a" "c \<noteq> a" by auto
    with that p have "pthrid (tcb w b) = pthrid (tcb w c)" "pthrid (tcb w b) \<noteq> 0" by auto
    with that(1,2) assms(1) show ?thesis by (simp add: task_inv_def)
  qed
  moreover have "pthrid (tcb w' b) \<in> threads w'"
    if "b \<in> set (task_list w)" "pthrid (tcb w' b) \<noteq> 0" for b
    using that p thr assms(4) by (cases "b = a") auto
  ultimately show ?thesis
    unfolding task_inv_def assms(7) using assms(8) by blast
qed

lemma task_inv_taskActivate [keeps_inv]:
  assumes "taskActivate me tid rc thr w = Done (r, w')" and i: "task_inv w" and me: "me \<noteq> 0"
    and thr: "thr \<noteq> 0" "thr \<notin> threads w"
  shows "task_inv w'"
  using assms(1)
proof (cases rule: taskActivate_cases)
  case (1 w1)
  then show ?thesis using task_inv_taskUnlock [OF task_inv_taskLock [OF 1(1) i me] me] by simp
next
  case (2 w1)
  then show ?thesis using task_inv_taskUnlock [OF task_inv_taskLock [OF 2(1) i me] me] by simp
next
  case (3 w1)
  have i1: "task_inv w1" using 3(1) i me by (rule task_inv_taskLock)
  have "task_inv (upd_task (task_for me tid w1) (\<lambda>t. t\<lparr>state := READY, pthrid := 0\<rparr>) w1)"
    using i1 task_for_in [OF 3(2)]
    by (rule task_inv_set_thread [where thr = 0 and f = "\<lambda>t. t\<lparr>state := READY, pthrid := 0\<rparr>"])
      (use i1 in \<open>simp_all add: task_inv_def lock_wf_def\<close>)
  with 3 me show ?thesis by (simp add: task_inv_taskUnlock task_inv_task_delete)
next
  case (4 w1 w2)
  have i1: "task_inv w1" using 4(1) i me by (rule task_inv_taskLock)
  let ?t = "task_for me tid w1"
  let ?w = "(upd_task ?t (\<lambda>t. t\<lparr>pthrid := thr\<rparr>) w2)
    \<lparr>threads := insert thr (threads w2), thr_sched := (thr_sched w2)(thr := thr_sched w2 me)\<rparr>"
  have i2: "task_inv w2"
    using i1 task_for_in [OF 4(2)]
    by (rule task_inv_set_thread [where thr = 0 and f = "\<lambda>t. t\<lparr>state := READY, pthrid := 0\<rparr>"])
      (use i1 4(6) in \<open>simp_all add: task_inv_def lock_wf_def\<close>)
  have "task_inv ?w"
  proof (rule task_inv_set_thread [OF i2])
    show "?t \<in> set (task_list w2)" using task_for_in [OF 4(2)] by (simp add: 4(6))
    show "thr = 0 \<or> thr \<notin> threads w2" using thr taskLock_frame [OF 4(1)] by (simp add: 4(6))
    show "lock_wf ?w" using i2 by (simp add: task_inv_def lock_wf_def)
  qed (use thr in auto)
  with 4(7) me show ?thesis by (simp add: task_inv_taskUnlock)
qed

text \<open>The two halves of \<^verbatim>\<open>taskSpawn\<close>, with the block it allocated and the identifier
  it chose.\<close>

lemma taskSpawn_Done:
  assumes "taskSpawn me name pri opts f args blk nb rc thr w = Done (r, w')"
  obtains nm e w1 w2 e' w3 where "blk \<noteq> NULL"
    "taskInit me blk nm pri opts f args nb (w\<lparr>tasks := (tasks w)(blk \<mapsto> zero_task)\<rparr>) = Done (e, w1)"
    "w2 = (if e \<noteq> OK then w1\<lparr>tasks := (tasks w1)(blk := None)\<rparr>
           else upd_task blk (\<lambda>t. t\<lparr>taskid := new_tid (w\<lparr>tasks := (tasks w)(blk \<mapsto> zero_task)\<rparr>),
                                   static_task := False\<rparr>) w1)"
    "taskActivate me (new_tid (w\<lparr>tasks := (tasks w)(blk \<mapsto> zero_task)\<rparr>)) rc thr w2 = Done (e', w3)"
    "w' = w3 \<or> w' = set_errno me e' w3"
proof -
  define w0 where "w0 = w\<lparr>tasks := (tasks w)(blk \<mapsto> zero_task)\<rparr>"
  define nm where "nm = (case name of None \<Rightarrow> Some (default_name (new_tid w0)) | Some n \<Rightarrow> Some n)"
  have "blk \<noteq> NULL" using assms by (auto simp: taskSpawn_def)
  have "obind (taskInit me blk nm pri opts f args nb w0) (\<lambda>(error, w1).
             let w2 = (if error \<noteq> OK then w1\<lparr>tasks := (tasks w1)(blk := None)\<rparr>
                       else upd_task blk (\<lambda>t. t\<lparr>taskid := new_tid w0, static_task := False\<rparr>) w1)
             in obind (taskActivate me (new_tid w0) rc thr w2) (\<lambda>(error', w3).
                  if error' \<noteq> OK then Done (error', set_errno me error' w3)
                  else Done (new_tid w0, w3))) = Done (r, w')"
    using assms \<open>blk \<noteq> NULL\<close> unfolding taskSpawn_def w0_def [symmetric] nm_def by (simp add: Let_def)
  then obtain e w1 where init: "taskInit me blk nm pri opts f args nb w0 = Done (e, w1)"
    and rest: "(let w2 = (if e \<noteq> OK then w1\<lparr>tasks := (tasks w1)(blk := None)\<rparr>
                       else upd_task blk (\<lambda>t. t\<lparr>taskid := new_tid w0, static_task := False\<rparr>) w1)
             in obind (taskActivate me (new_tid w0) rc thr w2) (\<lambda>(error', w3).
                  if error' \<noteq> OK then Done (error', set_errno me error' w3)
                  else Done (new_tid w0, w3))) = Done (r, w')"
    by (auto simp only: obind_Done_iff split: prod.split_asm)
  define w2 where "w2 = (if e \<noteq> OK then w1\<lparr>tasks := (tasks w1)(blk := None)\<rparr>
      else upd_task blk (\<lambda>t. t\<lparr>taskid := new_tid w0, static_task := False\<rparr>) w1)"
  from rest obtain e' w3 where "taskActivate me (new_tid w0) rc thr w2 = Done (e', w3)"
    "w' = w3 \<or> w' = set_errno me e' w3"
    unfolding w2_def [symmetric] Let_def
    by (auto simp: obind_Done_iff split: if_split_asm)
  then show ?thesis using \<open>blk \<noteq> NULL\<close> init w2_def that unfolding w0_def by blast
qed

lemma task_inv_taskSpawn [keeps_inv]:
  assumes "taskSpawn me name pri opts f args blk nb rc thr w = Done (r, w')"
    and i: "task_inv w" and me: "me \<noteq> 0" and blk: "blk \<notin> dom (tasks w)"
    and thr: "thr \<noteq> 0" "thr \<notin> threads w"
  shows "task_inv w'"
proof -
  have nin: "blk \<notin> set (task_list w)" using i blk by (auto simp: task_inv_def task_wf_def)
  define w0 where "w0 = w\<lparr>tasks := (tasks w)(blk \<mapsto> zero_task)\<rparr>"
  have i0: "task_inv w0" unfolding w0_def by (rule task_inv_poke [OF i nin])
  from assms(1) obtain nm e w1 w2 e' w3 where
    init: "taskInit me blk nm pri opts f args nb w0 = Done (e, w1)"
    and w2: "w2 = (if e \<noteq> OK then w1\<lparr>tasks := (tasks w1)(blk := None)\<rparr>
      else upd_task blk (\<lambda>t. t\<lparr>taskid := new_tid w0, static_task := False\<rparr>) w1)"
    and act: "taskActivate me (new_tid w0) rc thr w2 = Done (e', w3)"
    and w': "w' = w3 \<or> w' = set_errno me e' w3"
    by (elim taskSpawn_Done [of me name pri opts f args blk nb rc thr w r w', folded w0_def]) blast
  have i1: "task_inv w1" by (rule task_inv_taskInit [OF init i0]) (simp add: w0_def nin)
  have th: "threads w1 = threads w"
    using init by (cases rule: taskInit_cases) (simp_all add: w0_def)
  have nl: "blk \<notin> set (task_list w1)" if "e \<noteq> OK"
    using init that nin by (cases rule: taskInit_cases) (simp_all add: w0_def)
  have i2: "task_inv w2" unfolding w2 by (simp add: i1 task_inv_poke nl)
  have "threads w2 = threads w" unfolding w2 by (simp add: th)
  with task_inv_taskActivate [OF act i2 me thr(1)] thr(2) w' show ?thesis by auto
qed

lemma task_inv_cleanup [keeps_inv]: "task_inv w \<Longrightarrow> task_inv (task_wrapper_cleanup me w)"
  by (auto simp: task_wrapper_cleanup_def task_inv_def task_wf_def lock_wf_def)

lemma task_inv_wrapper_begin [keeps_inv]: "task_inv w \<Longrightarrow> task_inv (snd (task_wrapper_begin me t w))"
  by (simp add: task_wrapper_begin_def Let_def)

lemma task_inv_wrapper_end [keeps_inv]:
  "task_wrapper_end me t w = Done (r, w') \<Longrightarrow> task_inv w \<Longrightarrow> me \<noteq> 0 \<Longrightarrow> task_inv w'"
  by (auto simp: task_wrapper_end_def Let_def split: if_split_asm
      dest: task_inv_taskDeleteForce [OF _ task_inv_cleanup])

lemma task_inv_queries [keeps_inv]:
  "taskPriorityGet me tid w = Done (r, q, w') \<Longrightarrow> task_inv w \<Longrightarrow> me \<noteq> 0 \<Longrightarrow> task_inv w'"
  "taskIdListGet me n w = Done (ids, w') \<Longrightarrow> task_inv w \<Longrightarrow> me \<noteq> 0 \<Longrightarrow> task_inv w'"
  by (auto simp: taskPriorityGet_def taskIdListGet_def obind_Done_iff Let_def split: if_split_asm
      intro!: task_inv_taskUnlock dest: task_inv_taskLock)

lemma task_inv_taskDelay [keeps_inv]:
  "task_inv w \<Longrightarrow> task_inv (taskDelay_begin me w)" "task_inv w \<Longrightarrow> task_inv (taskDelay_end t w)"
  by (simp_all add: taskDelay_begin_def taskDelay_end_def Let_def)


section \<open>The task library as a transition system\<close>

text \<open>One step is one call of the task API by some thread, up to its return or its wait.
  The caller of \<^verbatim>\<open>taskInit\<close> passes a control block that is not in use, \<open>malloc\<close> returns
  an unused block, and \<open>pthread_create\<close> returns the identifier of a new thread.\<close>

inductive task_step :: "world \<Rightarrow> world \<Rightarrow> bool" where
  Lock: "me \<noteq> 0 \<Longrightarrow> taskLock me w = Done w' \<Longrightarrow> task_step w w'"
| Unlock: "me \<noteq> 0 \<Longrightarrow> task_step w (taskUnlock me w)"
| Safe: "me \<noteq> 0 \<Longrightarrow> taskSafe me w = Done (r, w') \<Longrightarrow> task_step w w'"
| Unsafe: "me \<noteq> 0 \<Longrightarrow> taskUnsafe me w = Done (c, w') \<Longrightarrow> task_step w w'"
| Init: "task \<notin> set (task_list w) \<Longrightarrow>
    taskInit me task name pri opts f args nb w = Done (r, w') \<Longrightarrow> task_step w w'"
| Activate: "me \<noteq> 0 \<Longrightarrow> thr \<noteq> 0 \<Longrightarrow> thr \<notin> threads w \<Longrightarrow>
    taskActivate me tid rc thr w = Done (r, w') \<Longrightarrow> task_step w w'"
| Spawn: "me \<noteq> 0 \<Longrightarrow> blk \<notin> dom (tasks w) \<Longrightarrow> thr \<noteq> 0 \<Longrightarrow> thr \<notin> threads w \<Longrightarrow>
    taskSpawn me name pri opts f args blk nb rc thr w = Done (r, w') \<Longrightarrow> task_step w w'"
| DeleteForce: "me \<noteq> 0 \<Longrightarrow> taskDeleteForce me tid w = Done (c, w') \<Longrightarrow> task_step w w'"
| Delete: "me \<noteq> 0 \<Longrightarrow> taskDelete me tid w = Done (c, w') \<Longrightarrow> task_step w w'"
| DeleteResume: "me \<noteq> 0 \<Longrightarrow> taskDelete_resume me self t w = Done (c, w') \<Longrightarrow> task_step w w'"
| PrioritySet: "me \<noteq> 0 \<Longrightarrow> taskPrioritySet me tid pri w = Done (r, w') \<Longrightarrow> task_step w w'"
| PriorityGet: "me \<noteq> 0 \<Longrightarrow> taskPriorityGet me tid w = Done (r, q, w') \<Longrightarrow> task_step w w'"
| IdListGet: "me \<noteq> 0 \<Longrightarrow> taskIdListGet me n w = Done (ids, w') \<Longrightarrow> task_step w w'"
| DelayBegin: "task_step w (taskDelay_begin me w)"
| DelayEnd: "task_step w (taskDelay_end t w)"
| WrapperBegin: "task_step w (snd (task_wrapper_begin me t w))"
| Cleanup: "task_step w (task_wrapper_cleanup me w)"
| WrapperEnd: "me \<noteq> 0 \<Longrightarrow> task_wrapper_end me t w = Done (c, w') \<Longrightarrow> task_step w w'"

lemma task_step_inv: "task_step w w' \<Longrightarrow> task_inv w \<Longrightarrow> task_inv w'"
  by (induction rule: task_step.induct) (blast intro: keeps_inv)+

lemma task_inv_boot: "task_inv (boot_world lo hi)"
  by (simp add: task_inv_def task_wf_def lock_wf_def boot_world_def)

text \<open>In every state the task API can reach from the start of the process, the task
  list holds distinct allocated control blocks, every thread recorded in a control block
  exists and belongs to one task only, and the scheduler is locked exactly when its nesting
  level is positive.\<close>

theorem task_api_invariant:
  assumes "task_step\<^sup>*\<^sup>* (boot_world lo hi) w"
  shows "task_inv w"
  using assms by (induction rule: rtranclp_induct) (simp_all add: task_inv_boot task_step_inv)

section \<open>Lemmas: creating tasks\<close>

lemma translate_priority_legal:
  "0 \<le> v \<Longrightarrow> v \<le> 255 \<Longrightarrow> snd (translate_priority w v p e) = e"
  by (auto simp: translate_priority_def Let_def vxw_codes)

lemma init_tcb_error:
  "snd (init_tcb w a name pri opts f args nb) =
     (if 0 \<le> pri \<and> pri \<le> 255 then OK else S_taskLib_ILLEGAL_PRIORITY)"
  by (auto simp: init_tcb_def Let_def split: prod.split
      dest: arg_cong [where f = snd] simp: translate_priority_legal translate_priority_illegal)

lemma init_tcb_fields:
  "taskid (fst (init_tcb w a name pri opts f args nb)) = s32 (int a)"
  "taskname (fst (init_tcb w a name pri opts f args nb)) = (if nb \<noteq> NULL then name else None)"
  "state (fst (init_tcb w a name pri opts f args nb)) = DEAD"
  "vxw_priority (fst (init_tcb w a name pri opts f args nb)) = pri"
  "entry_point (fst (init_tcb w a name pri opts f args nb)) = f"
  "parms (fst (init_tcb w a name pri opts f args nb)) = args"
  "waiting (fst (init_tcb w a name pri opts f args nb)) = NULL"
  "t_first_susp (fst (init_tcb w a name pri opts f args nb)) = []"
  "delete_safe_count (fst (init_tcb w a name pri opts f args nb)) = 0"
  by (simp_all add: init_tcb_def Let_def zero_task_def split: prod.split)

lemma taskInit_OK:
  assumes "a \<noteq> NULL" and "0 \<le> pri" and "pri \<le> 255"
  shows "taskInit me a name pri 0 f args nb w =
     Done (OK, w\<lparr>tasks := (tasks w)(a \<mapsto> fst (init_tcb w a name pri 0 f args nb)),
                 task_list := task_list w @ [a]\<rparr>)"
  using assms init_tcb_error [of w a name pri 0 f args nb]
  by (auto simp: taskInit_def finish_def Let_def split: prod.split)

lemma taskInit_rejects:
  assumes "a \<noteq> NULL" and "opts \<noteq> 0 \<or> pri < 0 \<or> 255 < pri"
  shows "\<exists>e w'. taskInit me a name pri opts f args nb w = Done (e, w') \<and> e \<noteq> OK
           \<and> task_list w' = task_list w \<and> (\<forall>b. b \<noteq> a \<longrightarrow> tasks w' b = tasks w b)
           \<and> locker w' = locker w \<and> threads w' = threads w"
  using assms init_tcb_error [of w a name pri 0 f args nb]
  by (auto simp: taskInit_def finish_def vxw_codes Let_def split: prod.split)

lemma new_tid_cong:
  assumes "task_list w' = task_list w"
    and "\<And>t. t \<in> set (task_list w) \<Longrightarrow> taskid (tcb w' t) = taskid (tcb w t)"
  shows "new_tid w' = new_tid w"
proof -
  have "new_tid_from (\<lambda>t. taskid (tcb w' t)) ts n = new_tid_from (\<lambda>t. taskid (tcb w t)) ts n"
    if "set ts \<subseteq> set (task_list w)" for ts n
    using that by (induction ts arbitrary: n) (auto simp: assms(2))
  then show ?thesis by (simp add: new_tid_def assms(1))
qed

lemma new_tid_poke:
  "a \<notin> set (task_list w) \<Longrightarrow> new_tid (w\<lparr>tasks := (tasks w)(a := x)\<rparr>) = new_tid w"
  by (rule new_tid_cong) (auto intro!: arg_cong [where f = taskid] tcb_poke_other)

text \<open>The state in which \<^verbatim>\<open>taskSpawn\<close> activates the new task.\<close>

definition spawned_tcb :: "world \<Rightarrow> string option \<Rightarrow> int \<Rightarrow> addr \<Rightarrow> int list \<Rightarrow> addr \<Rightarrow> addr \<Rightarrow> task_t" where
  "spawned_tcb w name pri f args blk nb =
     (fst (init_tcb w blk (case name of None \<Rightarrow> Some (default_name (new_tid w)) | Some n \<Rightarrow> Some n)
            pri 0 f args nb))
       \<lparr>taskid := new_tid w, static_task := False\<rparr>"

lemma init_tcb_cong:
  "round_robin_enabled w' = round_robin_enabled w \<Longrightarrow> prio_min w' = prio_min w \<Longrightarrow>
   prio_max w' = prio_max w \<Longrightarrow> init_tcb w' = init_tcb w"
  by (simp add: init_tcb_def translate_priority_def fun_eq_iff Let_def)

lemma taskSpawn_legal:
  assumes "blk \<noteq> NULL" and "blk \<notin> set (task_list w)" and "0 \<le> pri" and "pri \<le> 255"
  shows "taskSpawn me name pri 0 f args blk nb rc thr w =
     obind (taskActivate me (new_tid w) rc thr
              (w\<lparr>task_list := task_list w @ [blk],
                 tasks := (tasks w)(blk \<mapsto> spawned_tcb w name pri f args blk nb)\<rparr>))
       (\<lambda>(error', w3). if error' \<noteq> OK then Done (error', set_errno me error' w3)
                       else Done (new_tid w, w3))"
proof -
  have "init_tcb (w\<lparr>tasks := (tasks w)(blk \<mapsto> zero_task)\<rparr>) = init_tcb w"
    by (rule init_tcb_cong) simp_all
  moreover have "new_tid (w\<lparr>tasks := (tasks w)(blk \<mapsto> zero_task)\<rparr>) = new_tid w"
    using assms(2) by (rule new_tid_poke)
  ultimately show ?thesis
    using assms
    by (simp add: taskSpawn_def taskInit_OK upd_task_def spawned_tcb_def Let_def
        cong: if_cong option.case_cong prod.case_cong)
qed

lemma my_task_threads [simp]: "my_task me (w\<lparr>threads := th\<rparr>) = my_task me w"
  by (rule my_task_cong) simp_all

lemma find_skip_last: "\<not> P a \<Longrightarrow> find P (xs @ [a]) = find P xs"
  by (induction xs) auto

lemma tcb_taskLock_other: "taskLock me w = Done w' \<Longrightarrow> t \<noteq> my_task me w \<Longrightarrow> tcb w' t = tcb w t"
  by (auto dest!: taskLock_DoneD simp: Let_def tcb_set_sched)

lemma tcb_taskUnlock_other: "t \<noteq> my_task me w \<Longrightarrow> tcb (taskUnlock me w) t = tcb w t"
  by (auto simp: taskUnlock_def Let_def tcb_set_sched)

lemma my_task_append:
  assumes "task_list v = task_list w @ [b]" and "pthrid (tcb v b) \<noteq> me"
    and "\<And>t. t \<in> set (task_list w) \<Longrightarrow> pthrid (tcb v t) = pthrid (tcb w t)"
  shows "my_task me v = my_task me w"
proof -
  have "find (\<lambda>t. me = pthrid (tcb v t)) (task_list w) = find (\<lambda>t. me = pthrid (tcb w t)) (task_list w)"
    using assms(3) by (intro find_cong_set) simp
  then show ?thesis using assms(1,2) by (simp add: my_task_def find_skip_last)
qed

lemma taskActivate_DEAD:
  assumes "taskLock me w = Done w1" and "task_for me tid w1 = t" and "t \<noteq> NULL"
    and "t \<in> dom (tasks w1)" and "state (tcb w1 t) = DEAD"
  shows "taskActivate me tid 0 thr w = Done (OK, taskUnlock me
           ((upd_task t (\<lambda>x. x\<lparr>state := READY, pthrid := thr\<rparr>) w1)
              \<lparr>threads := insert thr (threads w1), thr_sched := (thr_sched w1)(thr := thr_sched w1 me)\<rparr>))"
proof -
  have "upd_task t (\<lambda>x. x\<lparr>pthrid := thr\<rparr>) (upd_task t (\<lambda>x. x\<lparr>state := READY, pthrid := 0\<rparr>) w1)
      = upd_task t (\<lambda>x. x\<lparr>state := READY, pthrid := thr\<rparr>) w1"
    using assms(4) by (auto simp: upd_task_def option.map_comp o_def)
  then show ?thesis
    using assms by (simp add: taskActivate_def finish_def Let_def)
qed

text \<open>The state between the two halves of a successful \<^verbatim>\<open>taskSpawn\<close>, and its result.\<close>

definition spawn_mid :: "world \<Rightarrow> addr \<Rightarrow> task_t \<Rightarrow> world" where
  "spawn_mid w blk t = w\<lparr>task_list := task_list w @ [blk], tasks := (tasks w)(blk \<mapsto> t)\<rparr>"

definition spawn_end :: "pthread \<Rightarrow> addr \<Rightarrow> pthread \<Rightarrow> world \<Rightarrow> world" where
  "spawn_end me blk thr w1 = taskUnlock me
     ((upd_task blk (\<lambda>x. x\<lparr>state := READY, pthrid := thr\<rparr>) w1)
        \<lparr>threads := insert thr (threads w1), thr_sched := (thr_sched w1)(thr := thr_sched w1 me)\<rparr>)"

lemma spawn_mid_simps [simp]:
  "tcb (spawn_mid w blk t) a = (if a = blk then t else tcb w a)"
  "task_list (spawn_mid w blk t) = task_list w @ [blk]"
  "dom (tasks (spawn_mid w blk t)) = insert blk (dom (tasks w))"
  "threads (spawn_mid w blk t) = threads w" "locker (spawn_mid w blk t) = locker w"
  by (simp_all add: spawn_mid_def tcb_def)

lemma spawn_end_fields:
  assumes "blk \<in> dom (tasks w1)" and "\<And>x p. F (x\<lparr>attr_priority := p\<rparr>) = F x"
  shows "F (tcb (spawn_end me blk thr w1) a) =
     F (if a = blk then (tcb w1 blk)\<lparr>state := READY, pthrid := thr\<rparr> else tcb w1 a)"
  using assms by (simp add: spawn_end_def taskUnlock_field)

lemma spawn_end_lists [simp]:
  "task_list (spawn_end me blk thr w1) = task_list w1"
  "threads (spawn_end me blk thr w1) = insert thr (threads w1)"
  by (simp_all add: spawn_end_def)

lemma task_for_last:
  assumes "task_list v = ts @ [blk]" and "taskid (tcb v blk) = tid" and "tid \<noteq> 0"
    and "\<And>t. t \<in> set ts \<Longrightarrow> taskid (tcb v t) \<noteq> tid"
  shows "task_for x tid v = blk"
  using assms find_last [of ts "\<lambda>t. taskid (tcb v t) = tid" blk] by (simp add: task_for_def)

lemma my_task_last:
  assumes "task_list v = ts @ [blk]" and "pthrid (tcb v blk) = thr"
    and "\<And>t. t \<in> set ts \<Longrightarrow> pthrid (tcb v t) \<noteq> thr"
  shows "my_task thr v = blk"
proof -
  have "find (\<lambda>t. thr = pthrid (tcb v t)) (ts @ [blk]) = Some blk"
    using assms(2,3) by (intro find_last) metis+
  then show ?thesis using assms(1) by (simp add: my_task_def)
qed

lemma taskSpawn_runs:
  assumes "blk \<noteq> NULL" and "blk \<notin> set (task_list w)" and "0 \<le> pri" and "pri \<le> 255"
    and "\<And>t. t \<in> set (task_list w) \<Longrightarrow> taskid (tcb w t) \<noteq> 65536"
    and "taskLock me (spawn_mid w blk (spawned_tcb w name pri f args blk nb)) = Done w1"
  shows "taskSpawn me name pri 0 f args blk nb 0 thr w = Done (new_tid w, spawn_end me blk thr w1)"
proof -
  note F = taskLock_frame [OF assms(6)] taskLock_fields [OF assms(6)]
  have id: "1 \<le> new_tid w" "\<And>t. t \<in> set (task_list w) \<Longrightarrow> taskid (tcb w t) \<noteq> new_tid w"
    using new_tid_unused [OF assms(5)] by auto
  have "task_for me (new_tid w) w1 = blk"
    using id assms(2) by (intro task_for_last) (auto simp: F spawned_tcb_def)
  then have "taskActivate me (new_tid w) 0 thr (spawn_mid w blk (spawned_tcb w name pri f args blk nb))
      = Done (OK, spawn_end me blk thr w1)"
    unfolding spawn_end_def using assms(1)
    by (intro taskActivate_DEAD [OF assms(6)])
      (simp_all add: F spawned_tcb_def init_tcb_fields del: domIff)
  then show ?thesis
    using assms(1-4) by (simp add: taskSpawn_legal spawn_mid_def)
qed

lemma spawn_others:
  assumes "taskLock me (spawn_mid w blk t) = Done w1" and "pthrid t = 0" and "me \<noteq> 0" and "thr \<noteq> me"
    and "blk \<notin> set (task_list w)" and "a \<in> set (task_list w)" and "a \<noteq> my_task me w"
  shows "tcb (spawn_end me blk thr w1) a = tcb w a"
proof -
  note F = taskLock_frame [OF assms(1)] taskLock_fields [OF assms(1)]
  have "a \<noteq> blk" using assms(5,6) by auto
  have 1: "my_task me (spawn_mid w blk t) = my_task me w"
    using assms(2,3,5) by (intro my_task_append [where b = blk]) auto
  have 2: "my_task me (upd_task blk (\<lambda>x. x\<lparr>state := READY, pthrid := thr\<rparr>) w1) = my_task me w"
    using assms(4,5) by (intro my_task_append [where b = blk]) (auto simp: F pthrid_upd)
  show ?thesis
    using \<open>a \<noteq> blk\<close> assms(7) 1 2
    by (simp add: spawn_end_def tcb_taskUnlock_other tcb_taskLock_other [OF assms(1)])
qed

text \<open>C15. \<^verbatim>\<open>taskSpawn\<close> with legal arguments, when memory and a thread are available,
  returns the identifier \<^verbatim>\<open>new_tid\<close> chose. The new task is appended to the task list, is
  \<^verbatim>\<open>READY\<close> with the requested priority, entry point and parameters, is found under its
  identifier by every thread, and is what \<^verbatim>\<open>my_task\<close> answers in its own thread, where
  \<^verbatim>\<open>task_wrapper\<close> calls the entry point with these parameters. The entries of all other tasks
  except the caller's are unchanged.\<close>

theorem taskSpawn_creates:
  assumes "task_inv w" and "me \<noteq> 0" and "locker w = 0 \<or> locker w = me"
    and "blk \<noteq> NULL" and "blk \<notin> dom (tasks w)" and "0 \<le> pri" and "pri \<le> 255"
    and "\<And>t. t \<in> set (task_list w) \<Longrightarrow> taskid (tcb w t) \<noteq> 65536"
    and "thr \<noteq> 0" and "thr \<notin> threads w" and "thr \<noteq> me"
  shows "\<exists>w'. taskSpawn me name pri 0 f args blk nb 0 thr w = Done (new_tid w, w')
     \<and> task_list w' = task_list w @ [blk] \<and> threads w' = insert thr (threads w)
     \<and> state (tcb w' blk) = READY \<and> vxw_priority (tcb w' blk) = pri
     \<and> entry_point (tcb w' blk) = f \<and> parms (tcb w' blk) = args
     \<and> task_for th (new_tid w) w' = blk \<and> my_task thr w' = blk
     \<and> fst (task_wrapper_begin thr blk w') = Calls f args
     \<and> (\<forall>t \<in> set (task_list w). t \<noteq> my_task me w \<longrightarrow> tcb w' t = tcb w t)"
proof -
  have nin: "blk \<notin> set (task_list w)" using assms(1,5) by (auto simp: task_inv_def task_wf_def)
  let ?t = "spawned_tcb w name pri f args blk nb"
  obtain w1 where w1: "taskLock me (spawn_mid w blk ?t) = Done w1"
    using assms(3) taskLock_Done_iff [of me "spawn_mid w blk ?t"] by auto
  note F = taskLock_frame [OF w1] taskLock_fields [OF w1]
  let ?w' = "spawn_end me blk thr w1"
  have dom: "blk \<in> dom (tasks w1)" by (simp add: F del: domIff)
  note E = spawn_end_fields [OF dom, of taskid] spawn_end_fields [OF dom, of pthrid]
    spawn_end_fields [OF dom, of state] spawn_end_fields [OF dom, of vxw_priority]
    spawn_end_fields [OF dom, of entry_point] spawn_end_fields [OF dom, of parms]
  have fld: "entry_point (tcb w1 blk) = f" "parms (tcb w1 blk) = args" "pthrid ?t = 0"
    by (simp_all add: taskLock_field [OF w1] spawned_tcb_def init_tcb_fields init_tcb_pthrid)
  have "taskSpawn me name pri 0 f args blk nb 0 thr w = Done (new_tid w, ?w')"
    using assms(4) nin assms(6-8) w1 by (rule taskSpawn_runs)
  moreover have "task_for th (new_tid w) ?w' = blk"
    using new_tid_unused [OF assms(8)] nin by (intro task_for_last) (auto simp: E F spawned_tcb_def)
  moreover have "my_task thr ?w' = blk"
    using assms(1,9,10) nin
    by (intro my_task_last [where ts = "task_list w"]) (auto simp: E F task_inv_def)
  moreover have "\<forall>t \<in> set (task_list w). t \<noteq> my_task me w \<longrightarrow> tcb ?w' t = tcb w t"
    using spawn_others [OF w1 fld(3) assms(2,11) nin] by blast
  ultimately show ?thesis
    by (intro exI [of _ ?w']) (simp add: E F fld spawned_tcb_def init_tcb_fields
      task_wrapper_begin_def task_wrapper_poll_def Let_def assms(9))
qed

lemma two_tasks_inv: "task_inv two_tasks"
  by (auto simp: task_inv_def task_wf_def lock_wf_def demo_simps)

lemma two_tasks_simps [simp]:
  "locker two_tasks = 0" "task_list two_tasks = [100, 200]" "threads two_tasks = {7, 8}"
  "dom (tasks two_tasks) = {100, 200}" "taskLock_level two_tasks = 0"
  "tcb two_tasks 100 = zero_task\<lparr>taskid := 1, pthrid := 7, attr_policy := SCHED_FIFO,
     prv_priority := 40, attr_priority := 40\<rparr>"
  "tcb two_tasks 200 = zero_task\<lparr>taskid := 2, pthrid := 8, attr_policy := SCHED_FIFO,
     prv_priority := 60, attr_priority := 60\<rparr>"
  by (auto simp: demo_simps)

theorem taskSpawn_creates_witness:
  "\<exists>w'. taskSpawn 7 None 100 0 5000 [1, 2] 300 400 0 9 two_tasks = Done (3, w')
     \<and> task_list w' = [100, 200, 300] \<and> threads w' = {7, 8, 9}
     \<and> state (tcb w' 300) = READY \<and> vxw_priority (tcb w' 300) = 100
     \<and> task_for 8 3 w' = 300 \<and> my_task 9 w' = 300 \<and> fst (task_wrapper_begin 9 300 w') = Calls 5000 [1, 2]"
proof -
  have "new_tid two_tasks = 3" by (simp add: new_tid_def zero_task_def)
  moreover have "taskid (tcb two_tasks t) \<noteq> 65536" if "t \<in> set (task_list two_tasks)" for t
    using that by (auto simp: zero_task_def)
  ultimately show ?thesis
    using taskSpawn_creates [OF two_tasks_inv, of 7 300 100 9 None 5000 "[1, 2]" 400 8] by auto
qed

theorem task_api_invariant_witness:
  "\<exists>w'. taskSpawn 7 None 100 0 5000 [] 300 400 0 9 (boot_world linux_lo linux_hi) = Done (1, w')
     \<and> task_list w' = [300] \<and> task_inv w'"
proof -
  let ?b = "boot_world linux_lo linux_hi"
  let ?t = "spawned_tcb ?b None 100 5000 [] 300 400"
  obtain w1 where w1: "taskLock 7 (spawn_mid ?b 300 ?t) = Done w1"
    using taskLock_Done_iff [of 7 "spawn_mid ?b 300 ?t"] by (auto simp: boot_world_def)
  have "new_tid ?b = 1" by (simp add: new_tid_def boot_world_def)
  with taskSpawn_runs [OF _ _ _ _ _ w1, of 9]
  have sp: "taskSpawn 7 None 100 0 5000 [] 300 400 0 9 ?b = Done (1, spawn_end 7 300 9 w1)"
    by (simp add: boot_world_def)
  have "task_step ?b (spawn_end 7 300 9 w1)"
    by (rule task_step.Spawn [OF _ _ _ _ sp]) (simp_all add: boot_world_def)
  then have "task_inv (spawn_end 7 300 9 w1)"
    by (intro task_api_invariant [of linux_lo linux_hi]) (rule r_into_rtranclp)
  with sp show ?thesis by (simp add: taskLock_frame [OF w1] boot_world_def)
qed

lemma thr_sched_taskUnlock_other:
  "thr \<noteq> me \<Longrightarrow> thr_sched (taskUnlock me w) thr = thr_sched w thr"
  using my_task_pthrid [of me w] by (auto simp: taskUnlock_def set_sched_def Let_def)

text \<open>A task spawned by a task starts at the highest priority of the creator's policy,
  whatever priority was requested: \<open>pthread_create\<close> inherits the scheduling of its creator,
  which \<^verbatim>\<open>taskActivate\<close> has just raised to the maximum by locking the scheduler.\<close>

theorem taskSpawn_inherits_maximum:
  assumes "blk \<noteq> NULL" and "blk \<notin> set (task_list w)" and "0 \<le> pri" and "pri \<le> 255"
    and "\<And>t. t \<in> set (task_list w) \<Longrightarrow> taskid (tcb w t) \<noteq> 65536"
    and "task_wf w" and "locker w = 0" and "my_task me w \<noteq> NULL" and "me \<noteq> 0" and "thr \<noteq> me"
  shows "\<exists>w'. taskSpawn me name pri 0 f args blk nb 0 thr w = Done (new_tid w, w')
     \<and> thr_sched w' thr = Some (attr_policy (tcb w (my_task me w)),
                               prio_max w (attr_policy (tcb w (my_task me w))))"
proof -
  let ?t = "spawned_tcb w name pri f args blk nb"
  let ?c = "my_task me w"
  obtain w1 where w1: "taskLock me (spawn_mid w blk ?t) = Done w1"
    using assms(7) taskLock_Done_iff [of me "spawn_mid w blk ?t"] by auto
  have m: "my_task me (spawn_mid w blk ?t) = ?c"
    using assms(2,9) by (intro my_task_append [where b = blk])
      (auto simp: spawned_tcb_def init_tcb_pthrid)
  have c: "?c \<noteq> blk" "pthrid (tcb w ?c) = me" using my_task_in [OF assms(8)] assms(2,8)
    by (auto simp: my_task_pthrid)
  have "thr_sched w1 me = Some (attr_policy (tcb w ?c), prio_max w (attr_policy (tcb w ?c)))"
    using taskLock_DoneD [OF w1] assms(8) m c by (simp add: Let_def set_sched_def spawn_mid_def tcb_def)
  then have "thr_sched (spawn_end me blk thr w1) thr
      = Some (attr_policy (tcb w ?c), prio_max w (attr_policy (tcb w ?c)))"
    using assms(10) by (simp add: spawn_end_def thr_sched_taskUnlock_other)
  with taskSpawn_runs [OF assms(1-5) w1, of thr] show ?thesis by blast
qed

theorem taskSpawn_inherits_maximum_witness:
  "\<exists>w'. taskSpawn 7 None 255 0 5000 [] 300 400 0 9 two_tasks = Done (new_tid two_tasks, w')
     \<and> thr_sched w' 9 = Some (SCHED_FIFO, 99)"
proof -
  have "taskid (tcb two_tasks t) \<noteq> 65536" if "t \<in> set (task_list two_tasks)" for t
    using that by (auto simp: zero_task_def)
  moreover have "my_task 7 two_tasks = 100" by (simp add: my_task_def zero_task_def)
  moreover have "prio_max two_tasks SCHED_FIFO = 99" by (simp add: demo_simps)
  ultimately show ?thesis
    using taskSpawn_inherits_maximum [of 300 two_tasks 255 7 9 None 5000 "[]" 400] two_tasks_inv
    by (simp add: task_inv_def zero_task_def)
qed

lemma spawn_rejected:
  assumes "blk \<noteq> NULL" and "blk \<notin> set (task_list w)" and "opts \<noteq> 0 \<or> pri < 0 \<or> 255 < pri"
    and "locker w = 0 \<or> locker w = me"
    and "\<And>t. t \<in> set (task_list w) \<Longrightarrow> taskid (tcb w t) \<noteq> 65536" and "task_wf w"
  shows "\<exists>w'. taskSpawn me name pri opts f args blk nb rc thr w = Done (ERROR, w')
     \<and> errno w' me = ERROR \<and> task_list w' = task_list w \<and> threads w' = threads w
     \<and> dom (tasks w') = dom (tasks w) - {blk}"
proof -
  let ?w0 = "w\<lparr>tasks := (tasks w)(blk \<mapsto> zero_task)\<rparr>"
  define nm where "nm = (case name of None \<Rightarrow> Some (default_name (new_tid ?w0)) | Some n \<Rightarrow> Some n)"
  obtain e w1 where init: "taskInit me blk nm pri opts f args nb ?w0 = Done (e, w1)" "e \<noteq> OK"
    and w1: "task_list w1 = task_list w" "\<And>b. b \<noteq> blk \<Longrightarrow> tasks w1 b = tasks w b"
      "locker w1 = locker w" "threads w1 = threads w"
    using taskInit_rejects [OF assms(1,3), of me nm f args nb ?w0] by auto
  define w2 where "w2 = w1\<lparr>tasks := (tasks w1)(blk := None)\<rparr>"
  have same: "tcb w2 t = tcb w t" if "t \<in> set (task_list w)" for t
    using that assms(2) w1(2) [of t] by (auto simp: w2_def tcb_def)
  have dom: "dom (tasks w2) = dom (tasks w) - {blk}"
    using w1(2) by (auto simp: w2_def dom_def split: if_split_asm)
  obtain w3 where w3: "taskLock me w2 = Done w3"
    using assms(4) w1(3) taskLock_Done_iff [of me w2] by (auto simp: w2_def)
  have "task_for me (new_tid w) w2 = NULL"
    using new_tid_unused [OF assms(5)] same w1(1) assms(6) dom assms(2)
    by (subst task_for_NULL_iff) (auto simp: w2_def task_wf_def simp del: domIff)
  then have act: "taskActivate me (new_tid w) rc thr w2
      = Done (ERROR, set_errno me S_objLib_OBJ_ID_ERROR (taskUnlock me w3))"
    using w3 by (simp add: taskActivate_def Let_def finish_def vxw_codes taskLock_task_for)
  have "taskSpawn me name pri opts f args blk nb rc thr w
      = Done (ERROR, set_errno me ERROR (set_errno me S_objLib_OBJ_ID_ERROR (taskUnlock me w3)))"
    using init act assms(1) new_tid_poke [OF assms(2), of "Some zero_task"]
    by (simp add: taskSpawn_def Let_def nm_def w2_def vxw_codes cong: option.case_cong)
  then show ?thesis
    using w1 dom by (simp add: taskLock_frame [OF w3] w2_def del: domIff)
qed

lemma spawn_no_thread:
  assumes "blk \<noteq> NULL" and "blk \<notin> set (task_list w)" and "0 \<le> pri" and "pri \<le> 255" and "rc \<noteq> 0"
    and "locker w = 0 \<or> locker w = me"
    and "\<And>t. t \<in> set (task_list w) \<Longrightarrow> taskid (tcb w t) \<noteq> 65536"
  shows "\<exists>w'. taskSpawn me name pri 0 f args blk nb rc thr w = Done (ERROR, w')
     \<and> errno w' me = ERROR \<and> task_list w' = task_list w \<and> threads w' = threads w
     \<and> dom (tasks w') = dom (tasks w) - {blk}"
proof -
  let ?m = "spawn_mid w blk (spawned_tcb w name pri f args blk nb)"
  obtain w1 where w1: "taskLock me ?m = Done w1"
    using assms(6) taskLock_Done_iff [of me ?m] by auto
  note F = taskLock_frame [OF w1] taskLock_fields [OF w1]
  let ?u = "upd_task blk (\<lambda>t. t\<lparr>state := READY, pthrid := 0\<rparr>) w1"
  have "task_for me (new_tid w) w1 = blk"
    using new_tid_unused [OF assms(7)] assms(2)
    by (intro task_for_last) (auto simp: F spawned_tcb_def)
  moreover have "state (tcb w1 blk) = DEAD" by (simp add: F spawned_tcb_def init_tcb_fields)
  ultimately have act: "taskActivate me (new_tid w) rc thr ?m = Done (ERROR,
      set_errno me S_memLib_NOT_ENOUGH_MEMORY (taskUnlock me (task_delete blk ?u)))"
    using assms(1,5) w1 by (simp add: taskActivate_def Let_def finish_def vxw_codes)
  have blk: "waiting (tcb ?u blk) = NULL" "static_task (tcb ?u blk) = False"
    by (simp_all add: tcb_upd_field F spawned_tcb_def init_tcb_fields)
  then have "tasks (task_delete blk ?u) = (tasks ?u)(blk := None)"
    by (simp add: task_delete_def Let_def)
  then have "dom (tasks (task_delete blk ?u)) = dom (tasks w) - {blk}"
    by (simp add: F del: domIff)
  then show ?thesis
    using assms(1-4) act
    by (simp add: taskSpawn_legal [folded spawn_mid_def] F vxw_codes remove1_append del: domIff)
qed

text \<open>C26. A \<^verbatim>\<open>taskSpawn\<close> that fails, because of unsupported options, an illegal priority
  or no thread, leaves nothing behind: it returns \<^verbatim>\<open>ERROR\<close>, the task list and the threads
  are as before and the control block is freed. The reason is lost: \<open>errno\<close> is
  overwritten with \<^verbatim>\<open>ERROR\<close> (-1).\<close>

theorem taskSpawn_failure:
  assumes "blk \<noteq> NULL" and "blk \<notin> dom (tasks w)" and "task_inv w"
    and "opts \<noteq> 0 \<or> pri < 0 \<or> 255 < pri \<or> rc \<noteq> 0"
    and "locker w = 0 \<or> locker w = me"
    and "\<And>t. t \<in> set (task_list w) \<Longrightarrow> taskid (tcb w t) \<noteq> 65536"
  shows "\<exists>w'. taskSpawn me name pri opts f args blk nb rc thr w = Done (ERROR, w')
     \<and> errno w' me = ERROR \<and> task_list w' = task_list w \<and> threads w' = threads w
     \<and> dom (tasks w') = dom (tasks w)"
proof -
  have nin: "blk \<notin> set (task_list w)" and wf: "task_wf w"
    using assms(2,3) by (auto simp: task_inv_def task_wf_def)
  have d: "dom (tasks w) - {blk} = dom (tasks w)" using assms(2) by blast
  show ?thesis
  proof (cases "opts \<noteq> 0 \<or> pri < 0 \<or> 255 < pri")
    case True
    from spawn_rejected [OF assms(1) nin this assms(5,6) wf, unfolded d] show ?thesis .
  next
    case False
    with assms(4) have "opts = 0" "0 \<le> pri" "pri \<le> 255" "rc \<noteq> 0" by auto
    with spawn_no_thread [OF assms(1) nin _ _ _ assms(5,6), unfolded d] show ?thesis by simp
  qed
qed

theorem taskSpawn_failure_witness:
  "(\<exists>w'. taskSpawn 7 None 256 0 5000 [] 300 400 0 9 two_tasks = Done (ERROR, w')
      \<and> errno w' 7 = ERROR \<and> task_list w' = [100, 200] \<and> threads w' = {7, 8}
      \<and> dom (tasks w') = {100, 200})
   \<and> (\<exists>w'. taskSpawn 7 None 100 0 5000 [] 300 400 11 9 two_tasks = Done (ERROR, w')
      \<and> errno w' 7 = ERROR \<and> task_list w' = [100, 200] \<and> threads w' = {7, 8}
      \<and> dom (tasks w') = {100, 200})"
proof -
  have ids: "taskid (tcb two_tasks t) \<noteq> 65536" if "t \<in> set (task_list two_tasks)" for t
    using that by (auto simp: zero_task_def)
  show ?thesis
    using taskSpawn_failure [of 300 two_tasks 0 256 0 7 None 5000 "[]" 400 9]
      taskSpawn_failure [of 300 two_tasks 0 100 11 7 None 5000 "[]" 400 9] two_tasks_inv ids
    by (simp del: domIff)
qed

text \<open>The default name of a task.\<close>

lemma dec_string_length: "n < 10 ^ Suc k \<Longrightarrow> length (dec_string n) \<le> Suc k"
proof (induction k arbitrary: n)
  case 0
  then show ?case by (simp add: dec_string.simps)
next
  case (Suc k)
  then have "n div 10 < 10 ^ Suc k" by simp
  then show ?case using Suc.IH [of "n div 10"] by (simp add: dec_string.simps [of n])
qed

fun dec_value :: "string \<Rightarrow> nat" where
  "dec_value [] = 0"
| "dec_value s = 10 * dec_value (butlast s) + (of_char (last s) - 48)"

lemma dec_value_snoc: "dec_value (s @ [c]) = 10 * dec_value s + (of_char c - 48)"
  by (cases s) simp_all

lemma dec_value_string: "dec_value (dec_string n) = n"
proof (induction n rule: dec_string.induct)
  case (1 n)
  show ?case
  proof (cases "n < 10")
    case True
    then show ?thesis by (simp add: dec_string.simps [of n])
  next
    case False
    then show ?thesis using 1 by (simp add: dec_string.simps [of n] dec_value_snoc)
  qed
qed

text \<open>The name \<^verbatim>\<open>taskSpawn\<close> synthesizes always fits the 16 bytes of \<open>myname\<close>, its
  terminator included, and names the task uniquely: the identifier can be read back from
  it.\<close>

theorem default_name_fits:
  "length (default_name (new_tid w)) + 1 \<le> 16
     \<and> dec_value (tl (default_name (new_tid w))) = nat (new_tid w)"
proof -
  have "new_tid w \<le> 65536" unfolding new_tid_def by (rule new_tid_from_le) simp
  then have "nat (new_tid w) < 10 ^ Suc 4" by simp
  from dec_string_length [OF this] show ?thesis by (simp add: default_name_def dec_value_string)
qed


section \<open>Lemmas: deleting tasks\<close>

lemma level_up_eq: "unat v + 1 < 2 ^ 64 \<Longrightarrow> level_up v = v + 1"
proof -
  assume "unat v + 1 < 2 ^ 64"
  then have "unat (v + 1) = unat v + 1" by (simp add: unat_word_ariths)
  then show ?thesis by (auto simp: level_up_def)
qed

text \<open>A lock and an unlock by the same thread cancel out, whatever happened in between
  to the rest of the state.\<close>

lemma lock_balanced:
  assumes "taskLock me w = Done w1" and "lock_wf w" and "me \<noteq> 0"
    and "unat (taskLock_level w) + 1 < 2 ^ 64"
    and "locker w2 = locker w1" and "taskLock_level w2 = taskLock_level w1"
  shows "locker (taskUnlock me w2) = locker w"
    and "taskLock_level (taskUnlock me w2) = taskLock_level w"
proof -
  have lev: "taskLock_level w2 = taskLock_level w + 1"
    using assms(4,6) taskLock_frame(2) [OF assms(1)] by (simp add: level_up_eq)
  have nz: "taskLock_level w2 \<noteq> 0"
    using assms(6) taskLock_frame(2) [OF assms(1)] by simp
  have lk: "locker w2 = me" using assms(5) taskLock_frame(1) [OF assms(1)] by simp
  from taskUnlock_level [OF lk nz] lev show "taskLock_level (taskUnlock me w2) = taskLock_level w"
    by simp
  from taskUnlock_level(2) [OF lk nz] lev taskLock_DoneD [OF assms(1)] assms(2)
  show "locker (taskUnlock me w2) = locker w"
    by (auto simp: lock_wf_def)
qed

lemma taskDeleteForce_other:
  assumes "task_inv w" and "taskLock me w = Done w1" and "task_for me tid w = t" and "t \<noteq> NULL"
    and "t \<noteq> my_task me w" and "pthrid (tcb w t) \<noteq> 0" and "t_first_susp (tcb w t) = []"
  shows "\<exists>w2. taskDeleteForce me tid w = Done (Ret OK, taskUnlock me (task_delete t w2))
     \<and> w2 = w1\<lparr>threads := threads w - {pthrid (tcb w t)}\<rparr>"
proof -
  note F = taskLock_frame [OF assms(2)] taskLock_fields [OF assms(2)] taskLock_task_for [OF assms(2)]
  have "cancel_join t w1 = Done (w1\<lparr>threads := threads w - {pthrid (tcb w t)}\<rparr>)"
    using assms(6) by (simp add: cancel_join_def F)
  then show ?thesis
    using assms by (simp add: taskDeleteForce_def F notify_task_delete_def ret_status_def finish_def)
qed

lemma dom_task_delete_dynamic:
  assumes "\<not> static_task (tcb w t)"
  shows "t \<notin> dom (tasks (task_delete t w))"
  using assms by (simp add: task_delete_def Let_def tcb_susp_field)

lemma sem_task_delete:
  assumes "waiting (tcb w t) = s" and "s \<noteq> NULL" and "s \<in> dom (sems w)" and "t \<noteq> NULL"
  shows "sem_first_susp (smcb (task_delete t w) s) = remove1 t (sem_first_susp (smcb w s))"
proof -
  have "smcb (task_delete t w) s = smcb (unlink_susp_task (SemSusp s) t w) s"
    using assms by (simp add: task_delete_def Let_def smcb_def)
  then show ?thesis
    using get_susp_unlink [of "SemSusp s" w t] assms(3,4) by (simp del: domIff)
qed

lemma taskDelete_other:
  assumes "task_inv w" and "me \<noteq> 0" and "locker w = 0 \<or> locker w = me"
    and "task_for me tid w = t" and "t \<noteq> NULL" and "t \<noteq> my_task me w"
    and "pthrid (tcb w t) \<noteq> 0" and "t_first_susp (tcb w t) = []" and "delete_safe_count (tcb w t) \<le> 0"
  obtains w1 w2 where "taskLock me w = Done w1" and "taskLock me w1 = Done w2"
    and "taskDelete me tid w = Done (Ret OK, taskUnlock me (taskUnlock me
           (task_delete t (w2\<lparr>threads := threads w - {pthrid (tcb w t)}\<rparr>))))"
proof -
  obtain w1 where w1: "taskLock me w = Done w1" using assms(3) taskLock_Done_iff by blast
  note F = taskLock_frame [OF w1] taskLock_fields [OF w1] taskLock_task_for [OF w1]
  obtain w2 where w2: "taskLock me w1 = Done w2" using taskLock_Done_iff [of me w1] F(1) by auto
  have i1: "task_inv w1" using w1 assms(1,2) by (rule task_inv_taskLock)
  have force: "taskDeleteForce me tid w1 = Done (Ret OK, taskUnlock me
      (task_delete t (w2\<lparr>threads := threads w - {pthrid (tcb w t)}\<rparr>)))"
    using taskDeleteForce_other [OF i1 w2, of tid t] assms by (simp add: F)
  show thesis
    by (rule that [OF w1 w2])
      (use w1 force assms in \<open>simp add: taskDelete_def F ret_status_def finish_def Let_def\<close>)
qed

text \<open>C16. \<^verbatim>\<open>taskDelete\<close> of another task that is not protected and that no task waits to
  delete returns \<^verbatim>\<open>OK\<close>: the task leaves the list (every other task keeps its place), its
  thread is gone, a control block of \<^verbatim>\<open>taskSpawn\<close> is freed, the task leaves the waiter list
  of the semaphore it was pended on, and the scheduler lock is as it was.\<close>

theorem taskDelete_removes:
  assumes "task_inv w" and "me \<noteq> 0" and "locker w = 0 \<or> locker w = me"
    and "unat (taskLock_level w) + 2 < 2 ^ 64"
    and "task_for me tid w = t" and "t \<noteq> NULL" and "t \<noteq> my_task me w"
    and "pthrid (tcb w t) \<noteq> 0" and "t_first_susp (tcb w t) = []"
    and "delete_safe_count (tcb w t) \<le> 0"
  shows "\<exists>w'. taskDelete me tid w = Done (Ret OK, w')
     \<and> task_list w' = remove1 t (task_list w) \<and> threads w' = threads w - {pthrid (tcb w t)}
     \<and> (static_task (tcb w t) \<or> t \<notin> dom (tasks w'))
     \<and> (waiting (tcb w t) \<in> dom (sems w) - {NULL} \<longrightarrow>
          sem_first_susp (smcb w' (waiting (tcb w t)))
            = remove1 t (sem_first_susp (smcb w (waiting (tcb w t)))))
     \<and> locker w' = locker w \<and> taskLock_level w' = taskLock_level w"
proof -
  obtain w1 w2 where w1: "taskLock me w = Done w1" and w2: "taskLock me w1 = Done w2"
    and del: "taskDelete me tid w = Done (Ret OK, taskUnlock me (taskUnlock me
           (task_delete t (w2\<lparr>threads := threads w - {pthrid (tcb w t)}\<rparr>))))"
    by (rule taskDelete_other [OF assms(1-3,5-10)])
  note F = taskLock_frame [OF w1] taskLock_fields [OF w1]
  note G = taskLock_frame [OF w2] taskLock_fields [OF w2]
  define w3 where "w3 = task_delete t (w2\<lparr>threads := threads w - {pthrid (tcb w t)}\<rparr>)"
  have i1: "task_inv w1" using w1 assms(1,2) by (rule task_inv_taskLock)
  have lev: "unat (taskLock_level w1) + 1 < 2 ^ 64" using assms(4) by (simp add: F unat_level_up)
  have l1: "locker (taskUnlock me w3) = locker w1" "taskLock_level (taskUnlock me w3) = taskLock_level w1"
    by (rule lock_balanced [OF w2 _ assms(2) lev]; use i1 in \<open>simp add: w3_def task_inv_def\<close>)+
  have l2: "locker (taskUnlock me (taskUnlock me w3)) = locker w"
    "taskLock_level (taskUnlock me (taskUnlock me w3)) = taskLock_level w"
    by (rule lock_balanced [OF w1 _ assms(2) _ l1]; use assms(1,4) in \<open>simp add: task_inv_def\<close>)+
  have st: "static_task (tcb w t) \<or> t \<notin> dom (tasks w3)"
    unfolding w3_def using dom_task_delete_dynamic [of "w2\<lparr>threads := threads w - {pthrid (tcb w t)}\<rparr>" t]
    by (cases "static_task (tcb w t)") (simp_all add: F G)
  have sm: "sem_first_susp (smcb w3 s) = remove1 t (sem_first_susp (smcb w s))"
    if "waiting (tcb w t) = s" "s \<in> dom (sems w)" "s \<noteq> NULL" for s
  proof -
    have "smcb (w2\<lparr>threads := threads w - {pthrid (tcb w t)}\<rparr>) = smcb w"
      by (rule smcb_cong) (simp add: F G)
    then show ?thesis unfolding w3_def using that assms(6) by (subst sem_task_delete) (simp_all add: F G del: domIff)
  qed
  have "smcb (taskUnlock me (taskUnlock me w3)) = smcb w3" by (rule smcb_cong) simp
  with st sm l2 del show ?thesis
    by (intro exI [of _ "taskUnlock me (taskUnlock me w3)"]) (auto simp: w3_def F G simp del: domIff)
qed

lemma two_tasks_lookup [simp]:
  "my_task 7 two_tasks = 100" "my_task 8 two_tasks = 200"
  "task_for 7 2 two_tasks = 200" "task_for 7 0 two_tasks = 100"
  by (simp_all add: my_task_def task_for_def zero_task_def)

theorem taskDelete_removes_witness:
  "\<exists>w'. taskDelete 7 2 two_tasks = Done (Ret OK, w') \<and> task_list w' = [100] \<and> threads w' = {7}
     \<and> locker w' = 0 \<and> taskLock_level w' = 0"
  using taskDelete_removes [of two_tasks 7 2 200] two_tasks_inv
  by (auto simp: zero_task_def)

text \<open>\<^verbatim>\<open>taskDelete\<close> of a task that another task protects with \<^verbatim>\<open>taskSafe\<close> waits until
  the protection is lifted, and then returns \<^verbatim>\<open>OK\<close> without deleting the task: in the state
  it returns in, the task list and the threads are those of the state it woke up in, the
  task included.\<close>

theorem taskDelete_protected_keeps_task:
  assumes "task_inv w" and "me \<noteq> 0" and "locker w = 0" and "unat (taskLock_level w) + 1 < 2 ^ 64"
    and "my_task me w = self" and "self \<noteq> NULL" and "task_for me tid w = t" and "t \<noteq> NULL"
    and "t \<noteq> self" and "0 < delete_safe_count (tcb w t)"
    and "locker v = 0" and "t \<in> set (task_list v)" and "delete_safe_count (tcb v t) \<le> 0"
  shows "(\<exists>w'. taskDelete me tid w = Done (Parked, w') \<and> locker w' = 0
            \<and> self \<in> set (t_first_susp (tcb w' t)) \<and> task_list w' = task_list w)
       \<and> (\<exists>v'. taskDelete_resume me self t v = Done (Ret OK, v')
            \<and> t \<in> set (task_list v') \<and> task_list v' = task_list v \<and> threads v' = threads v)"
proof
  obtain w1 where w1: "taskLock me w = Done w1" using assms(3) taskLock_Done_iff by blast
  note F = taskLock_frame [OF w1] taskLock_fields [OF w1] taskLock_task_for [OF w1]
  let ?w' = "taskUnlock me (link_susp_task (TaskSusp t) self w1)"
  have "taskDelete me tid w = Done (Parked, ?w')"
    using assms w1 by (simp add: taskDelete_def task_pend_delete_def F)
  moreover have "locker ?w' = 0"
    using lock_balanced(1) [OF w1 _ assms(2,4), of "link_susp_task (TaskSusp t) self w1"] assms(1,3)
    by (simp add: task_inv_def)
  moreover have "t \<in> dom (tasks w1)"
    using assms(1,7,8) task_for_dom [of w me tid] by (simp add: F task_inv_def del: domIff)
  then have "self \<in> set (t_first_susp (tcb ?w' t))"
    using get_susp_link [of "TaskSusp t" w1 self] assms(6) by (simp del: domIff)
  ultimately show "\<exists>w'. taskDelete me tid w = Done (Parked, w') \<and> locker w' = 0
            \<and> self \<in> set (t_first_susp (tcb w' t)) \<and> task_list w' = task_list w"
    by (intro exI [of _ ?w']) (simp add: F)
next
  obtain v1 where v1: "taskLock me v = Done v1" using assms(11) taskLock_Done_iff by blast
  let ?v = "if waiting (tcb v1 self) \<noteq> NULL
            then unlink_susp_task (SemSusp (waiting (tcb v1 self))) self v1 else v1"
  have "taskDelete_resume me self t v = Done (Ret OK, taskUnlock me ?v)"
    using v1 assms(6,13)
    by (simp add: taskDelete_resume_def task_pend_delete_resume_def ret_status_def finish_def)
  then show "\<exists>v'. taskDelete_resume me self t v = Done (Ret OK, v')
            \<and> t \<in> set (task_list v') \<and> task_list v' = task_list v \<and> threads v' = threads v"
    using assms(12) taskLock_frame [OF v1] by auto
qed

text \<open>The task with identifier 2 protected from deletion.\<close>

definition two_tasks_safe :: world where
  "two_tasks_safe = upd_task 200 (\<lambda>t. t\<lparr>delete_safe_count := 1\<rparr>) two_tasks"

lemma two_tasks_safe_simps [simp]:
  "locker two_tasks_safe = 0" "taskLock_level two_tasks_safe = 0"
  "my_task 7 two_tasks_safe = 100" "task_for 7 2 two_tasks_safe = 200"
  "delete_safe_count (tcb two_tasks_safe 200) = 1" "task_inv two_tasks_safe"
  by (simp_all add: two_tasks_safe_def two_tasks_inv)

theorem taskDelete_protected_keeps_task_witness:
  "(\<exists>w'. taskDelete 7 2 two_tasks_safe = Done (Parked, w') \<and> 100 \<in> set (t_first_susp (tcb w' 200)))
   \<and> (\<exists>v'. taskDelete_resume 7 100 200 two_tasks = Done (Ret OK, v') \<and> 200 \<in> set (task_list v'))"
  using taskDelete_protected_keeps_task [of two_tasks_safe 7 100 2 200 two_tasks]
  by (auto simp: zero_task_def)

text \<open>C34. Deleting a task by force while other tasks wait to delete it never ends: the
  caller sleeps in \<^verbatim>\<open>notify_task_delete\<close> until the list of waiting tasks is empty and keeps
  the scheduler locked, and each waiting task needs that lock to go on.\<close>

theorem taskDeleteForce_waiters_deadlock:
  assumes "me \<noteq> 0" and "locker w = 0 \<or> locker w = me" and "task_for me tid w = t" and "t \<noteq> NULL"
    and "t_first_susp (tcb w t) \<noteq> []" and "other \<noteq> me" and "delete_safe_count (tcb w t) \<le> 0"
  shows "\<exists>w'. taskDeleteForce me tid w = Done (Parked, w') \<and> locker w' = me
     \<and> t_first_susp (tcb w' t) \<noteq> [] \<and> taskDelete_resume other self t w' = Blocked"
proof -
  obtain w1 where w1: "taskLock me w = Done w1" using assms(2) taskLock_Done_iff by blast
  note F = taskLock_frame [OF w1] taskLock_fields [OF w1] taskLock_task_for [OF w1]
  have "taskDeleteForce me tid w = Done (Parked, w1)"
    using assms(3-5) w1 by (simp add: taskDeleteForce_def notify_task_delete_def F)
  moreover have "taskLock other w1 = Blocked" using assms(1,6) by (simp add: taskLock_eq F)
  then have "taskDelete_resume other self t w1 = Blocked"
    using assms(7) by (simp add: taskDelete_resume_def task_pend_delete_resume_def F)
  ultimately show ?thesis using assms(5) by (simp add: F)
qed

theorem taskDeleteForce_waiters_deadlock_witness:
  "\<exists>w'. taskDeleteForce 7 2 (upd_task 200 (\<lambda>t. t\<lparr>t_first_susp := [100]\<rparr>) two_tasks) = Done (Parked, w')
     \<and> locker w' = 7 \<and> taskDelete_resume 9 100 200 w' = Blocked"
  using taskDeleteForce_waiters_deadlock
    [of 7 "upd_task 200 (\<lambda>t. t\<lparr>t_first_susp := [100]\<rparr>) two_tasks" 2 200 9 100]
  by (auto simp: zero_task_def)

section \<open>Lemmas: deletion safety and priorities\<close>

lemma s32_overflow: "s32 2147483648 = - 2147483648" "s32 (- 2147483649) = 2147483647"
  by (simp_all add: s32_def)

lemma taskSafe_count:
  assumes "taskLock me w = Done w1" and "my_task me w = t" and "t \<noteq> NULL"
    and "0 \<le> delete_safe_count (tcb w t)" and "delete_safe_count (tcb w t) \<le> 2147483647"
  shows "taskSafe me w = Done (OK, taskUnlock me
      (upd_task t (\<lambda>x. x\<lparr>delete_safe_count := min (delete_safe_count (tcb w t) + 1) 2147483647\<rparr>) w1))"
proof -
  have "(let c = s32 (delete_safe_count (tcb w t) + 1) in if c \<le> 0 then s32 (c - 1) else c)
      = min (delete_safe_count (tcb w t) + 1) 2147483647"
  proof (cases "delete_safe_count (tcb w t) = 2147483647")
    case True
    then show ?thesis by (simp add: s32_overflow)
  next
    case False
    with assms(4,5) have "in_s32 (delete_safe_count (tcb w t) + 1)" by (simp add: in_s32_def)
    then show ?thesis using assms(4,5) False by (simp add: s32_id)
  qed
  then show ?thesis
    using assms by (simp add: taskSafe_def Let_def taskLock_frame taskLock_fields)
qed

text \<open>\<^verbatim>\<open>taskSafe\<close> counts up and saturates at the largest \<open>int\<close>; while the count is
  positive the task cannot delete itself (\<^verbatim>\<open>taskDelete\<close> fails with
  \<^verbatim>\<open>S_objLib_OBJ_UNAVAILABLE\<close> and the task list is unchanged); and \<^verbatim>\<open>taskUnsafe\<close> takes back
  one \<^verbatim>\<open>taskSafe\<close>.\<close>

theorem taskSafe_taskUnsafe:
  assumes "task_inv w" and "me \<noteq> 0" and "locker w = 0" and "my_task me w = t" and "t \<noteq> NULL"
    and "delete_safe_count (tcb w t) = c" and "0 \<le> c" and "c \<le> 2147483647"
    and "t_first_susp (tcb w t) = []"
  shows "\<exists>w' w'' v. taskSafe me w = Done (OK, w')
     \<and> delete_safe_count (tcb w' t) = min (c + 1) 2147483647
     \<and> taskDelete me 0 w' = Done (Ret ERROR, v) \<and> errno v me = S_objLib_OBJ_UNAVAILABLE
     \<and> task_list v = task_list w
     \<and> taskUnsafe me w' = Done (Ret OK, w'')
     \<and> delete_safe_count (tcb w'' t) = min c 2147483646"
proof -
  obtain w1 where w1: "taskLock me w = Done w1" using assms(3) taskLock_Done_iff by blast
  note F = taskLock_frame [OF w1] taskLock_fields [OF w1]
  let ?c = "min (c + 1) 2147483647"
  define w' where "w' = taskUnlock me (upd_task t (\<lambda>x. x\<lparr>delete_safe_count := ?c\<rparr>) w1)"
  have t: "t \<in> dom (tasks w1)"
    using assms(1,4,5) my_task_dom [of w me] by (simp add: F task_inv_def del: domIff)
  have safe: "taskSafe me w = Done (OK, w')"
    unfolding w'_def using taskSafe_count [OF w1 assms(4,5)] assms(6-8) by simp
  have cnt: "delete_safe_count (tcb w' t) = ?c" using t by (simp add: w'_def)
  have self: "my_task me w' = t" and dom': "t \<in> dom (tasks w')"
    using t assms(4) by (simp_all add: w'_def F)
  have susp: "t_first_susp (tcb w' t) = []"
    using assms(9) by (simp add: w'_def tcb_upd_field F)
  have "locker w' = 0"
    unfolding w'_def using assms(1-3) lock_balanced(1) [OF w1, of "upd_task t _ w1"]
    by (simp add: task_inv_def lock_wf_def)
  then obtain v1 where v1: "taskLock me w' = Done v1" using taskLock_Done_iff by blast
  note G = taskLock_frame [OF v1] taskLock_fields [OF v1]
  have "taskDelete me 0 w' = Done (Ret ERROR, set_errno me S_objLib_OBJ_UNAVAILABLE (taskUnlock me v1))"
    using v1 assms(5,7) cnt self
    by (simp add: taskDelete_def task_for_def G ret_status_def finish_def vxw_codes)
  moreover have "taskUnsafe me w' = Done (Ret OK,
      taskUnlock me (upd_task t (\<lambda>x. x\<lparr>delete_safe_count := ?c - 1\<rparr>) v1))"
    using v1 self cnt assms(5,7) susp by (simp add: taskUnsafe_def G Let_def tcb_upd_field)
  moreover have "delete_safe_count (tcb (taskUnlock me
      (upd_task t (\<lambda>x. x\<lparr>delete_safe_count := ?c - 1\<rparr>) v1)) t) = min c 2147483646"
    using dom' by (simp add: G del: domIff)
  moreover have "task_list (set_errno me S_objLib_OBJ_UNAVAILABLE (taskUnlock me v1)) = task_list w"
    by (simp add: G w'_def F)
  moreover have "errno (set_errno me S_objLib_OBJ_UNAVAILABLE (taskUnlock me v1)) me
      = S_objLib_OBJ_UNAVAILABLE"
    by simp
  ultimately show ?thesis using safe cnt by blast
qed

theorem taskSafe_taskUnsafe_witness:
  "\<exists>w' w''. taskSafe 7 two_tasks = Done (OK, w') \<and> delete_safe_count (tcb w' 100) = 1
     \<and> taskUnsafe 7 w' = Done (Ret OK, w'') \<and> delete_safe_count (tcb w'' 100) = 0"
  using taskSafe_taskUnsafe [OF two_tasks_inv, of 7 100 0] by (auto simp: zero_task_def)

lemma my_task_unique:
  assumes "task_inv w" and "t \<in> set (task_list w)" and "pthrid (tcb w t) = me" and "me \<noteq> 0"
  shows "my_task me w = t"
proof -
  obtain u where u: "find (\<lambda>t. me = pthrid (tcb w t)) (task_list w) = Some u"
    using assms(2,3) find_None_notin [of "\<lambda>t. me = pthrid (tcb w t)" "task_list w"] by fastforce
  with assms show ?thesis
    by (auto simp: my_task_def task_inv_def dest!: find_Some_in)
qed

text \<open>C25. \<^verbatim>\<open>taskPrioritySet\<close> then \<^verbatim>\<open>taskPriorityGet\<close> is a round trip, also for an illegal
  priority: the call reports \<^verbatim>\<open>ERROR\<close> and \<^verbatim>\<open>S_taskLib_ILLEGAL_PRIORITY\<close> then, but the control
  block has taken the value. For a task other than the caller the thread is rescheduled at
  the translated priority at once.\<close>

theorem taskPrioritySet_Get:
  assumes "task_inv w" and "me \<noteq> 0" and "locker w = 0" and "task_for me tid w = t" and "t \<noteq> NULL"
  shows "\<exists>r w'. taskPrioritySet me tid pri w = Done (r, w')
     \<and> (r = OK \<longleftrightarrow> 0 \<le> pri \<and> pri \<le> 255)
     \<and> (r \<noteq> OK \<longrightarrow> errno w' me = S_taskLib_ILLEGAL_PRIORITY)
     \<and> (\<exists>w''. taskPriorityGet me tid w' = Done (OK, Some pri, w''))
     \<and> (tid \<noteq> 0 \<and> t \<noteq> my_task me w \<longrightarrow>
          thr_sched w' (pthrid (tcb w t)) = Some (attr_policy (tcb w t),
            fst (translate_priority w pri (attr_policy (tcb w t)) OK)))"
proof -
  obtain w1 where w1: "taskLock me w = Done w1" using assms(3) taskLock_Done_iff by blast
  note F = taskLock_frame [OF w1] taskLock_fields [OF w1] taskLock_task_for [OF w1]
  obtain np e where tr: "translate_priority w1 pri (attr_policy (tcb w1 t)) OK = (np, e)"
    by (meson surj_pair)
  have e: "e = (if 0 \<le> pri \<and> pri \<le> 255 then OK else S_taskLib_ILLEGAL_PRIORITY)"
    using translate_priority_legal [of pri w1 "attr_policy (tcb w1 t)" OK]
      translate_priority_illegal [of pri w1 "attr_policy (tcb w1 t)" OK] tr by auto
  have np: "np = fst (translate_priority w pri (attr_policy (tcb w t)) OK)"
    using tr by (simp add: translate_priority_def Let_def F)
  define w2 where "w2 = upd_task t (\<lambda>x. x\<lparr>vxw_priority := pri, prv_priority := np\<rparr>) w1"
  define w3 where "w3 = (if tid \<noteq> 0 \<and> t \<noteq> my_task me w2 then set_sched t np w2 else w2)"
  define w4 where "w4 = (if e \<noteq> OK then set_errno me e (taskUnlock me w3) else taskUnlock me w3)"
  have set: "taskPrioritySet me tid pri w = Done (if e = OK then OK else ERROR, w4)"
    using w1 assms(4,5) tr
    by (simp add: taskPrioritySet_def F w4_def w3_def w2_def finish_def Let_def)
  have t: "t \<in> dom (tasks w1)"
    using assms(1,4,5) task_for_dom [of w me tid] by (simp add: F task_inv_def del: domIff)
  have pri: "vxw_priority (tcb w4 t) = pri"
    using t by (simp add: w4_def w3_def w2_def tcb_set_sched_field)
  have find: "task_for me tid w4 = t"
    using assms(4) by (subst task_for_eqI [of w4 w])
      (simp_all add: w4_def w3_def w2_def F tcb_set_sched_field tcb_upd_field)
  have "locker (taskUnlock me w3) = 0"
    using assms(1-3) lock_balanced(1) [OF w1, of w3]
    by (simp add: w3_def w2_def task_inv_def lock_wf_def)
  then have "locker w4 = 0" by (simp add: w4_def)
  then obtain v where v: "taskLock me w4 = Done v" using taskLock_Done_iff by blast
  have get: "taskPriorityGet me tid w4 = Done (OK, Some pri, taskUnlock me v)"
    using v find pri assms(5) taskLock_task_for [OF v] taskLock_fields [OF v]
    by (simp add: taskPriorityGet_def)
  have "thr_sched w4 (pthrid (tcb w t)) = Some (attr_policy (tcb w t), np)"
    if "tid \<noteq> 0" "t \<noteq> my_task me w"
  proof -
    have "pthrid (tcb w t) \<noteq> me"
      using my_task_unique [OF assms(1), of t me] assms(2,4,5) task_for_in [of me tid w] that(2) by auto
    then show ?thesis
      using that by (simp add: w4_def w3_def w2_def F thr_sched_taskUnlock_other set_sched_def tcb_upd_field)
  qed
  with set get e np show ?thesis
    by (intro exI [of _ "if e = OK then OK else ERROR"] exI [of _ w4])
      (auto simp: w4_def vxw_codes)
qed

theorem taskPrioritySet_Get_witness:
  "\<exists>r w'. taskPrioritySet 7 2 300 two_tasks = Done (r, w') \<and> r \<noteq> OK
     \<and> errno w' 7 = S_taskLib_ILLEGAL_PRIORITY
     \<and> (\<exists>w''. taskPriorityGet 7 2 w' = Done (OK, Some 300, w''))"
  using taskPrioritySet_Get [OF two_tasks_inv, of 7 2 200 300] by (auto simp: zero_task_def)

end
