(* ===== verification/Sem_Lib.thy ===== *)
theory Sem_Lib
  imports Task_Lib
begin

text \<open>
  The semaphores of \<^verbatim>\<open>lib/lsemLib.c\<close>: creation, \<^verbatim>\<open>semGive\<close>, \<^verbatim>\<open>semTake\<close>, \<^verbatim>\<open>semFlush\<close> and
  \<^verbatim>\<open>semDelete\<close>.

  Every function works under the mutex \<open>sem_lock\<close> of the semaphore, from \<^verbatim>\<open>sem_find_lock\<close>
  to its return or to the next point where it gives the mutex away, and is one atomic
  definition between these points. \<^verbatim>\<open>semTake\<close> has two such points, the wait on the
  condition variable \<open>sem_send\<close> and the \<^verbatim>\<open>taskDelay(1)\<close> inside \<^verbatim>\<open>waiting_on_sem\<close>; its local
  variables at these points are a \<open>take_frame\<close>. A wait on the condition variable can end at
  any moment, as POSIX allows, so broadcasts need no state of their own. The field
  \<open>sem_lock\<close> of a control block is not 0 only when a call has returned with the mutex
  still locked.
\<close>


section \<open>Constants and lookup\<close>

definition SEM_OPT_MASK :: "32 word" where [vxw_codes]: "SEM_OPT_MASK = 0x0f"
definition SEM_TYPE_MASK :: "32 word" where [vxw_codes]: "SEM_TYPE_MASK = 0xf0"
definition BINARY_SEMA4 :: "32 word" where [vxw_codes]: "BINARY_SEMA4 = 0x00"
definition MUTEX_SEMA4 :: "32 word" where [vxw_codes]: "MUTEX_SEMA4 = 0x10"
definition COUNTING_SEMA4 :: "32 word" where [vxw_codes]: "COUNTING_SEMA4 = 0x20"
definition SEND :: "32 word" where [vxw_codes]: "SEND = 0"
definition FLUSH :: "32 word" where [vxw_codes]: "FLUSH = 1"
definition KILLD :: "32 word" where [vxw_codes]: "KILLD = 2"

text \<open>\<open>pthread_mutex_lock\<close> on \<open>sem_lock\<close> blocks for its own holder too: the mutex is not
  recursive.\<close>

definition sem_find_lock :: "addr \<Rightarrow> world \<Rightarrow> bool outcome" where
  "sem_find_lock sem w =
     (if sem \<in> set (sem_list w)
      then (if sem_lock (smcb w sem) = 0 then Done True else Blocked)
      else Done False)"

definition link_smcb :: "addr \<Rightarrow> world \<Rightarrow> world" where
  "link_smcb new_sem w = w\<lparr>sem_list := sem_list w @ [new_sem]\<rparr>"

definition unlink_smcb :: "addr \<Rightarrow> world \<Rightarrow> world" where
  "unlink_smcb smid w = w\<lparr>sem_list := remove1 smid (sem_list w)\<rparr>"

definition is_mutex :: "v2lsem_t \<Rightarrow> bool" where
  "is_mutex s \<longleftrightarrow> sem_flags s AND SEM_TYPE_MASK = MUTEX_SEMA4"

definition killed_or_flushed :: "v2lsem_t \<Rightarrow> bool" where
  "killed_or_flushed s \<longleftrightarrow> send_type s AND KILLD \<noteq> 0 \<or> send_type s AND FLUSH \<noteq> 0"


section \<open>Creation\<close>

text \<open>\<open>blk\<close> is the block \<open>malloc\<close> returned, 0 when it failed. The result is the address
  of the semaphore.\<close>

definition new_sem :: "int \<Rightarrow> v2lsem_t" where
  "new_sem count = zero_sem\<lparr>token_count := count, send_type := SEND, recursion_level := 0,
     current_owner := NULL, sem_first_susp := []\<rparr>"

definition unsupported :: "32 word \<Rightarrow> bool" where
  "unsupported opt \<longleftrightarrow> opt AND SEM_Q_PRIORITY \<noteq> 0 \<or> opt AND SEM_DELETE_SAFE \<noteq> 0
     \<or> opt AND SEM_INVERSION_SAFE \<noteq> 0"

definition semBCreate :: "pthread \<Rightarrow> 32 word \<Rightarrow> int \<Rightarrow> addr \<Rightarrow> world \<Rightarrow> addr \<times> world" where
  "semBCreate me opt initial_state blk w =
     (if unsupported opt then (NULL, set_errno me ENOSYS w)
      else
        let semaphore = (if initial_state = 0 then new_sem 0 else new_sem 1)
        in if blk = NULL then (NULL, w)
           else (blk, link_smcb blk (w\<lparr>sems := (sems w)(blk \<mapsto>
             semaphore\<lparr>sem_flags := (opt AND SEM_Q_PRIORITY) OR BINARY_SEMA4\<rparr>)\<rparr>)))"

definition semCCreate :: "pthread \<Rightarrow> 32 word \<Rightarrow> int \<Rightarrow> addr \<Rightarrow> world \<Rightarrow> addr \<times> world" where
  "semCCreate me opt initial_count blk w =
     (if unsupported opt then (NULL, set_errno me ENOSYS w)
      else if blk = NULL then (NULL, w)
      else (blk, link_smcb blk (w\<lparr>sems := (sems w)(blk \<mapsto>
             (new_sem initial_count)\<lparr>sem_flags := (opt AND SEM_Q_PRIORITY) OR COUNTING_SEMA4\<rparr>)\<rparr>)))"

definition semMCreate :: "pthread \<Rightarrow> 32 word \<Rightarrow> addr \<Rightarrow> world \<Rightarrow> addr \<times> world" where
  "semMCreate me opt blk w =
     (if unsupported opt then (NULL, set_errno me ENOSYS w)
      else if blk = NULL then (NULL, w)
      else (blk, link_smcb blk (w\<lparr>sems := (sems w)(blk \<mapsto>
             (new_sem 1)\<lparr>sem_flags := (opt AND SEM_OPT_MASK) OR MUTEX_SEMA4\<rparr>)\<rparr>)))"


section \<open>Deletion and flush\<close>

text \<open>With tasks waiting, both calls mark the semaphore and sleep, with the scheduler locked,
  until the last waiting task has left; the definitions with suffix \<open>_resume\<close> are the rest
  of the calls.\<close>

definition free_sem :: "addr \<Rightarrow> world \<Rightarrow> world" where
  "free_sem semaphore w =
     (unlink_smcb semaphore w)\<lparr>sems := (sems w)(semaphore := None)\<rparr>"

definition semDelete :: "pthread \<Rightarrow> addr \<Rightarrow> world \<Rightarrow> (int call \<times> world) outcome" where
  "semDelete me semaphore w =
     obind (sem_find_lock semaphore w) (\<lambda>found.
       if \<not> found then ret_status me S_objLib_OBJ_ID_ERROR w
       else obind (taskLock me w) (\<lambda>w1.
         if sem_first_susp (smcb w1 semaphore) \<noteq> []
         then Done (Parked, upd_sem semaphore (\<lambda>s. s\<lparr>send_type := KILLD\<rparr>) w1)
         else ret_status me OK (taskUnlock me (free_sem semaphore w1))))"

definition semDelete_resume :: "pthread \<Rightarrow> addr \<Rightarrow> world \<Rightarrow> (int call \<times> world) outcome" where
  "semDelete_resume me semaphore w =
     (if sem_first_susp (smcb w semaphore) \<noteq> [] then Done (Parked, w)
      else ret_status me OK (taskUnlock me (free_sem semaphore w)))"

definition semFlush :: "pthread \<Rightarrow> addr \<Rightarrow> world \<Rightarrow> (int call \<times> world) outcome" where
  "semFlush me semaphore w =
     obind (sem_find_lock semaphore w) (\<lambda>found.
       if \<not> found then ret_status me S_objLib_OBJ_ID_ERROR w
       else if is_mutex (smcb w semaphore) then ret_status me S_semLib_INVALID_OPERATION w
       else obind (taskLock me w) (\<lambda>w1.
         if sem_first_susp (smcb w1 semaphore) \<noteq> []
         then Done (Parked, upd_sem semaphore (\<lambda>s. s\<lparr>send_type := FLUSH\<rparr>) w1)
         else ret_status me OK
                (taskUnlock me (upd_sem semaphore (\<lambda>s. s\<lparr>sem_lock := me\<rparr>) w1))))"

definition semFlush_resume :: "pthread \<Rightarrow> addr \<Rightarrow> world \<Rightarrow> (int call \<times> world) outcome" where
  "semFlush_resume me semaphore w =
     (if sem_first_susp (smcb w semaphore) \<noteq> [] then Done (Parked, w)
      else ret_status me OK (taskUnlock me w))"


section \<open>Giving\<close>

text \<open>What \<^verbatim>\<open>semGive\<close> does after the last level of a mutex is given up.\<close>

definition give_tail :: "pthread \<Rightarrow> addr \<Rightarrow> world \<Rightarrow> (int call \<times> world) outcome" where
  "give_tail me semaphore w2 =
     obind (if sem_flags (smcb w2 semaphore) AND SEM_DELETE_SAFE \<noteq> 0
            then taskUnsafe me w2 else Done (Ret OK, w2)) (\<lambda>(c, w3).
       case c of
         Parked \<Rightarrow> Done (Parked, w3)
       | Ret _ \<Rightarrow>
           obind (if sem_flags (smcb w3 semaphore) AND SEM_INVERSION_SAFE \<noteq> 0
                  then obind (taskLock me w3) (\<lambda>w4. Done (taskUnlock me w4))
                  else Done w3) (\<lambda>w5. ret_status me OK w5))"

definition semGive :: "pthread \<Rightarrow> addr \<Rightarrow> world \<Rightarrow> (int call \<times> world) outcome" where
  "semGive me semaphore w =
     (let our_task = my_task me w in
      obind (sem_find_lock semaphore w) (\<lambda>found.
        if \<not> found then ret_status me S_objLib_OBJ_ID_ERROR w
        else if is_mutex (smcb w semaphore) \<and> current_owner (smcb w semaphore) \<noteq> our_task
        then ret_status me S_semLib_INVALID_OPERATION w
        else if recursion_level (smcb w semaphore) > 0 then
          let w1 = upd_sem semaphore (\<lambda>s. s\<lparr>recursion_level := recursion_level s - 1\<rparr>) w in
          if recursion_level (smcb w1 semaphore) = 0 then
            let w2 = upd_sem semaphore
                       (\<lambda>s. s\<lparr>token_count := s32 (token_count s + 1), current_owner := NULL\<rparr>) w1
            in give_tail me semaphore w2
          else ret_status me OK w1
        else ret_status me OK
               (upd_sem semaphore (\<lambda>s. s\<lparr>token_count := s32 (token_count s + 1)\<rparr>) w)))"


section \<open>Taking\<close>

text \<open>\<open>struct timespec\<close> and \<open>struct timeval\<close> as pairs (seconds and nanoseconds, seconds
  and microseconds).\<close>

type_synonym timespec = "int \<times> int"
type_synonym timeval = "int \<times> int"

definition time_expired :: "timespec \<Rightarrow> timeval \<Rightarrow> bool" where
  "time_expired timeout now =
     (if fst timeout < fst now then True
      else if fst timeout > fst now then False
      else snd timeout \<le> snd now * 1000)"

definition sem_deadline :: "int \<Rightarrow> timeval \<Rightarrow> timespec" where
  "sem_deadline max_wait now =
     (let usec = s32 (s32 (max_wait * V2PT_TICK) * 1000) + snd now;
          sec = (if usec > 1000000 then usec div 1000000 else 0);
          usec' = (if usec > 1000000 then usec mod 1000000 else usec)
      in (fst now + sec, usec' * 1000))"

text \<open>The local variables of \<^verbatim>\<open>semTake\<close> and \<^verbatim>\<open>wait_for_token\<close> at a point where the call
  sleeps.\<close>

record take_frame =
  tf_sem :: addr
  tf_task :: addr
  tf_wait :: int
  tf_timeout :: "timespec option"
  tf_retcode :: int

datatype take = Returned int | AtCond take_frame | AtDelay take_frame

text \<open>One evaluation of \<^verbatim>\<open>waiting_on_sem\<close>: the waiting is over (result 0), there is no token
  (result 1), or there is a token for another task and the caller sleeps for a tick.
  \<open>token_loop\<close> is the body of its \<open>while\<close>, which the call goes back to after that
  sleep.\<close>

datatype poll = Over | Still | NotOurs

definition token_loop :: "pthread \<Rightarrow> addr \<Rightarrow> world \<Rightarrow> poll \<times> world" where
  "token_loop me semaphore w =
     (if token_count (smcb w semaphore) > 0 then
        if signal_for_my_task me (SemSusp semaphore)
             (uint (sem_flags (smcb w semaphore) AND SEM_Q_PRIORITY)) w
        then (Over, upd_sem semaphore (\<lambda>s. s\<lparr>token_count := token_count s - 1\<rparr>) w)
        else (NotOurs, w)
      else (Still, w))"

definition waiting_on_sem :: "pthread \<Rightarrow> addr \<Rightarrow> world \<Rightarrow> poll \<times> world" where
  "waiting_on_sem me semaphore w =
     (if killed_or_flushed (smcb w semaphore) then (Over, w) else token_loop me semaphore w)"

definition priority_inversion :: "pthread \<Rightarrow> addr \<Rightarrow> addr \<Rightarrow> world \<Rightarrow> world outcome" where
  "priority_inversion me semaphore our_task w =
     obind (taskLock me w) (\<lambda>w1.
       if our_task = NULL then Crashed
       else
         let my_priority = prv_priority (tcb w1 our_task);
             task = current_owner (smcb w1 semaphore);
             owners_priority = prv_priority (tcb w1 task);
             w2 = (if owners_priority < my_priority then set_sched task my_priority w1 else w1)
         in Done (taskUnlock me w2))"

text \<open>The end of \<^verbatim>\<open>semTake\<close>.\<close>

definition take_return :: "pthread \<Rightarrow> addr \<Rightarrow> int \<Rightarrow> world \<Rightarrow> (take \<times> world) outcome" where
  "take_return me our_task error w =
     (let w1 = (if our_task \<noteq> NULL then upd_task our_task (\<lambda>t. t\<lparr>waiting := NULL\<rparr>) w else w)
      in obind (finish me error w1) (\<lambda>(r, w2). Done (Returned r, w2)))"

text \<open>The part of \<^verbatim>\<open>wait_for_token\<close> after its loop, with the end of \<^verbatim>\<open>semTake\<close>.\<close>

definition take_error :: "int \<Rightarrow> int \<Rightarrow> int" where
  "take_error max_wait retcode =
     (if max_wait = NO_WAIT
      then (if retcode \<noteq> 0 \<and> retcode \<noteq> ETIMEDOUT then S_objLib_OBJ_UNAVAILABLE else OK)
      else (if retcode = ETIMEDOUT then S_objLib_OBJ_TIMEOUT else OK))"

definition take_exit :: "pthread \<Rightarrow> take_frame \<Rightarrow> world \<Rightarrow> (take \<times> world) outcome" where
  "take_exit me fr w =
     (let s = tf_sem fr; our_task = tf_task fr;
          error = take_error (tf_wait fr) (tf_retcode fr);
          w1 = unlink_susp_task (SemSusp s) our_task w
      in if killed_or_flushed (smcb w1 s) then
           let error' = (if send_type (smcb w1 s) AND KILLD \<noteq> 0 then S_objLib_OBJ_ID_ERROR else error);
               w2 = (if sem_first_susp (smcb w1 s) = []
                     then upd_sem s (\<lambda>x. x\<lparr>send_type := SEND\<rparr>) w1 else w1)
           in take_return me our_task error' w2
         else if tf_retcode fr = OK then
           let w2 = upd_sem s (\<lambda>x. x\<lparr>current_owner := our_task\<rparr>) w1 in
           if is_mutex (smcb w2 s) then
             let w3 = upd_sem s (\<lambda>x. x\<lparr>current_owner := our_task,
                                     recursion_level := s32 (recursion_level x + 1)\<rparr>) w2
             in obind (if sem_flags (smcb w3 s) AND SEM_DELETE_SAFE \<noteq> 0
                       then taskSafe me w3 else Done (OK, w3)) (\<lambda>(_, w4).
                  take_return me our_task error w4)
           else take_return me our_task error w2
         else take_return me our_task error w1)"

text \<open>What the loop does with the answer of \<^verbatim>\<open>waiting_on_sem\<close>.\<close>

definition take_poll :: "pthread \<Rightarrow> take_frame \<Rightarrow> poll \<times> world \<Rightarrow> (take \<times> world) outcome" where
  "take_poll me fr pw =
     (case pw of
        (Over, w) \<Rightarrow> take_exit me (fr\<lparr>tf_retcode := 0\<rparr>) w
      | (NotOurs, w) \<Rightarrow> Done (AtDelay fr, taskDelay_begin me w)
      | (Still, w) \<Rightarrow>
          if tf_timeout fr \<noteq> None \<and> tf_retcode fr = ETIMEDOUT then take_exit me fr w
          else Done (AtCond fr, w))"

definition wait_for_token ::
  "pthread \<Rightarrow> addr \<Rightarrow> int \<Rightarrow> addr \<Rightarrow> timeval \<Rightarrow> world \<Rightarrow> (take \<times> world) outcome" where
  "wait_for_token me semaphore max_wait our_task now w =
     (let w1 = link_susp_task (SemSusp semaphore) our_task w;
          fr = \<lparr>tf_sem = semaphore, tf_task = our_task, tf_wait = max_wait, tf_timeout = None,
                tf_retcode = 0\<rparr>
      in if max_wait = NO_WAIT then
           take_poll me (fr\<lparr>tf_timeout := Some (fst now, snd now * 1000)\<rparr>) (waiting_on_sem me semaphore w1)
         else
           obind (if sem_flags (smcb w1 semaphore) AND SEM_INVERSION_SAFE \<noteq> 0
                     \<and> current_owner (smcb w1 semaphore) \<noteq> NULL
                  then priority_inversion me semaphore our_task w1 else Done w1) (\<lambda>w2.
             if max_wait = WAIT_FOREVER
             then take_poll me fr (waiting_on_sem me semaphore w2)
             else take_poll me (fr\<lparr>tf_timeout := Some (sem_deadline max_wait now)\<rparr>)
                    (waiting_on_sem me semaphore w2)))"

definition semTake :: "pthread \<Rightarrow> addr \<Rightarrow> int \<Rightarrow> timeval \<Rightarrow> world \<Rightarrow> (take \<times> world) outcome" where
  "semTake me semaphore max_wait now w =
     obind (sem_find_lock semaphore w) (\<lambda>found.
       if \<not> found
       then obind (finish me S_objLib_OBJ_ID_ERROR w) (\<lambda>(r, w'). Done (Returned r, w'))
       else
         let our_task = my_task me w;
             w1 = (if our_task \<noteq> NULL then upd_task our_task (\<lambda>t. t\<lparr>waiting := semaphore\<rparr>) w else w)
         in if is_mutex (smcb w1 semaphore) \<and> current_owner (smcb w1 semaphore) = our_task
            then take_return me our_task OK
                   (upd_sem semaphore (\<lambda>s. s\<lparr>recursion_level := s32 (recursion_level s + 1)\<rparr>) w1)
            else wait_for_token me semaphore max_wait our_task now w1)"

text \<open>The call goes on when the condition wait returns \<open>rc\<close>, or when the tick is over, with
  \<open>sem_lock\<close> taken again. A control block that was freed meanwhile is not there to read.\<close>

definition semTake_wake :: "pthread \<Rightarrow> int \<Rightarrow> take_frame \<Rightarrow> world \<Rightarrow> (take \<times> world) outcome" where
  "semTake_wake me rc fr w =
     (if sems w (tf_sem fr) = None then Crashed
      else if sem_lock (smcb w (tf_sem fr)) \<noteq> 0 then Blocked
      else
        let fr' = (if tf_timeout fr = None then fr else fr\<lparr>tf_retcode := rc\<rparr>)
        in take_poll me fr' (waiting_on_sem me (tf_sem fr) w))"

definition semTake_tick :: "pthread \<Rightarrow> timeval \<Rightarrow> take_frame \<Rightarrow> world \<Rightarrow> (take \<times> world) outcome" where
  "semTake_tick me now fr w =
     (let w1 = taskDelay_end (my_task me w) w in
      if sems w1 (tf_sem fr) = None then Crashed
      else if sem_lock (smcb w1 (tf_sem fr)) \<noteq> 0 then Blocked
      else if (case tf_timeout fr of None \<Rightarrow> False | Some timeout \<Rightarrow> time_expired timeout now)
      then take_poll me fr (Still, w1)
      else take_poll me fr (token_loop me (tf_sem fr) w1))"

section \<open>The list of semaphores\<close>

interpretation sem_registry: registry sem_list link_smcb unlink_smcb "\<lambda>s w. sem_find_lock s w \<noteq> Done False"
  by unfold_locales (auto simp: link_smcb_def unlink_smcb_def sem_find_lock_def)

lemma sem_find_lock_Done:
  "sem_find_lock s w = Done b \<longleftrightarrow>
     (b \<and> s \<in> set (sem_list w) \<and> sem_lock (smcb w s) = 0) \<or> (\<not> b \<and> s \<notin> set (sem_list w))"
  by (auto simp: sem_find_lock_def)


section \<open>Lemmas: mutual exclusion\<close>

text \<open>The invariant of a mutex semaphore: at most one of its token and its ownership exists,
  it has an owner exactly while it is taken, and it is never flushed. \<open>guar m\<close> says what a
  call by the task \<open>m\<close> may do to a semaphore: keep the invariant, and leave a mutex that
  another task owns as it is.\<close>

definition mutex_ok :: "v2lsem_t \<Rightarrow> bool" where
  "mutex_ok v \<longleftrightarrow> (is_mutex v \<longrightarrow> 0 \<le> token_count v \<and> 0 \<le> recursion_level v
     \<and> token_count v + (if recursion_level v > 0 then 1 else 0) \<le> 1
     \<and> (recursion_level v = 0 \<longleftrightarrow> current_owner v = NULL) \<and> send_type v AND FLUSH = 0)"

definition guar :: "addr \<Rightarrow> v2lsem_t \<Rightarrow> v2lsem_t \<Rightarrow> bool" where
  "guar m v v' \<longleftrightarrow> (mutex_ok v \<longrightarrow> mutex_ok v' \<and> (is_mutex v' \<longleftrightarrow> is_mutex v)
     \<and> (is_mutex v \<and> 0 < recursion_level v \<and> current_owner v \<noteq> m \<longrightarrow>
          current_owner v' = current_owner v \<and> recursion_level v' = recursion_level v))"

definition sems_guar :: "addr \<Rightarrow> world \<Rightarrow> world \<Rightarrow> bool" where
  "sems_guar m w w' \<longleftrightarrow> dom (sems w') = dom (sems w)
     \<and> (\<forall>s \<in> dom (sems w). guar m (smcb w s) (smcb w' s))"

lemma guar_trans: "guar m a b \<Longrightarrow> guar m b c \<Longrightarrow> guar m a c"
  by (auto simp: guar_def)

lemma guar_fields [simp]:
  "guar m v v" "guar m v (v\<lparr>sem_first_susp := xs\<rparr>)" "guar m v (v\<lparr>sem_lock := l\<rparr>)"
  by (auto simp: guar_def mutex_ok_def is_mutex_def)

lemma sems_guar_same: "sems w' = sems w \<Longrightarrow> sems_guar m w w'"
  by (simp add: sems_guar_def smcb_def)

lemma sems_guar_trans [trans]: "sems_guar m a b \<Longrightarrow> sems_guar m b c \<Longrightarrow> sems_guar m a c"
  unfolding sems_guar_def by (metis guar_trans)

lemma sems_guar_upd: "guar m (smcb w s) (f (smcb w s)) \<Longrightarrow> sems_guar m w (upd_sem s f w)"
  unfolding sems_guar_def
  by (intro conjI ballI) (metis dom_upd_sem, metis guar_fields(1) smcb_upd_other smcb_upd_same)

lemma sems_guar_eq: "sems w' = sems w1 \<Longrightarrow> sems_guar m w w1 \<Longrightarrow> sems_guar m w w'"
  using sems_guar_same sems_guar_trans by blast

lemma sems_guar_via:
  "sems w' = sems (upd_sem s f w1) \<Longrightarrow> sems_guar m w w1 \<Longrightarrow> guar m (smcb w1 s) (f (smcb w1 s)) \<Longrightarrow>
     sems_guar m w w'"
  using sems_guar_upd sems_guar_trans sems_guar_eq by metis

lemma sems_guar_upd_task [simp]: "sems_guar m w (upd_task a f w)"
  by (rule sems_guar_same) simp

lemma sems_guar_susp:
  "sems_guar m w (link_susp_task (SemSusp s) t w)" "sems_guar m w (unlink_susp_task (SemSusp s) t w)"
  unfolding link_susp_task_def unlink_susp_task_def
  by (auto intro: sems_guar_same [OF refl] intro!: sems_guar_trans [OF sems_guar_upd sems_guar_upd_task])

text \<open>The operations of the task library leave the semaphores alone.\<close>

lemma sems_taskSafe: "taskSafe me w = Done (r, w') \<Longrightarrow> sems w' = sems w"
  by (auto simp: taskSafe_def obind_Done_iff Let_def taskLock_frame split: if_split_asm)

lemma sems_taskUnsafe: "taskUnsafe me w = Done (r, w') \<Longrightarrow> sems w' = sems w"
  by (auto simp: taskUnsafe_def outcome_simps Let_def taskLock_frame split: if_split_asm)

lemma sems_finish:
  "finish me e w = Done (r, w') \<Longrightarrow> sems w' = sems w"
  "ret_status me e w = Done (c, w') \<Longrightarrow> sems w' = sems w"
  by (auto simp: finish_Done ret_status_Done)

lemma sems_take_return: "take_return me t e w = Done (r, w') \<Longrightarrow> sems w' = sems w"
  by (auto simp: take_return_def obind_Done_iff Let_def dest!: sems_finish split: if_split_asm)

lemma sems_priority_inversion: "priority_inversion me s t w = Done w' \<Longrightarrow> sems w' = sems w"
  by (auto simp: priority_inversion_def obind_Done_iff Let_def taskLock_frame split: if_split_asm)

lemma sems_taskDelay [simp]: "sems (taskDelay_begin me w) = sems w" "sems (taskDelay_end t w) = sems w"
  by (simp_all add: taskDelay_begin_def taskDelay_end_def Let_def)

lemma sems_guar_token:
  assumes "token_loop me s w = (p, w')"
  shows "sems_guar m w w'"
proof -
  have "guar m (smcb w s) (smcb w s\<lparr>token_count := token_count (smcb w s) - 1\<rparr>)"
    if "0 < token_count (smcb w s)"
    using that by (auto simp: guar_def mutex_ok_def is_mutex_def)
  then show ?thesis
    using assms by (auto simp: token_loop_def intro: sems_guar_same [OF refl] sems_guar_upd
        split: if_split_asm)
qed

lemma smcb_upd_field: "(\<And>x. F (f x) = F x) \<Longrightarrow> F (smcb (upd_sem a f w) t) = F (smcb w t)"
  by (cases "a = t"; cases "sems w t") (auto simp: smcb_def upd_sem_def)

lemma upd_sem_comp: "upd_sem s f (upd_sem s g w) = upd_sem s (\<lambda>x. f (g x)) w"
  by (simp add: upd_sem_def option.map_comp o_def)

lemma smcb_susp_field:
  assumes "\<And>x xs. F (x\<lparr>sem_first_susp := xs\<rparr>) = F x"
  shows "F (smcb (link_susp_task h t w) s) = F (smcb w s)"
    and "F (smcb (unlink_susp_task h t w) s) = F (smcb w s)"
  using assms by (cases h; simp add: link_susp_task_def unlink_susp_task_def smcb_upd_field)+

lemma smcb_susp_fields [simp]:
  "token_count (smcb (link_susp_task h t w) s) = token_count (smcb w s)"
  "token_count (smcb (unlink_susp_task h t w) s) = token_count (smcb w s)"
  "recursion_level (smcb (link_susp_task h t w) s) = recursion_level (smcb w s)"
  "recursion_level (smcb (unlink_susp_task h t w) s) = recursion_level (smcb w s)"
  "current_owner (smcb (link_susp_task h t w) s) = current_owner (smcb w s)"
  "current_owner (smcb (unlink_susp_task h t w) s) = current_owner (smcb w s)"
  "send_type (smcb (link_susp_task h t w) s) = send_type (smcb w s)"
  "send_type (smcb (unlink_susp_task h t w) s) = send_type (smcb w s)"
  "sem_flags (smcb (link_susp_task h t w) s) = sem_flags (smcb w s)"
  "sem_flags (smcb (unlink_susp_task h t w) s) = sem_flags (smcb w s)"
  "sem_lock (smcb (link_susp_task h t w) s) = sem_lock (smcb w s)"
  "sem_lock (smcb (unlink_susp_task h t w) s) = sem_lock (smcb w s)"
  "is_mutex (smcb (link_susp_task h t w) s) = is_mutex (smcb w s)"
  "is_mutex (smcb (unlink_susp_task h t w) s) = is_mutex (smcb w s)"
  "killed_or_flushed (smcb (link_susp_task h t w) s) = killed_or_flushed (smcb w s)"
  "killed_or_flushed (smcb (unlink_susp_task h t w) s) = killed_or_flushed (smcb w s)"
  by (simp_all add: smcb_susp_field is_mutex_def killed_or_flushed_def)

text \<open>When the waiting ends with a token, a mutex was free and its token is now gone; that
  is what lets the end of the call make the caller the owner.\<close>

lemma guar_own:
  assumes "mutex_ok v" and "is_mutex v" and "recursion_level v = 0" and "token_count v = 0" and "t \<noteq> NULL"
  shows "guar m v (v\<lparr>current_owner := t, recursion_level := s32 (recursion_level v + 1)\<rparr>)"
  using assms by (auto simp: guar_def mutex_ok_def is_mutex_def s32_def)

lemma take_exit_guar:
  assumes "take_exit me fr w = Done (r, w')" and "tf_task fr \<noteq> NULL"
    and tok: "tf_retcode fr = OK \<Longrightarrow> \<not> killed_or_flushed (smcb w (tf_sem fr)) \<Longrightarrow>
      is_mutex (smcb w (tf_sem fr)) \<Longrightarrow> token_count (smcb w (tf_sem fr)) = 0
        \<and> recursion_level (smcb w (tf_sem fr)) = 0"
  shows "sems_guar m w w'"
proof -
  let ?s = "tf_sem fr" and ?t = "tf_task fr"
  let ?w1 = "unlink_susp_task (SemSusp ?s) ?t w"
  have u: "sems_guar m w ?w1" by (rule sems_guar_susp)
  consider "sems w' = sems ?w1" | "sems w' = sems (upd_sem ?s (\<lambda>x. x\<lparr>send_type := SEND\<rparr>) ?w1)"
    | "\<not> is_mutex (smcb w ?s)" "sems w' = sems (upd_sem ?s (\<lambda>x. x\<lparr>current_owner := ?t\<rparr>) ?w1)"
    | "is_mutex (smcb w ?s)" "tf_retcode fr = OK" "\<not> killed_or_flushed (smcb w ?s)"
      "sems w' = sems (upd_sem ?s (\<lambda>x. x\<lparr>current_owner := ?t,
          recursion_level := s32 (recursion_level x + 1)\<rparr>) ?w1)"
    using assms(1)
    by (auto simp: take_exit_def Let_def upd_sem_comp is_mutex_def smcb_upd_field obind_Done_iff
        dest!: sems_take_return sems_taskSafe split: if_split_asm)
  then show ?thesis
  proof cases
    case 1
    then show ?thesis by (rule sems_guar_eq [OF _ u])
  next
    case 2
    then show ?thesis
      by (rule sems_guar_via [OF _ u]) (auto simp: guar_def mutex_ok_def is_mutex_def SEND_def)
  next
    case 3
    then show ?thesis
      by (intro sems_guar_via [OF 3(2) u]) (auto simp: guar_def mutex_ok_def is_mutex_def)
  next
    case 4
    have "token_count (smcb ?w1 ?s) = 0" "recursion_level (smcb ?w1 ?s) = 0" using tok 4(1-3) by auto
    then have "mutex_ok (smcb ?w1 ?s) \<Longrightarrow> guar m (smcb ?w1 ?s)
        (smcb ?w1 ?s\<lparr>current_owner := ?t, recursion_level := s32 (recursion_level (smcb ?w1 ?s) + 1)\<rparr>)"
      using 4(1) assms(2) by (intro guar_own) simp_all
    then show ?thesis
      by (intro sems_guar_via [OF 4(4) u]) (auto simp: guar_def)
  qed
qed

lemma dom_semI: "smcb w s \<noteq> zero_sem \<Longrightarrow> s \<in> dom (sems w)"
  by (auto simp: smcb_def split: option.split_asm)

lemma token_loop_Over:
  assumes "token_loop me s w = (Over, w1)"
  shows "0 < token_count (smcb w s)" "smcb w1 s = smcb w s\<lparr>token_count := token_count (smcb w s) - 1\<rparr>"
    "is_mutex (smcb w1 s) = is_mutex (smcb w s)"
proof -
  show pos: "0 < token_count (smcb w s)"
    using assms by (auto simp: token_loop_def split: if_split_asm)
  then have "s \<in> dom (sems w)" by (intro dom_semI) (auto simp: zero_sem_def)
  moreover have "w1 = upd_sem s (\<lambda>s. s\<lparr>token_count := token_count s - 1\<rparr>) w"
    using assms by (auto simp: token_loop_def split: if_split_asm)
  ultimately show "smcb w1 s = smcb w s\<lparr>token_count := token_count (smcb w s) - 1\<rparr>"
    by (simp del: domIff)
  then show "is_mutex (smcb w1 s) = is_mutex (smcb w s)" by (simp add: is_mutex_def)
qed

lemma take_poll_guar:
  assumes "take_poll me fr (waiting_on_sem me (tf_sem fr) w) = Done (r, w')
      \<or> take_poll me fr (token_loop me (tf_sem fr) w) = Done (r, w')
      \<or> take_poll me fr (Still, w) = Done (r, w')"
    and "tf_task fr \<noteq> NULL" and ok: "mutex_ok (smcb w (tf_sem fr))"
  shows "sems_guar m w w'"
proof -
  let ?s = "tf_sem fr"
  obtain p w1 where pw: "take_poll me fr (p, w1) = Done (r, w')"
    and w1: "(p = Over \<and> w1 = w \<and> killed_or_flushed (smcb w ?s)) \<or> token_loop me ?s w = (p, w1)
      \<or> (p = Still \<and> w1 = w)"
    using assms(1) by (cases "token_loop me ?s w") (auto simp: waiting_on_sem_def split: if_split_asm)
  have g: "sems_guar m w w1"
    using w1 sems_guar_token sems_guar_same by auto
  have tok: "token_count (smcb w1 ?s) = 0 \<and> recursion_level (smcb w1 ?s) = 0"
    if "p = Over" "\<not> killed_or_flushed (smcb w1 ?s)" "is_mutex (smcb w1 ?s)"
    using w1 that ok token_loop_Over [of me ?s w w1] by (auto simp: mutex_ok_def split: if_split_asm)
  show ?thesis
  proof (cases p)
    case Over
    then have "take_exit me (fr\<lparr>tf_retcode := 0\<rparr>) w1 = Done (r, w')"
      using pw by (simp add: take_poll_def)
    from take_exit_guar [OF this, of m] tok [OF Over] assms(2) g show ?thesis
      using sems_guar_trans by auto
  next
    case Still
    then have "take_exit me fr w1 = Done (r, w') \<and> tf_retcode fr = ETIMEDOUT \<or> w' = w1"
      using pw by (auto simp: take_poll_def split: if_split_asm)
    then show ?thesis
      using take_exit_guar [of me fr w1 r w' m] assms(2) g sems_guar_trans by (auto simp: vxw_codes)
  next
    case NotOurs
    then have "sems w' = sems w1" using pw by (auto simp: take_poll_def)
    then show ?thesis by (rule sems_guar_eq [OF _ g])
  qed
qed

text \<open>Whatever the time limit, \<^verbatim>\<open>wait_for_token\<close> first enters the list and then looks for a
  token.\<close>

lemma wait_for_token_polls:
  assumes "wait_for_token me s n t now w = Done (r, w')"
  shows "\<exists>fr w3. tf_sem fr = s \<and> tf_task fr = t \<and> tf_wait fr = n \<and> tf_retcode fr = 0
     \<and> (w3 = link_susp_task (SemSusp s) t w
        \<or> priority_inversion me s t (link_susp_task (SemSusp s) t w) = Done w3)
     \<and> take_poll me fr (waiting_on_sem me s w3) = Done (r, w')"
proof -
  let ?L = "link_susp_task (SemSusp s) t w"
  define fr where "fr = \<lparr>tf_sem = s, tf_task = t, tf_wait = n,
    tf_timeout = (if n = NO_WAIT then Some (fst now, snd now * 1000)
      else if n = WAIT_FOREVER then None else Some (sem_deadline n now)), tf_retcode = 0\<rparr>"
  define X where "X = (if n \<noteq> NO_WAIT \<and> sem_flags (smcb ?L s) AND SEM_INVERSION_SAFE \<noteq> 0
    \<and> current_owner (smcb ?L s) \<noteq> NULL then priority_inversion me s t ?L else Done ?L)"
  have "wait_for_token me s n t now w = obind X (\<lambda>w2. take_poll me fr (waiting_on_sem me s w2))"
    by (cases "n = NO_WAIT"; cases "n = WAIT_FOREVER")
      (simp_all add: wait_for_token_def X_def fr_def Let_def del: smcb_susp_fields)
  with assms obtain w3 where "X = Done w3" "take_poll me fr (waiting_on_sem me s w3) = Done (r, w')"
    by (auto simp: obind_Done_iff)
  then show ?thesis
    by (intro exI [of _ fr] exI [of _ w3]) (auto simp: X_def fr_def split: if_split_asm)
qed

text \<open>Every call by a task that is not nested deeper than an \<open>int\<close> can count keeps the
  guarantee.\<close>

lemma semTake_guar:
  assumes "semTake me s n now w = Done (r, w')" and task: "my_task me w \<noteq> NULL"
    and ok: "mutex_ok (smcb w s)" and lim: "recursion_level (smcb w s) < 2147483647"
  shows "sems_guar (my_task me w) w w'"
proof -
  let ?t = "my_task me w"
  let ?w1 = "upd_task ?t (\<lambda>t. t\<lparr>waiting := s\<rparr>) w"
  consider "sems w' = sems w"
    | "is_mutex (smcb w s)" "current_owner (smcb w s) = ?t"
      "sems w' = sems (upd_sem s (\<lambda>s. s\<lparr>recursion_level := s32 (recursion_level s + 1)\<rparr>) ?w1)"
    | "wait_for_token me s n ?t now ?w1 = Done (r, w')"
    using assms(1) task
    by (auto simp: semTake_def obind_Done_iff Let_def dest!: sems_finish sems_take_return
        split: if_split_asm)
  then show ?thesis
  proof cases
    case 1
    then show ?thesis by (rule sems_guar_same)
  next
    case 2
    have "s32 (recursion_level (smcb w s) + 1) = recursion_level (smcb w s) + 1"
      if "0 \<le> recursion_level (smcb w s)"
      using lim that by (intro s32_id) (simp add: in_s32_def)
    then show ?thesis
      using task 2(2) by (intro sems_guar_via [OF 2(3), of ?t w])
        (auto simp: guar_def mutex_ok_def is_mutex_def)
  next
    case 3
    let ?w2 = "link_susp_task (SemSusp s) ?t ?w1"
    have g: "sems_guar ?t w ?w2"
      by (rule sems_guar_trans [OF sems_guar_upd_task sems_guar_susp(1)])
    from wait_for_token_polls [OF 3] obtain fr w3 where fr: "tf_sem fr = s" "tf_task fr = ?t"
      and w3: "sems w3 = sems ?w2" and p: "take_poll me fr (waiting_on_sem me s w3) = Done (r, w')"
      using sems_priority_inversion [of me s ?t ?w2] by metis
    have "mutex_ok (smcb ?w2 s)" using ok by (simp add: mutex_ok_def)
    then have "mutex_ok (smcb w3 s)" using smcb_cong [OF w3] by simp
    with p fr task have "sems_guar ?t w3 w'" by (intro take_poll_guar) auto
    with sems_guar_eq [OF w3 g] show ?thesis by (rule sems_guar_trans)
  qed
qed

lemma semTake_wake_guar:
  assumes "semTake_wake me rc fr w = Done (r, w')" and "tf_task fr \<noteq> NULL" and "mutex_ok (smcb w (tf_sem fr))"
  shows "sems_guar m w w'"
proof -
  let ?fr = "if tf_timeout fr = None then fr else fr\<lparr>tf_retcode := rc\<rparr>"
  have "take_poll me ?fr (waiting_on_sem me (tf_sem ?fr) w) = Done (r, w')"
    using assms(1) by (auto simp: semTake_wake_def Let_def split: if_split_asm)
  then show ?thesis using assms(2,3) by (intro take_poll_guar [where fr = ?fr]) auto
qed

lemma semTake_tick_guar:
  assumes "semTake_tick me now fr w = Done (r, w')" and "tf_task fr \<noteq> NULL" and "mutex_ok (smcb w (tf_sem fr))"
  shows "sems_guar m w w'"
proof -
  let ?w = "taskDelay_end (my_task me w) w"
  have "mutex_ok (smcb ?w (tf_sem fr))" using assms(3) smcb_cong [of ?w w] by simp
  moreover have "take_poll me fr (token_loop me (tf_sem fr) ?w) = Done (r, w')
      \<or> take_poll me fr (Still, ?w) = Done (r, w')"
    using assms(1) by (auto simp: semTake_tick_def Let_def split: if_split_asm)
  ultimately have "sems_guar m ?w w'" using assms(2) by (intro take_poll_guar) auto
  moreover have "sems_guar m w ?w" by (rule sems_guar_same) simp
  ultimately show ?thesis using sems_guar_trans by blast
qed

lemma upd_sem_cong: "f (smcb w s) = g (smcb w s) \<Longrightarrow> upd_sem s f w = upd_sem s g w"
  by (cases "sems w s") (simp_all add: upd_sem_def smcb_def)

lemma sems_give_tail: "give_tail me s w = Done (r, w') \<Longrightarrow> sems w' = sems w"
  by (auto simp: give_tail_def outcome_simps taskLock_frame dest!: sems_finish sems_taskUnsafe
      split: if_split_asm)

lemma semGive_cases:
  assumes "semGive me s w = Done (r, w')"
  obtains "sems w' = sems w"
    | "is_mutex (smcb w s) \<longrightarrow> current_owner (smcb w s) = my_task me w" "recursion_level (smcb w s) > 0"
      "sems w' = sems (upd_sem s (\<lambda>s. if recursion_level s = 1
          then s\<lparr>recursion_level := 0, token_count := s32 (token_count s + 1), current_owner := NULL\<rparr>
          else s\<lparr>recursion_level := recursion_level s - 1\<rparr>) w)"
    | "is_mutex (smcb w s) \<longrightarrow> current_owner (smcb w s) = my_task me w" "recursion_level (smcb w s) \<le> 0"
      "sems w' = sems (upd_sem s (\<lambda>s. s\<lparr>token_count := s32 (token_count s + 1)\<rparr>) w)"
proof (cases "recursion_level (smcb w s) > 0")
  case True
  let ?f = "\<lambda>s. if recursion_level s = 1
          then s\<lparr>recursion_level := 0, token_count := s32 (token_count s + 1), current_owner := NULL\<rparr>
          else s\<lparr>recursion_level := recursion_level s - 1\<rparr>"
  have "s \<in> dom (sems w)" using True by (intro dom_semI) (auto simp: zero_sem_def)
  then have lev: "recursion_level (smcb (upd_sem s (\<lambda>s. s\<lparr>recursion_level := recursion_level s - 1\<rparr>) w) s)
      = recursion_level (smcb w s) - 1"
    by (simp del: domIff)
  let ?w1 = "upd_sem s (\<lambda>s. s\<lparr>recursion_level := recursion_level s - 1\<rparr>) w"
  let ?w2 = "upd_sem s (\<lambda>s. s\<lparr>token_count := s32 (token_count s + 1), current_owner := NULL\<rparr>) ?w1"
  have w2: "?w2 = upd_sem s ?f w" if "recursion_level (smcb w s) = 1"
    unfolding upd_sem_comp using that by (intro upd_sem_cong) simp
  have w1: "?w1 = upd_sem s ?f w" if "recursion_level (smcb w s) \<noteq> 1"
    using that by (intro upd_sem_cong) simp
  show ?thesis
  proof (cases "s \<in> set (sem_list w) \<and> (is_mutex (smcb w s) \<longrightarrow> current_owner (smcb w s) = my_task me w)")
    case False
    then have "sems w' = sems w"
      using assms by (auto simp: semGive_def obind_Done_iff sem_find_lock_Done dest!: sems_finish
          split: if_split_asm)
    then show ?thesis by (rule that(1))
  next
    case owner: True
    have "sems w' = sems (upd_sem s ?f w)"
    proof (cases "recursion_level (smcb w s) = 1")
      case one: True
      then have "give_tail me s ?w2 = Done (r, w')"
        using assms True owner lev
        by (auto simp: semGive_def obind_Done_iff sem_find_lock_Done Let_def
            split: if_split_asm)
      then show ?thesis using sems_give_tail [of me s ?w2] w2 [OF one] by simp
    next
      case many: False
      then have "ret_status me OK ?w1 = Done (r, w')"
        using assms True owner lev
        by (auto simp: semGive_def obind_Done_iff sem_find_lock_Done Let_def split: if_split_asm)
      then show ?thesis using sems_finish(2) [of me OK ?w1] w1 [OF many] by simp
    qed
    with owner True show ?thesis by (intro that(2)) auto
  qed
next
  case False
  then show ?thesis
    using assms that(1,3)
    by (auto simp: semGive_def outcome_simps Let_def dest!: sems_finish split: if_split_asm)
qed

lemma semGive_guar:
  assumes "semGive me s w = Done (r, w')" and task: "my_task me w \<noteq> NULL" and ok: "mutex_ok (smcb w s)"
  shows "sems_guar (my_task me w) w w'"
proof -
  let ?t = "my_task me w"
  consider "sems w' = sems w"
    | "is_mutex (smcb w s) \<longrightarrow> current_owner (smcb w s) = ?t" "recursion_level (smcb w s) > 0"
      "sems w' = sems (upd_sem s (\<lambda>s. if recursion_level s = 1
          then s\<lparr>recursion_level := 0, token_count := s32 (token_count s + 1), current_owner := NULL\<rparr>
          else s\<lparr>recursion_level := recursion_level s - 1\<rparr>) w)"
    | "is_mutex (smcb w s) \<longrightarrow> current_owner (smcb w s) = ?t" "recursion_level (smcb w s) \<le> 0"
      "sems w' = sems (upd_sem s (\<lambda>s. s\<lparr>token_count := s32 (token_count s + 1)\<rparr>) w)"
    using assms(1) by (rule semGive_cases)
  then show ?thesis
  proof cases
    case 1
    then show ?thesis by (rule sems_guar_same)
  next
    case 2
    then show ?thesis using ok
      by (intro sems_guar_via [OF 2(3) sems_guar_same [OF refl]])
        (auto simp: guar_def mutex_ok_def is_mutex_def s32_def)
  next
    case 3
    then show ?thesis using ok task
      by (intro sems_guar_via [OF 3(3) sems_guar_same [OF refl]])
        (auto simp: guar_def mutex_ok_def is_mutex_def)
  qed
qed

section \<open>The semaphores as a transition system\<close>

text \<open>Where a thread is: not in a semaphore call, asleep in \<^verbatim>\<open>semTake\<close> at the condition
  variable or for a tick, or asleep in \<^verbatim>\<open>semDelete\<close> or \<^verbatim>\<open>semFlush\<close>.\<close>

datatype sem_pc = Idle | Cond take_frame | Tick take_frame | Deleting addr | Flushing addr

fun take_pc :: "take \<Rightarrow> sem_pc" where
  "take_pc (Returned r) = Idle"
| "take_pc (AtCond fr) = Cond fr"
| "take_pc (AtDelay fr) = Tick fr"

fun call_pc :: "sem_pc \<Rightarrow> 'r call \<Rightarrow> sem_pc" where
  "call_pc p (Ret r) = Idle"
| "call_pc p Parked = p"

text \<open>One atomic step of the thread \<open>me\<close>, which runs a task. The wait at the condition
  variable may return any code at any time.\<close>

inductive sem_step :: "pthread \<Rightarrow> world \<times> (pthread \<Rightarrow> sem_pc) \<Rightarrow> world \<times> (pthread \<Rightarrow> sem_pc) \<Rightarrow> bool"
  for me where
  BCreate: "pc me = Idle \<Longrightarrow> blk \<notin> dom (sems w) \<Longrightarrow> semBCreate me opt i blk w = (a, w') \<Longrightarrow>
    sem_step me (w, pc) (w', pc)"
| CCreate: "pc me = Idle \<Longrightarrow> blk \<notin> dom (sems w) \<Longrightarrow> semCCreate me opt i blk w = (a, w') \<Longrightarrow>
    sem_step me (w, pc) (w', pc)"
| MCreate: "pc me = Idle \<Longrightarrow> blk \<notin> dom (sems w) \<Longrightarrow> semMCreate me opt blk w = (a, w') \<Longrightarrow>
    sem_step me (w, pc) (w', pc)"
| Give: "pc me = Idle \<Longrightarrow> my_task me w \<noteq> NULL \<Longrightarrow> semGive me s w = Done (c, w') \<Longrightarrow>
    sem_step me (w, pc) (w', pc)"
| Take: "pc me = Idle \<Longrightarrow> my_task me w \<noteq> NULL \<Longrightarrow> recursion_level (smcb w s) < 2147483647 \<Longrightarrow>
    semTake me s n now w = Done (r, w') \<Longrightarrow> sem_step me (w, pc) (w', pc(me := take_pc r))"
| Wake: "pc me = Cond fr \<Longrightarrow> semTake_wake me rc fr w = Done (r, w') \<Longrightarrow>
    sem_step me (w, pc) (w', pc(me := take_pc r))"
| TickOver: "pc me = Tick fr \<Longrightarrow> semTake_tick me now fr w = Done (r, w') \<Longrightarrow>
    sem_step me (w, pc) (w', pc(me := take_pc r))"
| Delete: "pc me = Idle \<Longrightarrow> semDelete me s w = Done (c, w') \<Longrightarrow>
    sem_step me (w, pc) (w', pc(me := call_pc (Deleting s) c))"
| DeleteResume: "pc me = Deleting s \<Longrightarrow> semDelete_resume me s w = Done (c, w') \<Longrightarrow>
    sem_step me (w, pc) (w', pc(me := call_pc (Deleting s) c))"
| Flush: "pc me = Idle \<Longrightarrow> semFlush me s w = Done (c, w') \<Longrightarrow>
    sem_step me (w, pc) (w', pc(me := call_pc (Flushing s) c))"
| FlushResume: "pc me = Flushing s \<Longrightarrow> semFlush_resume me s w = Done (c, w') \<Longrightarrow>
    sem_step me (w, pc) (w', pc(me := call_pc (Flushing s) c))"

inductive sem_reach :: "world \<times> (pthread \<Rightarrow> sem_pc) \<Rightarrow> bool" where
  Start: "sems w = Map.empty \<Longrightarrow> sem_reach (w, \<lambda>_. Idle)"
| Step: "sem_reach c \<Longrightarrow> sem_step me c c' \<Longrightarrow> sem_reach c'"

text \<open>The invariant of reachable states.\<close>

definition sem_inv :: "world \<times> (pthread \<Rightarrow> sem_pc) \<Rightarrow> bool" where
  "sem_inv c \<longleftrightarrow> (\<forall>s. mutex_ok (smcb (fst c) s))
     \<and> (\<forall>th fr. snd c th = Cond fr \<or> snd c th = Tick fr \<longrightarrow>
          tf_task fr \<noteq> NULL \<and> tf_task fr = my_task th (fst c))"

lemma mutex_ok_zero [simp]: "mutex_ok zero_sem" "\<not> is_mutex zero_sem"
  by (simp_all add: mutex_ok_def is_mutex_def zero_sem_def vxw_codes)

lemma sems_guar_ok: "sems_guar m w w' \<Longrightarrow> mutex_ok (smcb w s) \<Longrightarrow> mutex_ok (smcb w' s)"
  unfolding sems_guar_def guar_def
  by (cases "s \<in> dom (sems w)") (blast, metis dom_semI mutex_ok_zero(1))

text \<open>No semaphore operation changes which task a thread runs.\<close>

lemma my_task_sems [simp]:
  "my_task th (w\<lparr>sems := m\<rparr>) = my_task th w" "my_task th (w\<lparr>sem_list := l\<rparr>) = my_task th w"
  "my_task th (w\<lparr>sem_list := l, sems := m\<rparr>) = my_task th w"
  "my_task th (w\<lparr>sems := m, sem_list := l\<rparr>) = my_task th w"
  by (auto intro!: my_task_cong simp: tcb_def)

lemma my_task_susp [simp]:
  "my_task th (link_susp_task h t w) = my_task th w" "my_task th (unlink_susp_task h t w) = my_task th w"
  by (rule my_task_cong; simp add: tcb_susp_field)+

lemma my_task_taskDelay [simp]:
  "my_task th (taskDelay_begin me w) = my_task th w" "my_task th (taskDelay_end t w) = my_task th w"
  by (simp_all add: taskDelay_begin_def taskDelay_end_def Let_def)

named_theorems keeps_me "operations that leave every thread its task"

lemma my_task_taskSafe [keeps_me]: "taskSafe me w = Done (r, w') \<Longrightarrow> my_task th w' = my_task th w"
  by (auto simp: taskSafe_def obind_Done_iff Let_def taskLock_frame split: if_split_asm)

lemma my_task_taskUnsafe [keeps_me]: "taskUnsafe me w = Done (r, w') \<Longrightarrow> my_task th w' = my_task th w"
  by (auto simp: taskUnsafe_def outcome_simps Let_def taskLock_frame split: if_split_asm)

lemma my_task_finish [keeps_me]:
  "finish me e w = Done (r, w') \<Longrightarrow> my_task th w' = my_task th w"
  "ret_status me e w = Done (c, w') \<Longrightarrow> my_task th w' = my_task th w"
  by (auto simp: finish_Done ret_status_Done)

lemma my_task_take_return [keeps_me]:
  "take_return me t e w = Done (r, w') \<Longrightarrow> my_task th w' = my_task th w"
  by (auto simp: take_return_def obind_Done_iff Let_def dest!: my_task_finish [where th = th]
      split: if_split_asm)

lemma my_task_priority_inversion [keeps_me]:
  "priority_inversion me s t w = Done w' \<Longrightarrow> my_task th w' = my_task th w"
  by (auto simp: priority_inversion_def obind_Done_iff Let_def taskLock_frame split: if_split_asm)

lemma my_task_take_exit [keeps_me]:
  "take_exit me fr w = Done (r, w') \<Longrightarrow> my_task th w' = my_task th w"
  by (auto simp: take_exit_def Let_def obind_Done_iff
      dest!: my_task_take_return [where th = th] my_task_taskSafe [where th = th] split: if_split_asm)

lemma token_loop_cases:
  "token_loop me s w = (Over, upd_sem s (\<lambda>s. s\<lparr>token_count := token_count s - 1\<rparr>) w)
     \<or> token_loop me s w = (NotOurs, w) \<or> token_loop me s w = (Still, w)"
  by (simp add: token_loop_def)

lemma my_task_take_poll [keeps_me]:
  "take_poll me fr (p, w) = Done (r, w') \<Longrightarrow> my_task th w' = my_task th w"
  by (cases p) (auto simp: take_poll_def dest!: my_task_take_exit [where th = th] split: if_split_asm)

lemma take_poll_frame:
  assumes "take_poll me fr (p, w) = Done (r, w')" and "take_pc r = Cond fr' \<or> take_pc r = Tick fr'"
  shows "fr' = fr"
proof -
  have "\<exists>e. r = Returned e" if "take_exit me f w = Done (r, w')" for f
    using that
    by (auto simp: take_exit_def take_return_def Let_def obind_Done_iff split: if_split_asm)
  then show ?thesis
    using assms by (cases p) (fastforce simp: take_poll_def split: if_split_asm)+
qed

lemma my_task_waiting_on_sem:
  "waiting_on_sem me s w = (p, w') \<Longrightarrow> my_task th w' = my_task th w"
  "token_loop me s w = (p, w') \<Longrightarrow> my_task th w' = my_task th w"
  using token_loop_cases [of me s w] by (auto simp: waiting_on_sem_def split: if_split_asm)

lemma wait_for_token_frame:
  assumes "wait_for_token me s n t now w = Done (r, w')"
  shows "my_task th w' = my_task th w"
    and "take_pc r = Cond fr' \<or> take_pc r = Tick fr' \<Longrightarrow> tf_task fr' = t"
proof -
  let ?L = "link_susp_task (SemSusp s) t w"
  from wait_for_token_polls [OF assms] obtain fr w3 where fr: "tf_task fr = t"
    and w3: "w3 = ?L \<or> priority_inversion me s t ?L = Done w3"
    and p: "take_poll me fr (waiting_on_sem me s w3) = Done (r, w')"
    by metis
  have w3: "my_task th w3 = my_task th w" using w3 my_task_priority_inversion [of me s t ?L] by auto
  obtain q w4 where q: "waiting_on_sem me s w3 = (q, w4)" by fastforce
  with p have p': "take_poll me fr (q, w4) = Done (r, w')" by simp
  show "my_task th w' = my_task th w"
    using my_task_take_poll [OF p'] my_task_waiting_on_sem(1) [OF q] w3 by simp
  show "take_pc r = Cond fr' \<or> take_pc r = Tick fr' \<Longrightarrow> tf_task fr' = t"
    using take_poll_frame [OF p'] fr by auto
qed

lemma semTake_frame:
  assumes "semTake me s n now w = Done (r, w')" and "my_task me w \<noteq> NULL"
  shows "my_task th w' = my_task th w"
    and "take_pc r = Cond fr' \<or> take_pc r = Tick fr' \<Longrightarrow> tf_task fr' = my_task me w"
proof -
  let ?w1 = "upd_task (my_task me w) (\<lambda>t. t\<lparr>waiting := s\<rparr>) w"
  consider e where "r = Returned e" "my_task th w' = my_task th w"
    | "wait_for_token me s n (my_task me w) now ?w1 = Done (r, w')"
    using assms
    by (auto simp: semTake_def obind_Done_iff Let_def take_return_def
        dest!: my_task_finish [where th = th] split: if_split_asm)
  then have "my_task th w' = my_task th w \<and>
    (take_pc r = Cond fr' \<or> take_pc r = Tick fr' \<longrightarrow> tf_task fr' = my_task me w)"
  proof cases
    case 2
    then show ?thesis using wait_for_token_frame [OF 2] by simp
  qed auto
  then show "my_task th w' = my_task th w"
    and "take_pc r = Cond fr' \<or> take_pc r = Tick fr' \<Longrightarrow> tf_task fr' = my_task me w"
    by auto
qed

lemma semTake_resume_frame:
  assumes "semTake_wake me rc fr w = Done (r, w') \<or> semTake_tick me now fr w = Done (r, w')"
  shows "my_task th w' = my_task th w"
    and "take_pc r = Cond fr' \<or> take_pc r = Tick fr' \<Longrightarrow> tf_task fr' = tf_task fr"
proof -
  obtain f q v where f: "tf_task f = tf_task fr" and v: "my_task th v = my_task th w"
    and p: "take_poll me f (q, v) = Done (r, w')"
  proof (cases "semTake_wake me rc fr w = Done (r, w')")
    case True
    then show ?thesis
      using that [of "if tf_timeout fr = None then fr else fr\<lparr>tf_retcode := rc\<rparr>"]
        my_task_waiting_on_sem(1) [of me "tf_sem fr" w]
      by (cases "waiting_on_sem me (tf_sem fr) w") (auto simp: semTake_wake_def Let_def split: if_split_asm)
  next
    case False
    let ?w = "taskDelay_end (my_task me w) w"
    obtain q v where q: "token_loop me (tf_sem fr) ?w = (q, v)" by fastforce
    have "take_poll me fr (Still, ?w) = Done (r, w') \<or> take_poll me fr (q, v) = Done (r, w')"
      using False assms q by (auto simp: semTake_tick_def Let_def split: if_split_asm)
    then show ?thesis
      using that [of fr ?w Still] that [of fr v q] my_task_waiting_on_sem(2) [OF q] by auto
  qed
  show "my_task th w' = my_task th w" using my_task_take_poll [OF p] v by simp
  show "take_pc r = Cond fr' \<or> take_pc r = Tick fr' \<Longrightarrow> tf_task fr' = tf_task fr"
    using take_poll_frame [OF p] f by auto
qed

lemma my_task_give_tail: "give_tail me s w = Done (r, w') \<Longrightarrow> my_task th w' = my_task th w"
  by (auto simp: give_tail_def outcome_simps taskLock_frame
      dest!: my_task_finish [where th = th] my_task_taskUnsafe [where th = th] split: if_split_asm)

lemma my_task_semGive: "semGive me s w = Done (r, w') \<Longrightarrow> my_task th w' = my_task th w"
  by (auto simp: semGive_def obind_Done_iff Let_def
      dest!: my_task_finish(2) [where th = th] my_task_give_tail [where th = th] split: if_split_asm)

lemma my_task_semCreate:
  "semBCreate me opt i blk w = (a, w') \<Longrightarrow> my_task th w' = my_task th w"
  "semCCreate me opt i blk w = (a, w') \<Longrightarrow> my_task th w' = my_task th w"
  "semMCreate me opt blk w = (a, w') \<Longrightarrow> my_task th w' = my_task th w"
  by (auto simp: semBCreate_def semCCreate_def semMCreate_def link_smcb_def split: if_split_asm)

lemma my_task_semDelete:
  "semDelete me s w = Done (c, w') \<Longrightarrow> my_task th w' = my_task th w"
  "semDelete_resume me s w = Done (c, w') \<Longrightarrow> my_task th w' = my_task th w"
  "semFlush me s w = Done (c, w') \<Longrightarrow> my_task th w' = my_task th w"
  "semFlush_resume me s w = Done (c, w') \<Longrightarrow> my_task th w' = my_task th w"
  by (auto simp: semDelete_def semDelete_resume_def semFlush_def semFlush_resume_def free_sem_def
      unlink_smcb_def obind_Done_iff taskLock_frame
      dest!: my_task_finish(2) [where th = th] split: if_split_asm)

text \<open>What one step may do to the semaphores.\<close>

definition step_guar :: "addr \<Rightarrow> world \<Rightarrow> world \<Rightarrow> bool" where
  "step_guar m w w' \<longleftrightarrow> (\<forall>s. if s \<in> dom (sems w) \<and> s \<in> dom (sems w')
     then guar m (smcb w s) (smcb w' s) else mutex_ok (smcb w' s))"

lemma step_guarI: "sems_guar m w w' \<Longrightarrow> step_guar m w w'"
  unfolding sems_guar_def step_guar_def by (metis dom_semI mutex_ok_zero(1))

lemma step_guar_ok: "step_guar m w w' \<Longrightarrow> mutex_ok (smcb w s) \<Longrightarrow> mutex_ok (smcb w' s)"
  unfolding step_guar_def guar_def by metis

lemma smcb_none [simp]: "sems w s = None \<Longrightarrow> smcb w s = zero_sem"
  by (simp add: smcb_def)

lemma step_guar_free:
  assumes "sems w' = (sems w)(s := None)"
  shows "step_guar m w w'"
  unfolding step_guar_def
proof
  fix a
  have "smcb w' a = (if a = s then zero_sem else smcb w a)" using assms by (simp add: smcb_def)
  then show "if a \<in> dom (sems w) \<and> a \<in> dom (sems w') then guar m (smcb w a) (smcb w' a)
      else mutex_ok (smcb w' a)"
    using assms by (cases "a = s"; cases "sems w a") (simp_all add: domIff)
qed

lemma step_guar_new:
  assumes "sems w' = (sems w)(b \<mapsto> v)" and "b \<notin> dom (sems w)" and "mutex_ok v"
  shows "step_guar m w w'"
  unfolding step_guar_def
proof
  fix a
  have "smcb w' a = (if a = b then v else smcb w a)" using assms by (simp add: smcb_def)
  then show "if a \<in> dom (sems w) \<and> a \<in> dom (sems w') then guar m (smcb w a) (smcb w' a)
      else mutex_ok (smcb w' a)"
    using assms by (cases "a = b"; cases "sems w a") (simp_all add: domIff)
qed

lemma step_guar_same: "sems w' = sems w \<Longrightarrow> step_guar m w w'"
  by (intro step_guarI sems_guar_same)

lemma mutex_ok_new:
  "mutex_ok ((new_sem 1)\<lparr>sem_flags := fl\<rparr>)"
  "mutex_ok ((new_sem n)\<lparr>sem_flags := BINARY_SEMA4\<rparr>)"
  "mutex_ok ((new_sem n)\<lparr>sem_flags := COUNTING_SEMA4\<rparr>)"
  by (simp_all add: mutex_ok_def is_mutex_def new_sem_def zero_sem_def vxw_codes)

lemma semCreate_guar:
  assumes "blk \<notin> dom (sems w)" and "semBCreate me opt i blk w = (a, w')
    \<or> semCCreate me opt i blk w = (a, w') \<or> semMCreate me opt blk w = (a, w')"
  shows "step_guar m w w'"
proof -
  have "sems w' = sems w \<or> (\<exists>v. mutex_ok v \<and> sems w' = (sems w)(blk \<mapsto> v))"
    using assms(2)
    by (auto simp: semBCreate_def semCCreate_def semMCreate_def unsupported_def link_smcb_def Let_def
        intro: mutex_ok_new split: if_split_asm)
  then show ?thesis using step_guar_same step_guar_new [OF _ assms(1)] by blast
qed

lemma semDelete_guar:
  "semDelete me s w = Done (c, w') \<Longrightarrow> step_guar m w w'"
  "semDelete_resume me s w = Done (c, w') \<Longrightarrow> step_guar m w w'"
proof -
  have "semDelete_resume me s w = Done (c, w') \<Longrightarrow> sems w' = sems w \<or> sems w' = (sems w)(s := None)"
    by (auto simp: semDelete_resume_def free_sem_def unlink_smcb_def ret_status_Done split: if_split_asm)
  then show "semDelete_resume me s w = Done (c, w') \<Longrightarrow> step_guar m w w'"
    using step_guar_same step_guar_free by blast
  assume "semDelete me s w = Done (c, w')"
  then consider "sems w' = sems w" | "sems w' = sems (upd_sem s (\<lambda>s. s\<lparr>send_type := KILLD\<rparr>) w)"
    | "sems w' = (sems w)(s := None)"
    by (auto simp: semDelete_def free_sem_def unlink_smcb_def obind_Done_iff taskLock_frame
        ret_status_Done upd_sem_def split: if_split_asm)
  then show "step_guar m w w'"
  proof cases
    case 2
    then show ?thesis
      by (intro step_guarI sems_guar_via [OF 2 sems_guar_same [OF refl]])
        (auto simp: guar_def mutex_ok_def is_mutex_def vxw_codes)
  qed (rule step_guar_same step_guar_free, assumption)+
qed

lemma semFlush_guar:
  "semFlush me s w = Done (c, w') \<Longrightarrow> step_guar m w w'"
  "semFlush_resume me s w = Done (c, w') \<Longrightarrow> step_guar m w w'"
proof -
  show "semFlush_resume me s w = Done (c, w') \<Longrightarrow> step_guar m w w'"
    by (auto simp: semFlush_resume_def ret_status_Done intro!: step_guar_same split: if_split_asm)
  assume "semFlush me s w = Done (c, w')"
  then consider "sems w' = sems w"
    | "\<not> is_mutex (smcb w s)" "sems w' = sems (upd_sem s (\<lambda>s. s\<lparr>send_type := FLUSH\<rparr>) w)"
    | "sems w' = sems (upd_sem s (\<lambda>s. s\<lparr>sem_lock := me\<rparr>) w)"
    by (auto simp: semFlush_def obind_Done_iff taskLock_frame ret_status_Done upd_sem_def
        split: if_split_asm)
  then show "step_guar m w w'"
  proof cases
    case 1
    then show ?thesis by (rule step_guar_same)
  next
    case 2
    then show ?thesis
      by (intro step_guarI sems_guar_via [OF 2(2) sems_guar_same [OF refl]])
        (auto simp: guar_def mutex_ok_def is_mutex_def)
  next
    case 3
    then show ?thesis
      by (intro step_guarI sems_guar_via [OF 3 sems_guar_same [OF refl]]) simp
  qed
qed

lemma sem_inv_frame:
  "sem_inv (w, pc) \<Longrightarrow> pc th = Cond fr \<or> pc th = Tick fr \<Longrightarrow> tf_task fr \<noteq> NULL \<and> tf_task fr = my_task th w"
  unfolding sem_inv_def fst_conv snd_conv by blast

lemma sem_inv_sem: "sem_inv (w, pc) \<Longrightarrow> mutex_ok (smcb w s)"
  by (simp add: sem_inv_def)

lemma sem_inv_next:
  assumes "sem_inv (w, pc)" and "step_guar m w w'" and "\<And>th. my_task th w' = my_task th w"
    and "\<And>fr. p = Cond fr \<or> p = Tick fr \<Longrightarrow> tf_task fr \<noteq> NULL \<and> tf_task fr = my_task me w"
  shows "step_guar m w w' \<and> sem_inv (w', pc(me := p))"
proof -
  have "tf_task fr \<noteq> NULL \<and> tf_task fr = my_task th w'"
    if "(pc(me := p)) th = Cond fr \<or> (pc(me := p)) th = Tick fr" for th fr
  proof (cases "th = me")
    case True
    with that assms(4) [of fr] show ?thesis by (simp add: assms(3))
  next
    case False
    with that have "pc th = Cond fr \<or> pc th = Tick fr" by simp
    with assms(1) have "tf_task fr \<noteq> NULL \<and> tf_task fr = my_task th w" by (rule sem_inv_frame)
    then show ?thesis by (simp add: assms(3))
  qed
  moreover have "mutex_ok (smcb w' s)" for s
    by (rule step_guar_ok [OF assms(2) sem_inv_sem [OF assms(1)]])
  ultimately show ?thesis unfolding sem_inv_def fst_conv snd_conv using assms(2) by blast
qed

lemma sem_inv_idle:
  assumes "sem_inv (w, pc)" and "step_guar m w w'" and "\<And>th. my_task th w' = my_task th w"
    and "pc me = Idle"
  shows "step_guar m w w' \<and> sem_inv (w', pc)"
proof -
  have "pc(me := Idle) = pc" using assms(4) by auto
  with sem_inv_next [OF assms(1-3), of Idle me] show ?thesis by simp
qed

lemma sem_inv_call:
  assumes "sem_inv (w, pc)" and "step_guar m w w'" and "\<And>th. my_task th w' = my_task th w"
    and "p = Deleting s \<or> p = Flushing s"
  shows "step_guar m w w' \<and> sem_inv (w', pc(me := call_pc p c))"
  using assms(4) by (cases c) (auto intro!: sem_inv_next [OF assms(1-3), THEN conjunct2] assms(2))

lemma sem_step_guar:
  assumes "sem_step me c c'" and "sem_inv c"
  shows "step_guar (my_task me (fst c)) (fst c) (fst c') \<and> sem_inv c'"
  using assms
proof (induction rule: sem_step.induct)
  case (BCreate pc blk w opt i a w')
  show ?case
    unfolding fst_conv
    by (rule sem_inv_idle [OF BCreate(4) semCreate_guar [OF BCreate(2) disjI1 [OF BCreate(3)]]
          my_task_semCreate(1) [OF BCreate(3)] BCreate(1)])
next
  case (CCreate pc blk w opt i a w')
  show ?case
    unfolding fst_conv
    by (rule sem_inv_idle [OF CCreate(4) semCreate_guar [OF CCreate(2) disjI2 [OF disjI1 [OF CCreate(3)]]]
          my_task_semCreate(2) [OF CCreate(3)] CCreate(1)])
next
  case (MCreate pc blk w opt a w')
  show ?case
    unfolding fst_conv
    by (rule sem_inv_idle [OF MCreate(4) semCreate_guar [OF MCreate(2) disjI2 [OF disjI2 [OF MCreate(3)]]]
          my_task_semCreate(3) [OF MCreate(3)] MCreate(1)])
next
  case (Give pc w s c w')
  then have "step_guar (my_task me w) w w'"
    by (intro step_guarI semGive_guar) (auto simp: sem_inv_def)
  then show ?case
    unfolding fst_conv by (rule sem_inv_idle [OF Give(4) _ my_task_semGive [OF Give(3)] Give(1)])
next
  case (Take pc w s n now r w')
  then have "step_guar (my_task me w) w w'"
    by (intro step_guarI semTake_guar) (auto simp: sem_inv_def)
  then show ?case
    unfolding fst_conv
    by (rule sem_inv_next [OF Take(5) _ semTake_frame(1) [OF Take(4,2)]])
      (use Take(2) semTake_frame(2) [OF Take(4,2)] in auto)
next
  case (Wake pc fr rc w r w')
  then have "step_guar (my_task me w) w w'"
    using sem_inv_frame [OF Wake(3), of me fr] sem_inv_sem [OF Wake(3)]
    by (intro step_guarI semTake_wake_guar) auto
  moreover have "tf_task fr \<noteq> NULL \<and> tf_task fr = my_task me w"
    using Wake(1) by (intro sem_inv_frame [OF Wake(3)]) simp
  ultimately show ?case
    unfolding fst_conv
    by (intro sem_inv_next [OF Wake(3)] semTake_resume_frame(1) [OF disjI1 [OF Wake(2)]])
      (use semTake_resume_frame(2) [OF disjI1 [OF Wake(2)]] in auto)
next
  case (TickOver pc fr now w r w')
  then have "step_guar (my_task me w) w w'"
    using sem_inv_frame [OF TickOver(3), of me fr] sem_inv_sem [OF TickOver(3)]
    by (intro step_guarI semTake_tick_guar) auto
  moreover have "tf_task fr \<noteq> NULL \<and> tf_task fr = my_task me w"
    using TickOver(1) by (intro sem_inv_frame [OF TickOver(3)]) simp
  ultimately show ?case
    unfolding fst_conv
    by (intro sem_inv_next [OF TickOver(3)] semTake_resume_frame(1) [OF disjI2 [OF TickOver(2)]])
      (use semTake_resume_frame(2) [OF disjI2 [OF TickOver(2)]] in auto)
next
  case (Delete pc s w c w')
  show ?case
    unfolding fst_conv
    by (rule sem_inv_call [OF Delete(3) semDelete_guar(1) [OF Delete(2)] my_task_semDelete(1) [OF Delete(2)]]) simp
next
  case (DeleteResume pc s w c w')
  show ?case
    unfolding fst_conv
    by (rule sem_inv_call [OF DeleteResume(3) semDelete_guar(2) [OF DeleteResume(2)] my_task_semDelete(2) [OF DeleteResume(2)]]) simp
next
  case (Flush pc s w c w')
  show ?case
    unfolding fst_conv
    by (rule sem_inv_call [OF Flush(3) semFlush_guar(1) [OF Flush(2)] my_task_semDelete(3) [OF Flush(2)]]) simp
next
  case (FlushResume pc s w c w')
  show ?case
    unfolding fst_conv
    by (rule sem_inv_call [OF FlushResume(3) semFlush_guar(2) [OF FlushResume(2)] my_task_semDelete(4) [OF FlushResume(2)]]) simp
qed

lemma sem_reach_inv: "sem_reach c \<Longrightarrow> sem_inv c"
proof (induction rule: sem_reach.induct)
  case (Start w)
  then show ?case by (simp add: sem_inv_def)
next
  case (Step c me c')
  then show ?case using sem_step_guar by blast
qed

text \<open>C2. Mutual exclusion. In every interleaving of semaphore calls by tasks, in each
  reachable state a mutex semaphore never has both a token and an owner, and never more
  than one token; and while it is owned, no step of a thread whose task is not the owner
  takes the ownership away or changes its nesting level, as long as the semaphore
  exists.\<close>

theorem mutex_exclusion:
  assumes "sem_reach (w, pc)" and "is_mutex (smcb w s)"
  shows "0 \<le> token_count (smcb w s)
     \<and> token_count (smcb w s) + (if 0 < recursion_level (smcb w s) then 1 else 0) \<le> 1
     \<and> (0 < recursion_level (smcb w s) \<longleftrightarrow> current_owner (smcb w s) \<noteq> NULL)
     \<and> (\<forall>me w' pc'. sem_step me (w, pc) (w', pc') \<and> s \<in> dom (sems w')
          \<and> 0 < recursion_level (smcb w s) \<and> current_owner (smcb w s) \<noteq> my_task me w \<longrightarrow>
          current_owner (smcb w' s) = current_owner (smcb w s)
          \<and> recursion_level (smcb w' s) = recursion_level (smcb w s))"
proof -
  have inv: "sem_inv (w, pc)" using assms(1) by (rule sem_reach_inv)
  then have ok: "mutex_ok (smcb w s)" by (simp add: sem_inv_def)
  have dom: "s \<in> dom (sems w)" using assms(2) by (intro dom_semI) auto
  have "current_owner (smcb w' s) = current_owner (smcb w s)
      \<and> recursion_level (smcb w' s) = recursion_level (smcb w s)"
    if "sem_step me (w, pc) (w', pc')" "s \<in> dom (sems w')"
      "0 < recursion_level (smcb w s)" "current_owner (smcb w s) \<noteq> my_task me w" for me w' pc'
  proof -
    have "step_guar (my_task me w) w w'" using sem_step_guar [OF that(1) inv] by simp
    with that dom assms(2) ok show ?thesis
      unfolding step_guar_def guar_def by metis
  qed
  moreover have "0 \<le> recursion_level (smcb w s)" "0 \<le> token_count (smcb w s)"
     "token_count (smcb w s) + (if 0 < recursion_level (smcb w s) then 1 else 0) \<le> 1"
     "recursion_level (smcb w s) = 0 \<longleftrightarrow> current_owner (smcb w s) = NULL"
    using ok assms(2) by (auto simp: mutex_ok_def)
  ultimately show ?thesis by (auto split: if_split_asm)
qed

text \<open>A call that returns \<^verbatim>\<open>OK\<close> and was prepared to wait has the mutex.\<close>

lemma take_return_OK:
  "take_return me t e w = Done (Returned OK, w') \<Longrightarrow> e = OK \<and> sems w' = sems w"
  by (auto simp: take_return_def obind_Done_iff Let_def finish_def vxw_codes split: if_split_asm)

lemma take_exit_owns:
  assumes "take_exit me fr w = Done (Returned OK, w')" and "tf_wait fr \<noteq> NO_WAIT"
    and "tf_retcode fr = 0 \<or> tf_retcode fr = ETIMEDOUT"
    and mx: "is_mutex (smcb w (tf_sem fr))" and fl: "send_type (smcb w (tf_sem fr)) AND FLUSH = 0"
  shows "current_owner (smcb w' (tf_sem fr)) = tf_task fr"
proof -
  let ?s = "tf_sem fr" and ?t = "tf_task fr"
  let ?w1 = "unlink_susp_task (SemSusp ?s) ?t w"
  have "s \<in> dom (sems w)" if "is_mutex (smcb w s)" for s using that by (intro dom_semI) auto
  then have dom: "?s \<in> dom (sems ?w1)" using mx by (simp del: domIff)
  have nk: "\<not> killed_or_flushed (smcb w ?s)"
    using assms(1) fl by (auto simp: take_exit_def Let_def killed_or_flushed_def
        dest!: take_return_OK split: if_split_asm)
  have rc: "tf_retcode fr = OK"
    using assms(1-3) nk by (auto simp: take_exit_def Let_def take_error_def OK_def [symmetric]
        dest!: take_return_OK split: if_split_asm)
  have "sems w' = sems (upd_sem ?s (\<lambda>x. x\<lparr>current_owner := ?t,
          recursion_level := s32 (recursion_level x + 1)\<rparr>) ?w1)"
    using assms(1) nk rc mx
    by (auto simp: take_exit_def Let_def upd_sem_comp is_mutex_def smcb_upd_field obind_Done_iff
        dest!: take_return_OK sems_taskSafe split: if_split_asm)
  then have "smcb w' ?s = smcb (upd_sem ?s (\<lambda>x. x\<lparr>current_owner := ?t,
          recursion_level := s32 (recursion_level x + 1)\<rparr>) ?w1) ?s"
    using smcb_cong by metis
  then show ?thesis using dom by (simp del: domIff)
qed

lemma token_loop_keeps:
  assumes "token_loop me s w = (p, w')"
  shows "is_mutex (smcb w' a) = is_mutex (smcb w a)" "send_type (smcb w' a) = send_type (smcb w a)"
  using assms token_loop_cases [of me s w] by (auto simp: smcb_upd_field is_mutex_def)

lemma take_poll_owns:
  assumes "take_poll me fr (waiting_on_sem me (tf_sem fr) w) = Done (Returned OK, w')
      \<or> take_poll me fr (token_loop me (tf_sem fr) w) = Done (Returned OK, w')
      \<or> take_poll me fr (Still, w) = Done (Returned OK, w')"
    and "tf_wait fr \<noteq> NO_WAIT" and "is_mutex (smcb w (tf_sem fr))" and "mutex_ok (smcb w (tf_sem fr))"
  shows "current_owner (smcb w' (tf_sem fr)) = tf_task fr"
proof -
  obtain p w1 where p: "take_poll me fr (p, w1) = Done (Returned OK, w')"
    and w1: "w1 = w \<or> token_loop me (tf_sem fr) w = (p, w1)"
    using assms(1) by (cases "token_loop me (tf_sem fr) w") (auto simp: waiting_on_sem_def split: if_split_asm)
  have "is_mutex (smcb w1 (tf_sem fr)) \<and> send_type (smcb w1 (tf_sem fr)) AND FLUSH = 0"
    using w1 token_loop_keeps [of me "tf_sem fr" w p w1] assms(3,4) by (auto simp: mutex_ok_def)
  then show ?thesis
    using p assms(2) take_exit_owns [of me "fr\<lparr>tf_retcode := 0\<rparr>" w1 w'] take_exit_owns [of me fr w1 w']
    by (cases p) (auto simp: take_poll_def split: if_split_asm)
qed

lemma semTake_owns:
  assumes "semTake me s n now w = Done (Returned OK, w')" and "my_task me w \<noteq> NULL"
    and "n \<noteq> NO_WAIT" and "is_mutex (smcb w s)" and "mutex_ok (smcb w s)"
  shows "current_owner (smcb w' s) = my_task me w"
proof -
  let ?t = "my_task me w"
  let ?w1 = "upd_task ?t (\<lambda>t. t\<lparr>waiting := s\<rparr>) w"
  consider "current_owner (smcb w s) = ?t"
      "sems w' = sems (upd_sem s (\<lambda>s. s\<lparr>recursion_level := s32 (recursion_level s + 1)\<rparr>) ?w1)"
    | "wait_for_token me s n ?t now ?w1 = Done (Returned OK, w')"
    using assms(1,2)
    by (auto simp: semTake_def obind_Done_iff Let_def finish_def dest!: take_return_OK
        split: if_split_asm)
  then show ?thesis
  proof cases
    case 1
    then have "smcb w' s = smcb (upd_sem s (\<lambda>s. s\<lparr>recursion_level := s32 (recursion_level s + 1)\<rparr>) ?w1) s"
      using smcb_cong by metis
    then show ?thesis using 1(1) by (simp add: smcb_upd_field)
  next
    case 2
    let ?L = "link_susp_task (SemSusp s) ?t ?w1"
    from wait_for_token_polls [OF 2] obtain fr w3 where fr: "tf_sem fr = s" "tf_task fr = ?t" "tf_wait fr = n"
      and w3: "w3 = ?L \<or> priority_inversion me s ?t ?L = Done w3"
      and p: "take_poll me fr (waiting_on_sem me s w3) = Done (Returned OK, w')" by metis
    have "smcb w3 = smcb ?L" using w3 sems_priority_inversion [of me s ?t ?L] smcb_cong by metis
    then have "is_mutex (smcb w3 s)" "mutex_ok (smcb w3 s)" using assms(4,5) by (simp_all add: mutex_ok_def)
    with p fr assms(3) show ?thesis using take_poll_owns [of me fr w3 w'] by simp
  qed
qed

text \<open>C13. A task that was prepared to wait owns the mutex when its \<^verbatim>\<open>semTake\<close> returns
  \<^verbatim>\<open>OK\<close>: at once, after any wake-up from the condition variable, or after a tick of
  waiting behind other tasks.\<close>

theorem mutex_take_owns:
  assumes "sem_reach (w, pc)" and "is_mutex (smcb w s)" and "my_task me w \<noteq> NULL" and "n \<noteq> NO_WAIT"
    and "semTake me s n now w = Done (Returned OK, w')
      \<or> (tf_sem fr = s \<and> tf_wait fr = n \<and>
           (pc me = Cond fr \<and> semTake_wake me rc fr w = Done (Returned OK, w')
            \<or> pc me = Tick fr \<and> semTake_tick me now fr w = Done (Returned OK, w')))"
  shows "current_owner (smcb w' s) = my_task me w"
proof -
  have inv: "sem_inv (w, pc)" using assms(1) by (rule sem_reach_inv)
  note ok = sem_inv_sem [OF inv]
  have fr: "tf_task fr = my_task me w" if "pc me = Cond fr \<or> pc me = Tick fr"
    using sem_inv_frame [OF inv that] by simp
  show ?thesis
    using assms(5)
  proof (elim disjE conjE)
    assume "semTake me s n now w = Done (Returned OK, w')"
    then show ?thesis using assms(2-4) ok by (intro semTake_owns)
  next
    assume f: "tf_sem fr = s" "tf_wait fr = n" "pc me = Cond fr"
      and "semTake_wake me rc fr w = Done (Returned OK, w')"
    let ?fr = "if tf_timeout fr = None then fr else fr\<lparr>tf_retcode := rc\<rparr>"
    have "take_poll me ?fr (waiting_on_sem me (tf_sem ?fr) w) = Done (Returned OK, w')"
      using \<open>semTake_wake me rc fr w = _\<close> by (auto simp: semTake_wake_def Let_def split: if_split_asm)
    then show ?thesis using take_poll_owns [of me ?fr w w'] f fr assms(2,4) ok by (auto split: if_split_asm)
  next
    assume f: "tf_sem fr = s" "tf_wait fr = n" "pc me = Tick fr"
      and "semTake_tick me now fr w = Done (Returned OK, w')"
    let ?w = "taskDelay_end (my_task me w) w"
    have "take_poll me fr (token_loop me (tf_sem fr) ?w) = Done (Returned OK, w')
        \<or> take_poll me fr (Still, ?w) = Done (Returned OK, w')"
      using \<open>semTake_tick me now fr w = _\<close> by (auto simp: semTake_tick_def Let_def split: if_split_asm)
    moreover have "smcb ?w = smcb w" by (rule smcb_cong) simp
    ultimately show ?thesis using take_poll_owns [of me fr ?w w'] f fr assms(2,4) ok by auto
  qed
qed

section \<open>Lemmas: taking a free semaphore, giving\<close>

lemma signal_single: "get_susp h w = [my_task me w] \<Longrightarrow> signal_for_my_task me h p w"
  by (simp add: signal_for_my_task_def signalled_task_def Let_def)

text \<open>A call that does not already own the semaphore enters the list and polls.\<close>

definition start_frame :: "addr \<Rightarrow> addr \<Rightarrow> int \<Rightarrow> timeval \<Rightarrow> take_frame" where
  "start_frame s t n now = \<lparr>tf_sem = s, tf_task = t, tf_wait = n,
     tf_timeout = (if n = NO_WAIT then Some (fst now, snd now * 1000)
       else if n = WAIT_FOREVER then None else Some (sem_deadline n now)), tf_retcode = 0\<rparr>"

lemma start_frame_simps [simp]:
  "tf_sem (start_frame s t n now) = s" "tf_task (start_frame s t n now) = t"
  "tf_wait (start_frame s t n now) = n" "tf_retcode (start_frame s t n now) = 0"
  by (simp_all add: start_frame_def)

definition entered :: "addr \<Rightarrow> addr \<Rightarrow> world \<Rightarrow> world" where
  "entered s t w = link_susp_task (SemSusp s) t (upd_task t (\<lambda>t. t\<lparr>waiting := s\<rparr>) w)"

lemma semTake_enters:
  assumes "s \<in> set (sem_list w)" and "sem_lock (smcb w s) = 0" and "my_task me w = t" and "t \<noteq> NULL"
    and "is_mutex (smcb w s) \<longrightarrow> current_owner (smcb w s) \<noteq> t"
    and "sem_flags (smcb w s) AND SEM_INVERSION_SAFE = 0"
  shows "semTake me s n now w = take_poll me (start_frame s t n now) (waiting_on_sem me s (entered s t w))"
  using assms
  by (cases "n = NO_WAIT"; cases "n = WAIT_FOREVER")
    (auto simp: semTake_def sem_find_lock_def wait_for_token_def start_frame_def entered_def Let_def)

lemma entered_simps:
  assumes "s \<in> dom (sems w)" and "t \<noteq> NULL"
  shows "s \<in> dom (sems (entered s t w))"
    and "smcb (entered s t w) s
       = smcb w s\<lparr>sem_first_susp := takeWhile (\<lambda>x. x \<noteq> t) (sem_first_susp (smcb w s)) @ [t]\<rparr>"
    and "my_task th (entered s t w) = my_task th w"
  using assms by (simp_all add: entered_def link_susp_task_def del: domIff)

lemma take_exit_token:
  assumes "\<not> killed_or_flushed (smcb w s)" and "sem_flags (smcb w s) AND SEM_DELETE_SAFE = 0"
    and "tf_sem fr = s" and "tf_task fr = t" and "tf_retcode fr = 0" and "s \<in> dom (sems w)"
    and "t \<noteq> NULL"
  shows "\<exists>w'. take_exit me fr w = Done (Returned OK, w')
     \<and> smcb w' s = (if is_mutex (smcb w s)
         then smcb w s\<lparr>sem_first_susp := remove1 t (sem_first_susp (smcb w s)), current_owner := t,
                       recursion_level := s32 (recursion_level (smcb w s) + 1)\<rparr>
         else smcb w s\<lparr>sem_first_susp := remove1 t (sem_first_susp (smcb w s)), current_owner := t\<rparr>)"
proof -
  let ?w1 = "unlink_susp_task (SemSusp s) t w"
  let ?f = "\<lambda>x. if is_mutex x then x\<lparr>current_owner := t, recursion_level := s32 (recursion_level x + 1)\<rparr>
               else x\<lparr>current_owner := t\<rparr>"
  have dom: "s \<in> dom (sems ?w1)" using assms(6) by (simp del: domIff)
  have w1: "smcb ?w1 s = smcb w s\<lparr>sem_first_susp := remove1 t (sem_first_susp (smcb w s))\<rparr>"
    using assms(6,7) by (auto simp: unlink_susp_task_def remove1_idem simp del: domIff)
  have err: "take_error (tf_wait fr) 0 = OK" by (simp add: take_error_def vxw_codes)
  have "take_exit me fr w = take_return me t OK (upd_sem s ?f ?w1)"
  proof (cases "is_mutex (smcb w s)")
    case True
    then have "upd_sem s (\<lambda>x. x\<lparr>current_owner := t, recursion_level := s32 (recursion_level x + 1)\<rparr>) ?w1
        = upd_sem s ?f ?w1"
      by (intro upd_sem_cong) simp
    then show ?thesis
      using assms(1-5) True err
      by (simp add: take_exit_def Let_def upd_sem_comp is_mutex_def smcb_upd_field OK_def)
  next
    case False
    then have "upd_sem s (\<lambda>x. x\<lparr>current_owner := t\<rparr>) ?w1 = upd_sem s ?f ?w1"
      by (intro upd_sem_cong) simp
    then show ?thesis
      using assms(1-5) False err
      by (simp add: take_exit_def Let_def is_mutex_def smcb_upd_field OK_def)
  qed
  then show ?thesis
    using assms(7) dom w1 by (simp add: take_return_def finish_def is_mutex_def del: domIff)
qed

lemma semTake_token:
  assumes "s \<in> set (sem_list w)" and "s \<in> dom (sems w)" and "smcb w s = v"
    and "sem_lock v = 0" and "\<not> killed_or_flushed v" and "sem_first_susp v = []"
    and "0 < token_count v" and "sem_flags v AND SEM_DELETE_SAFE = 0"
    and "sem_flags v AND SEM_INVERSION_SAFE = 0"
    and "my_task me w = t" and "t \<noteq> NULL" and "is_mutex v \<longrightarrow> current_owner v \<noteq> t"
  shows "\<exists>w'. semTake me s n now w = Done (Returned OK, w')
     \<and> token_count (smcb w' s) = token_count v - 1 \<and> sem_first_susp (smcb w' s) = []
     \<and> current_owner (smcb w' s) = t
     \<and> recursion_level (smcb w' s)
         = (if is_mutex v then s32 (recursion_level v + 1) else recursion_level v)"
proof -
  define L where "L = entered s t w"
  define L' where "L' = upd_sem s (\<lambda>s. s\<lparr>token_count := token_count s - 1\<rparr>) L"
  note E = entered_simps [OF assms(2,11), folded L_def]
  have L: "smcb L s = v\<lparr>sem_first_susp := [t]\<rparr>" using E(2) assms(3,6) by simp
  have sig: "signal_for_my_task me (SemSusp s) p L" for p
    using assms(10) by (intro signal_single) (simp add: L E(3))
  have "waiting_on_sem me s L = (Over, L')"
    using assms(5,7) sig
    by (simp add: waiting_on_sem_def token_loop_def L'_def L killed_or_flushed_def)
  then have take: "semTake me s n now w = take_exit me (start_frame s t n now\<lparr>tf_retcode := 0\<rparr>) L'"
    using assms by (subst semTake_enters [of s w me t]) (simp_all add: take_poll_def L_def)
  have L': "smcb L' s = v\<lparr>sem_first_susp := [t], token_count := token_count v - 1\<rparr>"
    using E(1) by (simp add: L'_def L del: domIff)
  have "\<not> killed_or_flushed (smcb L' s)" "sem_flags (smcb L' s) AND SEM_DELETE_SAFE = 0"
    "is_mutex (smcb L' s) = is_mutex v" "recursion_level (smcb L' s) = recursion_level v"
    "sem_first_susp (smcb L' s) = [t]" "s \<in> dom (sems L')"
    using assms(5,8) E(1) by (simp_all add: L' killed_or_flushed_def is_mutex_def)
      (simp add: L'_def del: domIff)
  then have "\<exists>w'. take_exit me (start_frame s t n now\<lparr>tf_retcode := 0\<rparr>) L' = Done (Returned OK, w')
     \<and> smcb w' s = (if is_mutex v
         then smcb L' s\<lparr>sem_first_susp := [], current_owner := t,
                recursion_level := s32 (recursion_level v + 1)\<rparr>
         else smcb L' s\<lparr>sem_first_susp := [], current_owner := t\<rparr>)"
    using take_exit_token [of L' s "start_frame s t n now\<lparr>tf_retcode := 0\<rparr>" t me] assms(11)
    by (simp del: domIff cong: if_cong)
  with take show ?thesis by (auto simp: L')
qed

text \<open>Taking a semaphore that has a token and no waiting tasks succeeds at once, for every
  time limit: the token count goes down by one, and of a mutex the caller becomes the
  owner at one more nesting level.\<close>

theorem semTake_available:
  assumes "s \<in> set (sem_list w)" and "s \<in> dom (sems w)" and "smcb w s = v"
    and "sem_lock v = 0" and "\<not> killed_or_flushed v" and "sem_first_susp v = []"
    and "0 < token_count v" and "sem_flags v AND SEM_DELETE_SAFE = 0"
    and "sem_flags v AND SEM_INVERSION_SAFE = 0"
    and "my_task me w = t" and "t \<noteq> NULL" and "is_mutex v \<longrightarrow> current_owner v \<noteq> t"
  shows "\<exists>w'. semTake me s n now w = Done (Returned OK, w')
     \<and> token_count (smcb w' s) = token_count v - 1 \<and> sem_first_susp (smcb w' s) = []
     \<and> current_owner (smcb w' s) = t
     \<and> recursion_level (smcb w' s)
         = (if is_mutex v then s32 (recursion_level v + 1) else recursion_level v)"
  using assms by (rule semTake_token)

text \<open>A mutex semaphore at address 500, created by thread 7 in the process with two
  tasks.\<close>

definition mutex_world :: world where
  "mutex_world = two_tasks\<lparr>sems := [500 \<mapsto> (new_sem 1)\<lparr>sem_flags := 0x10\<rparr>], sem_list := [500]\<rparr>"

lemma mutex_world_simps [simp]:
  "sem_list mutex_world = [500]" "sems mutex_world = [500 \<mapsto> (new_sem 1)\<lparr>sem_flags := 0x10\<rparr>]"
  "smcb mutex_world 500 = (new_sem 1)\<lparr>sem_flags := 0x10\<rparr>" "tasks mutex_world = tasks two_tasks"
  "my_task th mutex_world = my_task th two_tasks" "tcb mutex_world = tcb two_tasks"
  "locker mutex_world = 0" "taskLock_level mutex_world = 0"
  by (simp_all add: mutex_world_def smcb_def tcb_def fun_eq_iff)

lemma mutex_world_create: "semMCreate 7 0 500 two_tasks = (500, mutex_world)"
  by (simp add: semMCreate_def unsupported_def link_smcb_def mutex_world_def vxw_codes
      two_tasks_def boot_world_def)

lemma mutex_world_reach: "sem_reach (mutex_world, \<lambda>_. Idle)"
proof (rule sem_reach.Step)
  show "sem_reach (two_tasks, \<lambda>_. Idle)"
    by (rule sem_reach.Start) (simp add: two_tasks_def boot_world_def)
  show "sem_step 7 (two_tasks, \<lambda>_. Idle) (mutex_world, \<lambda>_. Idle)"
    by (rule sem_step.MCreate [OF _ _ mutex_world_create]) (simp_all add: two_tasks_def boot_world_def)
qed

lemma new_sem_simps [simp]:
  "token_count (new_sem n) = n" "recursion_level (new_sem n) = 0" "current_owner (new_sem n) = NULL"
  "sem_first_susp (new_sem n) = []" "sem_lock (new_sem n) = 0" "send_type (new_sem n) = 0"
  by (simp_all add: new_sem_def zero_sem_def SEND_def)

lemma mutex_world_is_mutex [simp]: "is_mutex ((new_sem n)\<lparr>sem_flags := 0x10\<rparr>)"
  by (simp add: is_mutex_def vxw_codes)

theorem semTake_available_witness:
  "\<exists>w'. semTake 7 500 WAIT_FOREVER (0, 0) mutex_world = Done (Returned OK, w')
     \<and> token_count (smcb w' 500) = 0 \<and> sem_first_susp (smcb w' 500) = []
     \<and> current_owner (smcb w' 500) = 100 \<and> recursion_level (smcb w' 500) = 1"
  using semTake_available [of 500 mutex_world "(new_sem 1)\<lparr>sem_flags := 0x10\<rparr>" 7 100 WAIT_FOREVER "(0, 0)"]
  by (simp add: killed_or_flushed_def vxw_codes s32_def)

text \<open>The same call, for the witnesses below.\<close>

lemma mutex_world_taken:
  "\<exists>w' pc. semTake 7 500 WAIT_FOREVER (0, 0) mutex_world = Done (Returned OK, w')
     \<and> sem_reach (w', pc) \<and> is_mutex (smcb w' 500) \<and> recursion_level (smcb w' 500) = 1"
proof -
  obtain w' where w': "semTake 7 500 WAIT_FOREVER (0, 0) mutex_world = Done (Returned OK, w')"
    and lev: "recursion_level (smcb w' 500) = 1"
    using semTake_token [of 500 mutex_world "(new_sem 1)\<lparr>sem_flags := 0x10\<rparr>" 7 100 WAIT_FOREVER "(0, 0)"]
    by (auto simp: killed_or_flushed_def vxw_codes s32_def)
  have "sem_reach (w', (\<lambda>_. Idle)(7 := take_pc (Returned OK)))"
    by (rule sem_reach.Step [OF mutex_world_reach], rule sem_step.Take [OF _ _ _ w']) simp_all
  moreover have "guar 100 (smcb mutex_world 500) (smcb w' 500)"
    using semTake_guar [OF w'] by (simp add: sems_guar_def mutex_ok_new)
  then have "is_mutex (smcb w' 500)" by (simp add: guar_def mutex_ok_new)
  ultimately show ?thesis using w' lev by blast
qed

theorem mutex_exclusion_witness:
  "\<exists>w'. semTake 7 500 WAIT_FOREVER (0, 0) mutex_world = Done (Returned OK, w')
     \<and> token_count (smcb w' 500) = 0 \<and> current_owner (smcb w' 500) \<noteq> NULL"
proof -
  obtain w' pc where w': "semTake 7 500 WAIT_FOREVER (0, 0) mutex_world = Done (Returned OK, w')"
    "sem_reach (w', pc)" "is_mutex (smcb w' 500)" "recursion_level (smcb w' 500) = 1"
    using mutex_world_taken by blast
  with mutex_exclusion [OF w'(2,3)] show ?thesis by auto
qed

theorem mutex_take_owns_witness:
  "\<exists>w'. semTake 7 500 WAIT_FOREVER (0, 0) mutex_world = Done (Returned OK, w')
     \<and> current_owner (smcb w' 500) = 100"
proof -
  obtain w' pc where w': "semTake 7 500 WAIT_FOREVER (0, 0) mutex_world = Done (Returned OK, w')"
    using mutex_world_taken by blast
  with mutex_take_owns [OF mutex_world_reach, of 500 7 WAIT_FOREVER "(0, 0)" w'] show ?thesis
    by (simp add: vxw_codes)
qed

text \<open>C35. \<^verbatim>\<open>semTake\<close> with \<^verbatim>\<open>NO_WAIT\<close> on a semaphore without a token reports success: the
  condition wait times out at once, and the call returns \<^verbatim>\<open>OK\<close> although the token count
  and the owner are unchanged. (The test in the code is for a code that is not
  \<open>ETIMEDOUT\<close>.)\<close>

theorem semTake_no_wait_false_success:
  assumes "s \<in> set (sem_list w)" and "s \<in> dom (sems w)" and "smcb w s = v" and "sem_lock v = 0"
    and "\<not> killed_or_flushed v" and "token_count v \<le> 0" and "my_task me w = t" and "t \<noteq> NULL"
    and "is_mutex v \<longrightarrow> current_owner v \<noteq> t" and "sem_flags v AND SEM_INVERSION_SAFE = 0"
    and "t \<notin> set (sem_first_susp v)"
  shows "\<exists>fr w1 w2. semTake me s NO_WAIT now w = Done (AtCond fr, w1)
     \<and> semTake_wake me ETIMEDOUT fr w1 = Done (Returned OK, w2)
     \<and> smcb w2 s = v"
proof -
  let ?L = "entered s t w" and ?fr = "start_frame s t NO_WAIT now"
  note E = entered_simps [OF assms(2,8)]
  have L: "smcb ?L s = v\<lparr>sem_first_susp := sem_first_susp v @ [t]\<rparr>" using E(2) assms(3,11) by simp
  have nk: "\<not> killed_or_flushed (smcb ?L s)" using assms(5) by (simp add: L killed_or_flushed_def)
  have wos: "waiting_on_sem me s ?L = (Still, ?L)"
    using nk assms(6) by (simp add: waiting_on_sem_def token_loop_def L)
  have take: "semTake me s NO_WAIT now w = Done (AtCond ?fr, ?L)"
    using assms by (subst semTake_enters [of s w me t]) (simp_all add: wos take_poll_def vxw_codes)
  have to: "tf_timeout ?fr \<noteq> None" by (simp add: start_frame_def)
  let ?fr' = "?fr\<lparr>tf_retcode := ETIMEDOUT\<rparr>"
  have "semTake_wake me ETIMEDOUT ?fr ?L = take_exit me ?fr' ?L"
    using E(1) assms(4) to wos L by (auto simp: semTake_wake_def take_poll_def)
  also have "\<dots> = take_return me t OK (unlink_susp_task (SemSusp s) t ?L)"
    using nk by (simp add: take_exit_def take_error_def)
  finally have wake: "semTake_wake me ETIMEDOUT ?fr ?L
      = Done (Returned OK, upd_task t (\<lambda>x. x\<lparr>waiting := NULL\<rparr>) (unlink_susp_task (SemSusp s) t ?L))"
    using assms(8) by (simp add: take_return_def finish_def)
  have "smcb (unlink_susp_task (SemSusp s) t ?L) s = v"
    using E(1) L assms(8,11) by (simp add: unlink_susp_task_def remove1_append del: domIff)
  then show ?thesis using take wake by auto
qed

theorem semTake_no_wait_false_success_witness:
  "\<exists>fr w1 w2. semTake 8 500 NO_WAIT (0, 0) (upd_sem 500 (\<lambda>s. s\<lparr>token_count := 0, recursion_level := 1,
        current_owner := 100\<rparr>) mutex_world) = Done (AtCond fr, w1)
     \<and> semTake_wake 8 ETIMEDOUT fr w1 = Done (Returned OK, w2)
     \<and> token_count (smcb w2 500) = 0 \<and> current_owner (smcb w2 500) = 100"
  using semTake_no_wait_false_success [of 500 "upd_sem 500 (\<lambda>s. s\<lparr>token_count := 0, recursion_level := 1,
        current_owner := 100\<rparr>) mutex_world" "(new_sem 1)\<lparr>sem_flags := 0x10, token_count := 0,
        recursion_level := 1, current_owner := 100\<rparr>" 8 200 "(0, 0)"]
  by (auto simp: killed_or_flushed_def is_mutex_def vxw_codes)

text \<open>C29. The deadline of a timed \<^verbatim>\<open>semTake\<close>, for every tick count. It is the current time plus
  the product of the ticks and ten milliseconds, which is computed in an \<open>int\<close>. Up to 214748 ticks
  (36 minutes) the product is right, and the split into seconds and nanoseconds is valid except when
  the microseconds add up to exactly one million: then the nanoseconds are one billion, which
  \<open>pthread_cond_timedwait\<close> rejects. From 214749 ticks on the product wraps around: up to 429396 ticks
  the deadline has negative nanoseconds and lies in the past.\<close>

theorem sem_deadline_correct:
  assumes "0 \<le> n" and "n \<le> 2147483647" and "0 \<le> usec" and "usec < 1000000" and "d = sem_deadline n (sec, usec)"
  shows "fst d * 1000000000 + snd d = sec * 1000000000 + (usec + s32 (n * 10000)) * 1000
     \<and> (n \<le> 214748 \<longrightarrow> s32 (n * 10000) = n * 10000 \<and> 0 \<le> snd d \<and> snd d \<le> 1000000000
          \<and> (snd d = 1000000000 \<longleftrightarrow> usec + n * 10000 = 1000000))
     \<and> (214749 \<le> n \<and> n \<le> 429396 \<longrightarrow> fst d = sec \<and> snd d < 0)"
proof -
  let ?m = "s32 (n * 10000)"
  have m: "s32 (s32 (n * 10) * 1000) = ?m" by (simp add: s32_mult mult.assoc)
  define u where "u = ?m + usec"
  have d: "d = (sec + (if u > 1000000 then u div 1000000 else 0), (if u > 1000000 then u mod 1000000 else u) * 1000)"
    using assms(5) by (simp add: sem_deadline_def V2PT_TICK_def m u_def Let_def)
  define q r where "q = u div 1000000" and "r = u mod 1000000"
  have qr: "q * 1000000 + r = u" "0 \<le> r" "r < 1000000"
    unfolding q_def r_def by (rule div_mult_mod_eq, simp_all)
  have total: "fst d * 1000000000 + snd d = sec * 1000000000 + (usec + ?m) * 1000"
    using qr(1) unfolding d q_def [symmetric] r_def [symmetric] by (auto simp: u_def)
  have small: "?m = n * 10000 \<and> 0 \<le> snd d \<and> snd d \<le> 1000000000 \<and> (snd d = 1000000000 \<longleftrightarrow> usec + n * 10000 = 1000000)"
    if "n \<le> 214748"
  proof -
    have "?m = n * 10000" using that assms(1) by (intro s32_id) (simp add: in_s32_def)
    then show ?thesis using qr assms(1,3) unfolding d q_def [symmetric] r_def [symmetric] by (auto simp: u_def)
  qed
  have "?m = n * 10000 - 4294967296" if "214749 \<le> n" "n \<le> 429396"
    using s32_eq_mod [of "n * 10000" "n * 10000 - 4294967296"] that s32_id [of "n * 10000 - 4294967296"]
    by (simp add: in_s32_def)
  then have "fst d = sec \<and> snd d < 0" if "214749 \<le> n" "n \<le> 429396"
    using that assms(4) unfolding d u_def by auto
  with total small show ?thesis by blast
qed

theorem sem_deadline_correct_witness:
  "sem_deadline 150 (7, 600000) = (9, 100000000) \<and> snd (sem_deadline 40 (7, 600000)) = 1000000000
     \<and> snd (sem_deadline 360000 (7, 600000)) < 0"
  using sem_deadline_correct [of 150 600000 _ 7, OF _ _ _ _ refl] sem_deadline_correct [of 40 600000 _ 7, OF _ _ _ _ refl]
    sem_deadline_correct [of 360000 600000 _ 7, OF _ _ _ _ refl]
  by (simp add: sem_deadline_def V2PT_TICK_def s32_def Let_def)

text \<open>\<^verbatim>\<open>semFlush\<close> of a semaphore no task waits on returns \<^verbatim>\<open>OK\<close> with its mutex still
  locked: from then on every \<^verbatim>\<open>semTake\<close>, \<^verbatim>\<open>semGive\<close>, \<^verbatim>\<open>semFlush\<close> and \<^verbatim>\<open>semDelete\<close> of that
  semaphore, by any thread, blocks.\<close>

theorem semFlush_leaves_lock:
  assumes "s \<in> set (sem_list w)" and "s \<in> dom (sems w)" and "sem_lock (smcb w s) = 0"
    and "\<not> is_mutex (smcb w s)" and "sem_first_susp (smcb w s) = []"
    and "me \<noteq> 0" and "locker w = 0 \<or> locker w = me"
  shows "\<exists>w'. semFlush me s w = Done (Ret OK, w')
     \<and> semTake other s n now w' = Blocked \<and> semGive other s w' = Blocked
     \<and> semFlush other s w' = Blocked \<and> semDelete other s w' = Blocked"
proof -
  obtain w1 where w1: "taskLock me w = Done w1" using assms(7) taskLock_Done_iff by blast
  let ?w' = "taskUnlock me (upd_sem s (\<lambda>s. s\<lparr>sem_lock := me\<rparr>) w1)"
  have sm: "smcb w1 = smcb w" by (rule smcb_cong) (simp add: taskLock_frame [OF w1])
  have fl: "semFlush me s w = Done (Ret OK, ?w')"
    using assms w1 by (simp add: semFlush_def sem_find_lock_def sm ret_status_def finish_def)
  have "smcb ?w' = smcb (upd_sem s (\<lambda>s. s\<lparr>sem_lock := me\<rparr>) w1)" by (rule smcb_cong) simp
  moreover have "s \<in> dom (sems w1)" using assms(2) by (simp add: taskLock_frame [OF w1] del: domIff)
  ultimately have "sem_lock (smcb ?w' s) = me" by (simp del: domIff)
  then have bl: "sem_find_lock s ?w' = Blocked"
    using assms(1,6) by (simp add: sem_find_lock_def taskLock_frame [OF w1])
  have "semTake other s n now ?w' = Blocked" "semGive other s ?w' = Blocked"
    "semFlush other s ?w' = Blocked" "semDelete other s ?w' = Blocked"
    by (simp_all add: semTake_def semGive_def semFlush_def semDelete_def bl)
  with fl show ?thesis by blast
qed

text \<open>A counting semaphore with two tokens at address 500.\<close>

definition count_world :: world where
  "count_world = mutex_world\<lparr>sems := [500 \<mapsto> (new_sem 2)\<lparr>sem_flags := 0x20\<rparr>]\<rparr>"

lemma count_world_simps [simp]:
  "sem_list count_world = [500]" "sems count_world = [500 \<mapsto> (new_sem 2)\<lparr>sem_flags := 0x20\<rparr>]"
  "smcb count_world 500 = (new_sem 2)\<lparr>sem_flags := 0x20\<rparr>" "locker count_world = 0"
  "my_task th count_world = my_task th two_tasks" "taskLock_level count_world = 0"
  by (simp_all add: count_world_def smcb_def)

theorem semFlush_leaves_lock_witness:
  "\<exists>w'. semFlush 7 500 count_world = Done (Ret OK, w') \<and> semTake 8 500 WAIT_FOREVER (0, 0) w' = Blocked
     \<and> semGive 8 500 w' = Blocked"
  using semFlush_leaves_lock [of 500 count_world 7 8 WAIT_FOREVER "(0, 0)"]
  by (auto simp: is_mutex_def vxw_codes)

text \<open>C36. A deletion can be missed. A task that waits for its turn inside
  \<^verbatim>\<open>waiting_on_sem\<close> (there was a token for a task ahead of it) does not look at the send type
  when its tick is over: if the token is gone by then and \<^verbatim>\<open>semDelete\<close> has already woken
  the waiting tasks, it goes to sleep at the condition variable, still in the list, and the
  deleting call goes on waiting for the list to become empty.\<close>

theorem semDelete_lost_wakeup:
  assumes "tf_sem fr = s" and "tf_timeout fr = None" and "s \<in> dom (sems w)"
    and "sem_lock (smcb w s) = 0" and "send_type (smcb w s) = KILLD" and "token_count (smcb w s) \<le> 0"
    and "tf_task fr \<in> set (sem_first_susp (smcb w s))"
  shows "\<exists>w'. semTake_tick me now fr w = Done (AtCond fr, w') \<and> send_type (smcb w' s) = KILLD
     \<and> tf_task fr \<in> set (sem_first_susp (smcb w' s)) \<and> semDelete_resume d s w' = Done (Parked, w')"
proof -
  let ?w = "taskDelay_end (my_task me w) w"
  have sm: "smcb ?w = smcb w" by (rule smcb_cong) simp
  have "semTake_tick me now fr w = Done (AtCond fr, ?w)"
    using assms by (auto simp: semTake_tick_def Let_def sm token_loop_def take_poll_def)
  moreover have "semDelete_resume d s ?w = Done (Parked, ?w)"
    using assms(7) by (auto simp: semDelete_resume_def sm)
  ultimately show ?thesis using assms(5,7) by (simp add: sm)
qed

theorem semDelete_lost_wakeup_witness:
  "\<exists>w'. semTake_tick 7 (0, 0) (start_frame 500 100 WAIT_FOREVER (0, 0))
        (upd_sem 500 (\<lambda>s. s\<lparr>token_count := 0, send_type := KILLD, sem_first_susp := [100]\<rparr>) count_world)
      = Done (AtCond (start_frame 500 100 WAIT_FOREVER (0, 0)), w')
     \<and> send_type (smcb w' 500) = KILLD \<and> semDelete_resume 8 500 w' = Done (Parked, w')"
  using semDelete_lost_wakeup [of "start_frame 500 100 WAIT_FOREVER (0, 0)" 500
      "upd_sem 500 (\<lambda>s. s\<lparr>token_count := 0, send_type := KILLD, sem_first_susp := [100]\<rparr>) count_world"
      7 "(0, 0)" 8]
  by (auto simp: start_frame_def vxw_codes)

text \<open>C20. \<^verbatim>\<open>semGive\<close> on every branch: an unknown semaphore and a mutex of another task are
  errors that change nothing but \<open>errno\<close>; giving a nested mutex takes one level back;
  giving the last level frees the mutex and returns its token; giving any other semaphore
  adds a token, without the limit of one a binary semaphore should have.\<close>

theorem semGive_spec:
  assumes "smcb w s = v" and "s \<in> set (sem_list w) \<Longrightarrow> s \<in> dom (sems w)" and "sem_lock v = 0"
    and "sem_flags v AND SEM_DELETE_SAFE = 0" and "sem_flags v AND SEM_INVERSION_SAFE = 0"
  shows "semGive me s w =
    (if s \<notin> set (sem_list w) then Done (Ret ERROR, set_errno me S_objLib_OBJ_ID_ERROR w)
     else if is_mutex v \<and> current_owner v \<noteq> my_task me w
     then Done (Ret ERROR, set_errno me S_semLib_INVALID_OPERATION w)
     else if 1 < recursion_level v
     then Done (Ret OK, upd_sem s (\<lambda>x. x\<lparr>recursion_level := recursion_level x - 1\<rparr>) w)
     else if recursion_level v = 1
     then Done (Ret OK, upd_sem s (\<lambda>x. x\<lparr>recursion_level := 0,
            token_count := s32 (token_count x + 1), current_owner := NULL\<rparr>) w)
     else Done (Ret OK, upd_sem s (\<lambda>x. x\<lparr>token_count := s32 (token_count x + 1)\<rparr>) w))"
proof (cases "s \<in> set (sem_list w) \<and> (is_mutex v \<longrightarrow> current_owner v = my_task me w)
    \<and> 0 < recursion_level v")
  case True
  then have dom: "s \<in> dom (sems w)" using assms(2) by blast
  let ?w1 = "upd_sem s (\<lambda>x. x\<lparr>recursion_level := recursion_level x - 1\<rparr>) w"
  have lev: "recursion_level (smcb ?w1 s) = recursion_level v - 1" using dom assms(1) by (simp del: domIff)
  have "upd_sem s (\<lambda>x. x\<lparr>recursion_level := recursion_level x - 1, token_count := s32 (token_count x + 1),
          current_owner := NULL\<rparr>) w
      = upd_sem s (\<lambda>x. x\<lparr>recursion_level := 0, token_count := s32 (token_count x + 1),
          current_owner := NULL\<rparr>) w" if "recursion_level v = 1"
    using that assms(1) by (intro upd_sem_cong) simp
  then show ?thesis
    using True assms(1,3-5) lev
    by (auto simp: semGive_def sem_find_lock_def give_tail_def Let_def ret_status_def finish_def
        smcb_upd_field upd_sem_comp)
next
  case False
  then show ?thesis
    using assms(1,3) by (auto simp: semGive_def sem_find_lock_def ret_status_def finish_def Let_def)
qed

theorem semGive_spec_witness:
  "semGive 8 500 (upd_sem 500 (\<lambda>s. s\<lparr>token_count := 0, recursion_level := 1, current_owner := 100\<rparr>) mutex_world)
     = Done (Ret ERROR, set_errno 8 S_semLib_INVALID_OPERATION
         (upd_sem 500 (\<lambda>s. s\<lparr>token_count := 0, recursion_level := 1, current_owner := 100\<rparr>) mutex_world))
   \<and> semGive 7 500 count_world = Done (Ret OK, upd_sem 500 (\<lambda>x. x\<lparr>token_count := s32 (token_count x + 1)\<rparr>) count_world)"
  using semGive_spec [of "upd_sem 500 (\<lambda>s. s\<lparr>token_count := 0, recursion_level := 1, current_owner := 100\<rparr>) mutex_world"
      500 "(new_sem 1)\<lparr>sem_flags := 0x10, token_count := 0, recursion_level := 1, current_owner := 100\<rparr>" 8]
    semGive_spec [of count_world 500 "(new_sem 2)\<lparr>sem_flags := 0x20\<rparr>" 7]
  by (simp add: is_mutex_def vxw_codes)

text \<open>C27. The handle of a deleted semaphore is dead: deleting a semaphore no task waits on
  removes and frees its control block, and afterwards \<^verbatim>\<open>semTake\<close>, \<^verbatim>\<open>semGive\<close>, \<^verbatim>\<open>semFlush\<close> and
  \<^verbatim>\<open>semDelete\<close> with the old handle, by any thread, return \<^verbatim>\<open>ERROR\<close> with
  \<^verbatim>\<open>S_objLib_OBJ_ID_ERROR\<close>, while the handles of other semaphores stay valid.\<close>

theorem semDelete_stale_handle:
  assumes "s \<in> set (sem_list w)" and "distinct (sem_list w)" and "sem_lock (smcb w s) = 0"
    and "sem_first_susp (smcb w s) = []" and "locker w = 0 \<or> locker w = me"
  shows "\<exists>w'. semDelete me s w = Done (Ret OK, w') \<and> s \<notin> dom (sems w')
     \<and> semTake th s n now w' = Done (Returned ERROR, set_errno th S_objLib_OBJ_ID_ERROR w')
     \<and> semGive th s w' = Done (Ret ERROR, set_errno th S_objLib_OBJ_ID_ERROR w')
     \<and> semFlush th s w' = Done (Ret ERROR, set_errno th S_objLib_OBJ_ID_ERROR w')
     \<and> semDelete th s w' = Done (Ret ERROR, set_errno th S_objLib_OBJ_ID_ERROR w')
     \<and> (\<forall>a. a \<noteq> s \<longrightarrow> (sem_find_lock a w' \<noteq> Done False) = (sem_find_lock a w \<noteq> Done False))"
proof -
  obtain w1 where w1: "taskLock me w = Done w1" using assms(5) taskLock_Done_iff by blast
  let ?w' = "taskUnlock me (free_sem s w1)"
  have sm: "smcb w1 = smcb w" by (rule smcb_cong) (simp add: taskLock_frame [OF w1])
  have "sem_find_lock s (unlink_smcb s w1) = Done False"
    using sem_registry.stale_handle [of w1 s] assms(2) by (simp add: taskLock_frame [OF w1])
  then have f: "sem_find_lock s ?w' = Done False" by (simp add: sem_find_lock_Done free_sem_def)
  have del: "semDelete me s w = Done (Ret OK, ?w')"
    using assms(1,3,4) w1 by (simp add: semDelete_def sem_find_lock_def sm ret_status_def finish_def)
  have "(sem_find_lock a ?w' \<noteq> Done False) = (sem_find_lock a w \<noteq> Done False)" if "a \<noteq> s" for a
    using sem_registry.other_handle [OF that, of w1]
    by (simp add: sem_find_lock_Done free_sem_def taskLock_frame [OF w1])
  with del f show ?thesis
    by (intro exI [of _ ?w']) (simp add: semTake_def semGive_def semFlush_def semDelete_def ret_status_def finish_def
        free_sem_def)
qed

theorem semDelete_stale_handle_witness:
  "\<exists>w'. semDelete 7 500 count_world = Done (Ret OK, w') \<and> 500 \<notin> dom (sems w')
     \<and> semGive 8 500 w' = Done (Ret ERROR, set_errno 8 S_objLib_OBJ_ID_ERROR w')"
  using semDelete_stale_handle [of 500 count_world 7 8 0 "(0, 0)"] by auto

end
