(* ===== verification/Msg_Ring.thy ===== *)
theory Msg_Ring
  imports Interfaces
begin

text \<open>
  The ring of messages inside a queue of \<^verbatim>\<open>lib/lmsgQLib.c\<close>, at the level of bytes: the
  extent is one block of \<^verbatim>\<open>msgs_per_queue + 1\<close> elements of \<^verbatim>\<open>vmsg_len\<close> bytes, each with the
  length of its message (a 32-bit \<open>msglen\<close> in the byte order of x86, at offset 0) and the
  bytes of the message (from offset 8, where \<open>msgbuf\<close> is in the 16-byte \<^verbatim>\<open>q_msg_t\<close> of a
  64-bit machine). The pointers \<^verbatim>\<open>queue_head\<close>, \<^verbatim>\<open>queue_tail\<close>, \<^verbatim>\<open>first_msg_in_queue\<close> and
  \<^verbatim>\<open>last_msg_in_queue\<close> are byte offsets from the start of the block; an access outside the
  block is \<open>Crashed\<close>.

  The ring is shown to provide the interface \<open>msg_buffer\<close>.
\<close>


section \<open>Bytes\<close>

definition Q_SEND :: "32 word" where [vxw_codes]: "Q_SEND = 0"
definition Q_URGNT :: "32 word" where [vxw_codes]: "Q_URGNT = 1"
definition Q_KILLD :: "32 word" where [vxw_codes]: "Q_KILLD = 2"

text \<open>\<open>sizeof(q_msg_t) - sizeof(char *)\<close>, which is also the offset of \<open>msgbuf\<close>.\<close>

definition HDR :: int where [vxw_codes]: "HDR = 8"

definition le32 :: "int \<Rightarrow> byte list" where
  "le32 n = [word_of_int n, word_of_int (n div 256), word_of_int (n div 65536),
             word_of_int (n div 16777216)]"

fun of_le32 :: "byte list \<Rightarrow> int" where
  "of_le32 [a, b, c, d] = uint a + 256 * uint b + 65536 * uint c + 16777216 * uint d"
| "of_le32 _ = 0"

text \<open>The copy loops: \<open>copy_to off bs mem\<close> writes the bytes \<open>bs\<close> one by one from offset
  \<open>off\<close>, \<open>copy_from off n mem\<close> reads \<open>n\<close> bytes. Both stop with \<open>None\<close> at the first byte
  outside the block.\<close>

fun copy_to :: "int \<Rightarrow> byte list \<Rightarrow> byte list \<Rightarrow> byte list option" where
  "copy_to off [] mem = Some mem"
| "copy_to off (b # bs) mem =
     (if 0 \<le> off \<and> off < int (length mem) then copy_to (off + 1) bs (mem[nat off := b]) else None)"

fun copy_from :: "int \<Rightarrow> nat \<Rightarrow> byte list \<Rightarrow> byte list option" where
  "copy_from off 0 mem = Some []"
| "copy_from off (Suc n) mem =
     (if 0 \<le> off \<and> off < int (length mem)
      then map_option ((#) (mem ! nat off)) (copy_from (off + 1) n mem) else None)"

definition opt_outcome :: "'a option \<Rightarrow> 'a outcome" where
  "opt_outcome r = (case r of Some x \<Rightarrow> Done x | None \<Rightarrow> Crashed)"


section \<open>Operations\<close>

text \<open>A message pointer that is not \<open>NULL\<close> is given by the bytes it points to, of which the
  first \<open>msglen\<close> are copied.\<close>

definition put_msg :: "int \<Rightarrow> byte list option \<Rightarrow> int \<Rightarrow> byte list \<Rightarrow> byte list outcome" where
  "put_msg element msg msglen mem =
     obind (case msg of
              None \<Rightarrow> Done mem
            | Some bs \<Rightarrow> if int (length bs) < msglen then Crashed
                        else opt_outcome (copy_to (element + HDR) (take (nat msglen) bs) mem))
       (\<lambda>mem'. opt_outcome (copy_to element (le32 msglen) mem'))"

definition urgent_msg_to :: "byte list option \<Rightarrow> int \<Rightarrow> v2pt_mqueue_t \<Rightarrow> v2pt_mqueue_t outcome" where
  "urgent_msg_to msg msglen queue =
     (let head = queue_head queue - vmsg_len queue;
          head' = (if head < first_msg_in_queue queue then last_msg_in_queue queue else head)
      in obind (put_msg head' msg msglen (extent queue)) (\<lambda>mem.
           Done (queue\<lparr>extent := mem, queue_head := head', msg_count := s32 (msg_count queue + 1),
                       q_send_type := Q_URGNT\<rparr>)))"

definition send_msg_to :: "byte list option \<Rightarrow> int \<Rightarrow> v2pt_mqueue_t \<Rightarrow> v2pt_mqueue_t outcome" where
  "send_msg_to msg msglen queue =
     obind (put_msg (queue_tail queue) msg msglen (extent queue)) (\<lambda>mem.
       let tail = queue_tail queue + vmsg_len queue;
           tail' = (if tail > last_msg_in_queue queue then first_msg_in_queue queue else tail)
       in Done (queue\<lparr>extent := mem, queue_tail := tail', msg_count := s32 (msg_count queue + 1),
                      q_send_type := Q_SEND\<rparr>))"

text \<open>\<open>msg\<close> says whether the caller's buffer is not \<open>NULL\<close>; the result has the bytes
  copied to it and the length returned.\<close>

definition fetch_msg_from :: "bool \<Rightarrow> v2pt_mqueue_t \<Rightarrow> (byte list \<times> int \<times> v2pt_mqueue_t) outcome" where
  "fetch_msg_from msg queue =
     (let head = queue_head queue in
      obind (if msg
             then obind (opt_outcome (copy_from head 4 (extent queue))) (\<lambda>l.
                    obind (opt_outcome (copy_from (head + HDR) (nat (of_le32 l)) (extent queue)))
                      (\<lambda>bs. Done (bs, of_le32 l)))
             else Done ([], 0)) (\<lambda>(bs, msglen).
        obind (opt_outcome (copy_to (head + HDR) [0] (extent queue))) (\<lambda>mem.
          obind (opt_outcome (copy_to head (le32 0) mem)) (\<lambda>mem'.
            let head' = head + vmsg_len queue;
                head'' = (if head' > last_msg_in_queue queue then first_msg_in_queue queue else head')
            in Done (bs, msglen, queue\<lparr>extent := mem', queue_head := head'',
                                       msg_count := s32 (msg_count queue - 1)\<rparr>)))))"

text \<open>\<open>mem\<close> is the block \<open>malloc\<close> returned for the extent. The number of bytes cleared is
  an \<open>int\<close>.\<close>

definition alloc_size :: "v2pt_mqueue_t \<Rightarrow> int" where
  "alloc_size queue =
     ((HDR + msg_len queue) * ((s32 (msgs_per_queue queue + 1)) mod 2 ^ 64)) mod 2 ^ 64"

definition data_extent_for :: "byte list option \<Rightarrow> v2pt_mqueue_t \<Rightarrow> v2pt_mqueue_t option outcome" where
  "data_extent_for block queue =
     (let queue' = queue\<lparr>vmsg_len := HDR + msg_len queue\<rparr> in
      case block of
        None \<Rightarrow> Done None
      | Some mem \<Rightarrow>
          let n = s32 (alloc_size queue) in
          if n < 0 then Crashed
          else Done (Some (queue'\<lparr>extent := replicate (nat n) 0 @ drop (nat n) mem,
                 first_msg_in_queue := 0,
                 last_msg_in_queue := vmsg_len queue' * msgs_per_queue queue\<rparr>)))"


section \<open>Lemmas: bytes\<close>

lemma length_le32 [simp]: "length (le32 n) = 4"
  by (simp add: le32_def)

lemma of_le32_le32:
  assumes "0 \<le> n" and "n < 2 ^ 32"
  shows "of_le32 (le32 n) = n"
proof -
  define a b c where "a = n div 256" and "b = a div 256" and "c = b div 256"
  have "n div 65536 = b" "n div 16777216 = c"
    unfolding a_def b_def c_def by (simp_all flip: zdiv_zmult2_eq)
  then have "of_le32 (le32 n) = n mod 256 + 256 * (a mod 256) + 65536 * (b mod 256) + 16777216 * (c mod 256)"
    by (simp add: le32_def unsigned_of_int take_bit_eq_mod a_def)
  moreover have "n = 256 * a + n mod 256" "a = 256 * b + a mod 256" "b = 256 * c + b mod 256"
    unfolding a_def b_def c_def by simp_all
  moreover have "c mod 256 = c"
    using assms \<open>n div 16777216 = c\<close> by (intro mod_pos_pos_trivial) auto
  ultimately show ?thesis by linarith
qed

text \<open>\<open>overwrite off bs mem\<close> replaces the bytes of \<open>mem\<close> from \<open>off\<close> by \<open>bs\<close>; it is what
  the copy loops compute inside the block.\<close>

definition overwrite :: "nat \<Rightarrow> byte list \<Rightarrow> byte list \<Rightarrow> byte list" where
  "overwrite off bs mem = take off mem @ bs @ drop (off + length bs) mem"

lemma length_overwrite: "off + length bs \<le> length mem \<Longrightarrow> length (overwrite off bs mem) = length mem"
  by (simp add: overwrite_def)

lemma nth_overwrite:
  "off + length bs \<le> length mem \<Longrightarrow> k < length mem \<Longrightarrow>
     overwrite off bs mem ! k = (if off \<le> k \<and> k < off + length bs then bs ! (k - off) else mem ! k)"
  by (auto simp: overwrite_def nth_append min_def)

lemma copy_to_overwrite:
  "off + length bs \<le> length mem \<Longrightarrow> copy_to (int off) bs mem = Some (overwrite off bs mem)"
proof (induction bs arbitrary: off mem)
  case Nil
  then show ?case by (simp add: overwrite_def)
next
  case (Cons b bs)
  have "copy_to (int (Suc off)) bs (mem[off := b]) = Some (overwrite (Suc off) bs (mem[off := b]))"
    using Cons.prems by (intro Cons.IH) simp
  moreover have "overwrite (Suc off) bs (mem[off := b]) = overwrite off (b # bs) mem"
    using Cons.prems
    by (intro nth_equalityI) (auto simp: length_overwrite nth_overwrite nth_list_update nth_Cons')
  ultimately show ?case using Cons.prems by (simp add: add.commute)
qed

lemma copy_from_take:
  "off + n \<le> length mem \<Longrightarrow> copy_from (int off) n mem = Some (take n (drop off mem))"
proof (induction n arbitrary: off)
  case 0
  then show ?case by simp
next
  case (Suc n)
  have "copy_from (int (Suc off)) n mem = Some (take n (drop (Suc off) mem))"
    using Suc.prems by (intro Suc.IH) simp
  then show ?case using Suc.prems by (simp add: add.commute Cons_nth_drop_Suc [symmetric])
qed

lemma copy_to_outside: "int (length mem) \<le> off \<Longrightarrow> bs \<noteq> [] \<Longrightarrow> copy_to off bs mem = None"
  by (cases bs) auto

section \<open>The ring as a list of messages\<close>

text \<open>The extent is an array of elements; \<open>elem V i mem\<close> is element \<open>i\<close> of size \<open>V\<close>, and
  \<open>decode\<close> the message in it. The messages of a queue are those of the \<open>msg_count\<close>
  elements that follow \<open>queue_head\<close>, wrapping at the end of the extent.\<close>

definition elem :: "nat \<Rightarrow> nat \<Rightarrow> byte list \<Rightarrow> byte list" where
  "elem V i mem = take V (drop (i * V) mem)"

definition decode :: "byte list \<Rightarrow> byte list" where
  "decode el = take (nat (of_le32 (take 4 el))) (drop (nat HDR) el)"

definition slots :: "v2pt_mqueue_t \<Rightarrow> nat" where
  "slots q = nat (msgs_per_queue q) + 1"

definition head_slot :: "v2pt_mqueue_t \<Rightarrow> nat" where
  "head_slot q = nat (queue_head q div vmsg_len q)"

definition msg_slot :: "v2pt_mqueue_t \<Rightarrow> nat \<Rightarrow> nat" where
  "msg_slot q j = (head_slot q + j) mod slots q"

definition q_elem :: "v2pt_mqueue_t \<Rightarrow> nat \<Rightarrow> byte list" where
  "q_elem q i = elem (nat (vmsg_len q)) i (extent q)"

definition ring_msgs :: "v2pt_mqueue_t \<Rightarrow> byte list list" where
  "ring_msgs q = map (\<lambda>j. decode (q_elem q (msg_slot q j))) [0..<nat (msg_count q)]"

definition ring_geometry :: "v2pt_mqueue_t \<Rightarrow> bool" where
  "ring_geometry q \<longleftrightarrow> 0 \<le> msgs_per_queue q \<and> msgs_per_queue q < 2147483647
     \<and> 0 < msg_len q \<and> msg_len q < 4294967296 \<and> vmsg_len q = HDR + msg_len q
     \<and> first_msg_in_queue q = 0 \<and> last_msg_in_queue q = vmsg_len q * msgs_per_queue q
     \<and> int (length (extent q)) = vmsg_len q * (msgs_per_queue q + 1)"

definition ring_wf :: "v2pt_mqueue_t \<Rightarrow> bool" where
  "ring_wf q \<longleftrightarrow> ring_geometry q \<and> 0 \<le> msg_count q \<and> msg_count q \<le> msgs_per_queue q + 1
     \<and> head_slot q < slots q \<and> queue_head q = vmsg_len q * int (head_slot q)
     \<and> queue_tail q = vmsg_len q * int (msg_slot q (nat (msg_count q)))
     \<and> (\<forall>j < nat (msg_count q). of_le32 (take 4 (q_elem q (msg_slot q j))) \<le> msg_len q)"


section \<open>Lemmas: the ring\<close>

lemma length_elem: "Suc i * V \<le> length mem \<Longrightarrow> length (elem V i mem) = V"
  by (simp add: elem_def)

lemma nth_elem: "Suc i * V \<le> length mem \<Longrightarrow> k < V \<Longrightarrow> elem V i mem ! k = mem ! (i * V + k)"
  by (simp add: elem_def)

lemma elem_disjoint:
  assumes "i \<noteq> j" and "k < V" and "m < V"
  shows "i * V + k \<noteq> j * V + (m::nat)"
proof
  assume "i * V + k = j * V + m"
  then have "(i * V + k) div V = (j * V + m) div V" by simp
  with assms show False by simp
qed

lemma elem_overwrite:
  assumes "off + length bs \<le> V" and "Suc i * V \<le> length mem" and "Suc j * V \<le> length mem"
  shows "elem V j (overwrite (i * V + off) bs mem)
       = (if j = i then overwrite off bs (elem V i mem) else elem V j mem)"
proof (intro nth_equalityI)
  let ?mem' = "overwrite (i * V + off) bs mem"
  have fits: "i * V + off + length bs \<le> length mem" using assms by simp
  then have len': "length ?mem' = length mem" by (simp add: length_overwrite)
  show "length (elem V j ?mem') = length (if j = i then overwrite off bs (elem V i mem) else elem V j mem)"
    using assms len' by (simp add: length_elem length_overwrite)
  fix k
  assume "k < length (elem V j ?mem')"
  then have k: "k < V" using assms len' by (simp add: length_elem)
  have "j * V + k < length mem" using assms(3) k by simp
  then have "elem V j ?mem' ! k
      = (if i * V + off \<le> j * V + k \<and> j * V + k < i * V + off + length bs
         then bs ! (j * V + k - (i * V + off)) else mem ! (j * V + k))"
    using assms len' k fits by (simp add: nth_elem nth_overwrite)
  also have "\<dots> = (if j = i then overwrite off bs (elem V i mem) else elem V j mem) ! k"
  proof (cases "j = i")
    case True
    then show ?thesis using assms k by (simp add: nth_overwrite length_elem nth_elem)
  next
    case False
    have "\<not> (i * V + off \<le> j * V + k \<and> j * V + k < i * V + off + length bs)"
      using elem_disjoint [OF False k, of "j * V + k - i * V"] assms(1) by linarith
    then show ?thesis using False assms k by (auto simp: nth_elem)
  qed
  finally show "elem V j ?mem' ! k = (if j = i then overwrite off bs (elem V i mem) else elem V j mem) ! k" .
qed

lemma take_overwrite: "length bs \<le> length mem \<Longrightarrow> take (length bs) (overwrite 0 bs mem) = bs"
  by (simp add: overwrite_def)

lemma drop_overwrite: "length bs \<le> n \<Longrightarrow> drop n (overwrite 0 bs mem) = drop n mem"
  by (simp add: overwrite_def)

lemma take_drop_overwrite:
  "off + length bs \<le> length mem \<Longrightarrow> take (length bs) (drop off (overwrite off bs mem)) = bs"
  by (simp add: overwrite_def)

text \<open>What \<open>put_msg\<close> writes to element \<open>i\<close>.\<close>

definition encode :: "byte list \<Rightarrow> byte list \<Rightarrow> byte list" where
  "encode m el = overwrite 0 (le32 (int (length m))) (overwrite (nat HDR) m el)"

lemma decode_encode:
  assumes "nat HDR + length m \<le> length el" and "length m < 4294967296"
  shows "take 4 (encode m el) = le32 (int (length m))" and "decode (encode m el) = m"
proof -
  have *: "length (overwrite (nat HDR) m el) = length el" using assms by (simp add: length_overwrite)
  show t: "take 4 (encode m el) = le32 (int (length m))"
    using assms * take_overwrite [of "le32 (int (length m))" "overwrite (nat HDR) m el"]
    by (simp add: encode_def HDR_def)
  have "of_le32 (le32 (int (length m))) = int (length m)" using assms by (intro of_le32_le32) auto
  then show "decode (encode m el) = m"
    using assms unfolding decode_def t
    by (simp add: encode_def drop_overwrite HDR_def take_drop_overwrite)
qed

lemma length_encode: "nat HDR + length m \<le> length el \<Longrightarrow> length (encode m el) = length el"
  by (simp add: encode_def length_overwrite HDR_def)

text \<open>Indices modulo the number of elements.\<close>

lemma mod_add_le: "(h + j) mod n = (h + k) mod n \<Longrightarrow> j < n \<Longrightarrow> j \<le> (k::nat)"
proof (rule ccontr)
  assume "(h + j) mod n = (h + k) mod n" and "j < n" and "\<not> j \<le> k"
  then have "n dvd j - k" using mod_eq_dvd_iff_nat [of "h + k" "h + j" n] by simp
  then show False using \<open>j < n\<close> \<open>\<not> j \<le> k\<close> by (auto dest!: dvd_imp_le)
qed

lemma mod_add_inj: "(h + j) mod n = (h + k) mod n \<Longrightarrow> j < n \<Longrightarrow> k < n \<Longrightarrow> j = (k::nat)"
  by (metis mod_add_le order_antisym)

lemma mod_next: "i < n \<Longrightarrow> (if n \<le> Suc i then 0 else Suc i) = Suc i mod n"
  by (cases "n = Suc i") auto

lemma mod_prev: "i < n \<Longrightarrow> ((i + (n - 1)) mod n + Suc j) mod n = (i + j) mod (n::nat)"
proof -
  assume "i < n"
  then have "i + (n - 1) + Suc j = (i + j) + n" by simp
  then show ?thesis by (metis mod_add_left_eq mod_add_self2)
qed

lemma slots_pos [simp]: "0 < slots q" by (simp add: slots_def)

lemma msg_slot_less [simp]: "msg_slot q j < slots q" by (simp add: msg_slot_def)

lemma ring_bounds:
  assumes "ring_geometry q" and "i < slots q"
  shows "Suc i * nat (vmsg_len q) \<le> length (extent q)"
    and "vmsg_len q * int i = int (i * nat (vmsg_len q))"
    and "8 < nat (vmsg_len q)" and "nat (vmsg_len q) = nat HDR + nat (msg_len q)"
proof -
  have V: "vmsg_len q = int (nat (vmsg_len q))" and "int (slots q) = msgs_per_queue q + 1"
    using assms(1) by (auto simp: ring_geometry_def HDR_def slots_def)
  then have "int (length (extent q)) = int (nat (vmsg_len q) * slots q)"
    using assms(1) unfolding ring_geometry_def by (metis of_nat_mult)
  then have "length (extent q) = slots q * nat (vmsg_len q)" by (simp only: of_nat_eq_iff mult.commute)
  then show "Suc i * nat (vmsg_len q) \<le> length (extent q)"
    using assms(2) by (metis Suc_leI mult_le_mono1)
  show "vmsg_len q * int i = int (i * nat (vmsg_len q))" using V by (simp add: mult.commute)
  show "8 < nat (vmsg_len q)" "nat (vmsg_len q) = nat HDR + nat (msg_len q)"
    using assms(1) by (auto simp: ring_geometry_def HDR_def)
qed

lemma length_q_elem: "ring_geometry q \<Longrightarrow> i < slots q \<Longrightarrow> length (q_elem q i) = nat HDR + nat (msg_len q)"
  using ring_bounds [of q i] by (simp add: q_elem_def length_elem)

text \<open>Writing a message to an element changes this element only.\<close>

lemma put_msg_elem:
  assumes "ring_geometry q" and "i < slots q" and "int (length m) \<le> msg_len q"
  obtains mem where "put_msg (vmsg_len q * int i) (Some m) (int (length m)) (extent q) = Done mem"
    and "length mem = length (extent q)"
    and "\<And>j. j < slots q \<Longrightarrow> elem (nat (vmsg_len q)) j mem = (if j = i then encode m (q_elem q i) else q_elem q j)"
proof
  let ?V = "nat (vmsg_len q)" and ?l = "le32 (int (length m))"
  let ?m1 = "overwrite (i * ?V + 8) m (extent q)"
  let ?m2 = "overwrite (i * ?V + 0) ?l ?m1"
  note b = ring_bounds [OF assms(1,2)]
  have in1: "i * ?V + 8 + length m \<le> length (extent q)"
    using b assms(3) by (auto simp: HDR_def)
  then have len1: "length ?m1 = length (extent q)" by (rule length_overwrite)
  have in2: "i * ?V + 0 + length ?l \<le> length ?m1" using in1 len1 by simp
  have "vmsg_len q * int i + HDR = int (i * ?V + 8)" using b by (simp add: HDR_def)
  then have "copy_to (vmsg_len q * int i + HDR) m (extent q) = Some ?m1"
    using copy_to_overwrite [OF in1] by simp
  moreover have "copy_to (vmsg_len q * int i) ?l ?m1 = Some ?m2"
    using copy_to_overwrite [OF in2] unfolding b(2) by (simp only: add_0_right)
  ultimately show "put_msg (vmsg_len q * int i) (Some m) (int (length m)) (extent q) = Done ?m2"
    by (simp add: put_msg_def opt_outcome_def)
  show "length ?m2 = length (extent q)" using length_overwrite [OF in2] len1 by simp
  fix j
  assume j: "j < slots q"
  have "elem ?V j ?m2 = (if j = i then overwrite 0 ?l (elem ?V i ?m1) else elem ?V j ?m1)"
    using ring_bounds [OF assms(1) j] b len1 by (intro elem_overwrite) auto
  moreover have "elem ?V k ?m1 = (if k = i then overwrite 8 m (q_elem q i) else q_elem q k)"
    if "k < slots q" for k
    unfolding q_elem_def using ring_bounds [OF assms(1) that] b assms(3)
    by (intro elem_overwrite) (auto simp: HDR_def)
  ultimately show "elem ?V j ?m2 = (if j = i then encode m (q_elem q i) else q_elem q j)"
    using assms(2) j by (simp add: encode_def HDR_def)
qed

text \<open>Advancing and stepping back a pointer with wrap-around.\<close>

lemma ptr_next:
  assumes "ring_geometry q" and "i < slots q"
  shows "(if vmsg_len q * int i + vmsg_len q > last_msg_in_queue q then first_msg_in_queue q
          else vmsg_len q * int i + vmsg_len q) = vmsg_len q * int (Suc i mod slots q)"
proof -
  have "vmsg_len q > 0" "last_msg_in_queue q = vmsg_len q * msgs_per_queue q" "first_msg_in_queue q = 0"
    "int (slots q) = msgs_per_queue q + 1"
    using assms(1) by (auto simp: ring_geometry_def HDR_def slots_def)
  moreover have "vmsg_len q * int i + vmsg_len q = vmsg_len q * int (Suc i)" by (simp add: algebra_simps)
  ultimately have "vmsg_len q * int i + vmsg_len q > last_msg_in_queue q \<longleftrightarrow> slots q \<le> Suc i"
    by auto
  then show ?thesis
    using \<open>first_msg_in_queue q = 0\<close> mod_next [OF assms(2)] by (auto simp: algebra_simps)
qed

lemma ptr_prev:
  assumes "ring_geometry q" and "i < slots q"
  shows "(if vmsg_len q * int i - vmsg_len q < first_msg_in_queue q then last_msg_in_queue q
          else vmsg_len q * int i - vmsg_len q) = vmsg_len q * int ((i + (slots q - 1)) mod slots q)"
proof (cases i)
  case 0
  then show ?thesis using assms by (auto simp: ring_geometry_def HDR_def slots_def)
next
  case (Suc k)
  then have "i + (slots q - 1) = k + slots q" by (simp add: slots_def)
  moreover have "vmsg_len q * int i - vmsg_len q = vmsg_len q * int k"
    using Suc by (simp add: algebra_simps)
  moreover have "0 \<le> vmsg_len q * int k" "first_msg_in_queue q = 0" "k < slots q"
    using assms Suc by (auto simp: ring_geometry_def HDR_def)
  ultimately show ?thesis by simp
qed

lemma head_slot_ptr: "ring_geometry q \<Longrightarrow> queue_head q = vmsg_len q * int i \<Longrightarrow> head_slot q = i"
  by (auto simp: head_slot_def ring_geometry_def HDR_def)

text \<open>The fields the operations on the ring do not touch.\<close>

lemma ring_geometry_update [simp]:
  "ring_geometry (q\<lparr>queue_head := h\<rparr>) = ring_geometry q"
  "ring_geometry (q\<lparr>queue_tail := t\<rparr>) = ring_geometry q"
  "ring_geometry (q\<lparr>msg_count := c\<rparr>) = ring_geometry q"
  "ring_geometry (q\<lparr>q_send_type := s\<rparr>) = ring_geometry q"
  "length mem = length (extent q) \<Longrightarrow> ring_geometry (q\<lparr>extent := mem\<rparr>) = ring_geometry q"
  by (simp_all add: ring_geometry_def)

lemma ring_wf_head: "ring_wf q \<Longrightarrow> ring_geometry q \<and> head_slot q < slots q"
  by (simp add: ring_wf_def)

text \<open>A queue whose elements from \<open>h\<close> on decode to \<open>ms\<close> is well formed and holds \<open>ms\<close>.\<close>

lemma ring_intro:
  assumes "ring_geometry q" and "h < slots q" and "queue_head q = vmsg_len q * int h"
    and "queue_tail q = vmsg_len q * int ((h + length ms) mod slots q)"
    and "msg_count q = int (length ms)" and "length ms \<le> slots q"
    and "\<And>j. j < length ms \<Longrightarrow> of_le32 (take 4 (q_elem q ((h + j) mod slots q))) \<le> msg_len q
          \<and> decode (q_elem q ((h + j) mod slots q)) = ms ! j"
  shows "ring_wf q \<and> ring_msgs q = ms"
proof -
  have h: "head_slot q = h" using assms(1,3) by (rule head_slot_ptr)
  have "int (slots q) = msgs_per_queue q + 1" using assms(1) by (auto simp: ring_geometry_def slots_def)
  then have "ring_wf q" using assms by (auto simp: ring_wf_def h msg_slot_def)
  moreover have "ring_msgs q = ms"
    using assms(5,7) by (auto simp: ring_msgs_def h msg_slot_def intro!: nth_equalityI)
  ultimately show ?thesis ..
qed

text \<open>Conversely.\<close>

lemma ring_elim:
  assumes "ring_wf q"
  shows "msg_count q = int (length (ring_msgs q))" "length (ring_msgs q) \<le> slots q"
    "j < length (ring_msgs q) \<Longrightarrow> of_le32 (take 4 (q_elem q (msg_slot q j))) \<le> msg_len q"
    "j < length (ring_msgs q) \<Longrightarrow> decode (q_elem q (msg_slot q j)) = ring_msgs q ! j"
    "queue_tail q = vmsg_len q * int (msg_slot q (length (ring_msgs q)))"
  using assms by (auto simp: ring_wf_def ring_msgs_def slots_def)

lemma count_succ:
  assumes "ring_wf q" and "length (ring_msgs q) < slots q"
  shows "s32 (msg_count q + 1) = int (Suc (length (ring_msgs q)))"
proof -
  have "in_s32 (msg_count q + 1)"
    using assms by (auto simp: ring_wf_def ring_geometry_def slots_def in_s32_def ring_msgs_def)
  then show ?thesis using ring_elim(1) [OF assms(1)] by (simp add: s32_id)
qed

lemma put_msg_slot:
  assumes "ring_geometry q" and "i < slots q" and "int (length m) \<le> msg_len q"
  obtains mem where "put_msg (vmsg_len q * int i) (Some m) (int (length m)) (extent q) = Done mem"
    and "length mem = length (extent q)"
    and "\<And>j. j < slots q \<Longrightarrow> j \<noteq> i \<Longrightarrow> elem (nat (vmsg_len q)) j mem = q_elem q j"
    and "of_le32 (take 4 (elem (nat (vmsg_len q)) i mem)) \<le> msg_len q"
    and "decode (elem (nat (vmsg_len q)) i mem) = m"
proof -
  have small: "length m < 4294967296" "nat HDR + length m \<le> length (q_elem q i)"
    using assms by (auto simp: length_q_elem ring_geometry_def)
  have "of_le32 (le32 (int (length m))) = int (length m)" using small by (intro of_le32_le32) auto
  then show thesis
    using put_msg_elem [OF assms] decode_encode [OF small(2,1)] assms(2,3) that by metis
qed

lemma send_msg_to_back:
  assumes "ring_wf q" and "int (length m) \<le> msg_len q" and "length (ring_msgs q) < slots q"
  shows "\<exists>q'. send_msg_to (Some m) (int (length m)) q = Done q' \<and> ring_wf q'
     \<and> ring_msgs q' = ring_msgs q @ [m] \<and> slots q' = slots q \<and> msg_len q' = msg_len q"
proof -
  let ?c = "length (ring_msgs q)"
  note g = conjunct1 [OF ring_wf_head [OF assms(1)]] and e = ring_elim [OF assms(1)]
  obtain mem where mem: "put_msg (queue_tail q) (Some m) (int (length m)) (extent q) = Done mem"
    "length mem = length (extent q)"
    "\<And>j. j < slots q \<Longrightarrow> j \<noteq> msg_slot q ?c \<Longrightarrow> elem (nat (vmsg_len q)) j mem = q_elem q j"
    "of_le32 (take 4 (elem (nat (vmsg_len q)) (msg_slot q ?c) mem)) \<le> msg_len q"
    "decode (elem (nat (vmsg_len q)) (msg_slot q ?c) mem) = m"
    using put_msg_slot [OF g msg_slot_less assms(2), of ?c] e(5) by metis
  define q' where "q' = q\<lparr>extent := mem, queue_tail := vmsg_len q * int (Suc (msg_slot q ?c) mod slots q),
     msg_count := int (Suc ?c), q_send_type := Q_SEND\<rparr>"
  have send: "send_msg_to (Some m) (int (length m)) q = Done q'"
    using ptr_next [OF g msg_slot_less [of q ?c]] e(5) mem(1) count_succ [OF assms(1,3)]
    by (simp add: send_msg_to_def q'_def Let_def)
  have same: "slots q' = slots q" "vmsg_len q' = vmsg_len q" "msg_len q' = msg_len q"
    "q_elem q' j = elem (nat (vmsg_len q)) j mem" for j
    by (simp_all add: q'_def slots_def q_elem_def)
  have "ring_wf q' \<and> ring_msgs q' = ring_msgs q @ [m]"
  proof (rule ring_intro [where h = "head_slot q"])
    fix j
    assume "j < length (ring_msgs q @ [m])"
    then consider "j < ?c" | "j = ?c" by fastforce
    then show "of_le32 (take 4 (q_elem q' ((head_slot q + j) mod slots q'))) \<le> msg_len q' \<and>
      decode (q_elem q' ((head_slot q + j) mod slots q')) = (ring_msgs q @ [m]) ! j"
    proof cases
      case 1
      then have "msg_slot q j \<noteq> msg_slot q ?c"
        using mod_add_inj assms(3) unfolding msg_slot_def by (metis nat_neq_iff less_trans)
      then show ?thesis using 1 e(3,4) [OF 1] mem(3) [OF msg_slot_less [of q j]]
        by (simp add: same nth_append flip: msg_slot_def)
    next
      case 2
      then show ?thesis using mem(4,5) by (simp add: same flip: msg_slot_def)
    qed
  qed (use g mem(2) assms(1,3) e same in \<open>auto simp: q'_def ring_wf_def msg_slot_def mod_Suc_eq\<close>)
  with send same show ?thesis by blast
qed

lemma urgent_msg_to_front:
  assumes "ring_wf q" and "int (length m) \<le> msg_len q" and "length (ring_msgs q) < slots q"
  shows "\<exists>q'. urgent_msg_to (Some m) (int (length m)) q = Done q' \<and> ring_wf q'
     \<and> ring_msgs q' = m # ring_msgs q \<and> slots q' = slots q \<and> msg_len q' = msg_len q"
proof -
  let ?c = "length (ring_msgs q)"
  define h where "h = (head_slot q + (slots q - 1)) mod slots q"
  note g = conjunct1 [OF ring_wf_head [OF assms(1)]] and e = ring_elim [OF assms(1)]
  have hs: "head_slot q < slots q" and qh: "queue_head q = vmsg_len q * int (head_slot q)"
    using assms(1) by (simp_all add: ring_wf_def)
  have h: "h < slots q" by (simp add: h_def)
  have shift: "(h + Suc j) mod slots q = msg_slot q j" for j
    unfolding h_def msg_slot_def by (rule mod_prev [OF hs])
  obtain mem where mem: "put_msg (vmsg_len q * int h) (Some m) (int (length m)) (extent q) = Done mem"
    "length mem = length (extent q)"
    "\<And>j. j < slots q \<Longrightarrow> j \<noteq> h \<Longrightarrow> elem (nat (vmsg_len q)) j mem = q_elem q j"
    "of_le32 (take 4 (elem (nat (vmsg_len q)) h mem)) \<le> msg_len q"
    "decode (elem (nat (vmsg_len q)) h mem) = m"
    using put_msg_slot [OF g h assms(2)] by metis
  define q' where "q' = q\<lparr>extent := mem, queue_head := vmsg_len q * int h,
     msg_count := int (Suc ?c), q_send_type := Q_URGNT\<rparr>"
  have send: "urgent_msg_to (Some m) (int (length m)) q = Done q'"
    using ptr_prev [OF g hs] qh mem(1) count_succ [OF assms(1,3)]
    by (simp add: urgent_msg_to_def q'_def Let_def h_def)
  have same: "slots q' = slots q" "vmsg_len q' = vmsg_len q" "msg_len q' = msg_len q"
    "q_elem q' j = elem (nat (vmsg_len q)) j mem" for j
    by (simp_all add: q'_def slots_def q_elem_def)
  have "ring_wf q' \<and> ring_msgs q' = m # ring_msgs q"
  proof (rule ring_intro [where h = h])
    fix j
    assume j: "j < length (m # ring_msgs q)"
    show "of_le32 (take 4 (q_elem q' ((h + j) mod slots q'))) \<le> msg_len q' \<and>
      decode (q_elem q' ((h + j) mod slots q')) = (m # ring_msgs q) ! j"
    proof (cases j)
      case 0
      then show ?thesis using mem(4,5) h by (simp add: same)
    next
      case (Suc k)
      then have k: "k < ?c" using j by simp
      have "(h + Suc k) mod slots q \<noteq> (h + 0) mod slots q"
        using mod_add_inj [of h "Suc k" "slots q" 0] k assms(3) by fastforce
      then have "msg_slot q k \<noteq> h" using shift h by simp
      then show ?thesis using Suc e(3,4) [OF k] mem(3) [OF msg_slot_less [of q k]]
        by (simp add: same shift del: add_Suc_right)
    qed
  qed (use g mem(2) h assms(1,3) e same shift [of ?c] in \<open>auto simp: q'_def\<close>)
  with send same show ?thesis by blast
qed

lemma of_le32_nonneg: "0 \<le> of_le32 l"
  by (induction l rule: of_le32.induct) auto

text \<open>Reading inside an element.\<close>

lemma copy_from_elem:
  assumes "ring_geometry q" and "i < slots q" and "off + n \<le> nat (vmsg_len q)"
  shows "copy_from (vmsg_len q * int i + int off) n (extent q) = Some (take n (drop off (q_elem q i)))"
proof -
  let ?V = "nat (vmsg_len q)"
  note b = ring_bounds [OF assms(1,2)]
  have "i * ?V + off + n \<le> length (extent q)" using b(1) assms(3) by simp
  then have "copy_from (int (i * ?V + off)) n (extent q) = Some (take n (drop (i * ?V + off) (extent q)))"
    by (rule copy_from_take)
  moreover have "take n (drop off (take ?V (drop (i * ?V) (extent q)))) = take n (drop (i * ?V + off) (extent q))"
    using assms(3) by (simp add: drop_take add.commute min_absorb1)
  ultimately show ?thesis using b(2) by (simp only: q_elem_def elem_def of_nat_add)
qed

text \<open>Writing inside an element.\<close>

lemma copy_to_elem:
  assumes "ring_geometry q" and "i < slots q" and "off + length bs \<le> nat (vmsg_len q)"
    and "length mem = length (extent q)"
  obtains mem' where "copy_to (vmsg_len q * int i + int off) bs mem = Some mem'"
    and "length mem' = length (extent q)"
    and "\<And>j. j < slots q \<Longrightarrow> j \<noteq> i \<Longrightarrow> elem (nat (vmsg_len q)) j mem' = elem (nat (vmsg_len q)) j mem"
proof
  let ?V = "nat (vmsg_len q)"
  note b = ring_bounds [OF assms(1,2)]
  have in1: "i * ?V + off + length bs \<le> length mem" using b(1) assms(3,4) by simp
  show "copy_to (vmsg_len q * int i + int off) bs mem = Some (overwrite (i * ?V + off) bs mem)"
    using copy_to_overwrite [OF in1] unfolding b(2) by (simp only: of_nat_add)
  show "length (overwrite (i * ?V + off) bs mem) = length (extent q)"
    using length_overwrite [OF in1] assms(4) by simp
  fix j
  assume "j < slots q" and "j \<noteq> i"
  then show "elem ?V j (overwrite (i * ?V + off) bs mem) = elem ?V j mem"
    using elem_overwrite [OF assms(3), of i mem j] ring_bounds(1) [OF assms(1)] assms(2,4) by simp
qed

lemma fetch_msg_from_front:
  assumes "ring_wf q" and "ring_msgs q = m # ms"
  shows "\<exists>q'. fetch_msg_from True q = Done (m, int (length m), q') \<and> ring_wf q'
     \<and> ring_msgs q' = ms \<and> slots q' = slots q \<and> msg_len q' = msg_len q"
proof -
  let ?h = "head_slot q" and ?V = "nat (vmsg_len q)"
  let ?l = "of_le32 (take 4 (q_elem q ?h))"
  note g = conjunct1 [OF ring_wf_head [OF assms(1)]] and h = conjunct2 [OF ring_wf_head [OF assms(1)]]
    and e = ring_elim [OF assms(1)]
  have head: "queue_head q = vmsg_len q * int ?h" using assms(1) by (simp add: ring_wf_def)
  have V: "?V = 8 + nat (msg_len q)" "0 < nat (msg_len q)"
    using ring_bounds [OF g h] by (simp_all add: HDR_def)
  have slot0: "msg_slot q 0 = ?h" using h by (simp add: msg_slot_def)
  have l: "?l \<le> msg_len q" "decode (q_elem q ?h) = m"
    using e(3,4) [of 0] assms(2) slot0 by simp_all
  then have m: "take (nat ?l) (drop 8 (q_elem q ?h)) = m" "int (length m) = ?l"
    using length_q_elem [OF g h] of_le32_nonneg [of "take 4 (q_elem q ?h)"]
    by (auto simp: decode_def HDR_def)
  have rd: "copy_from (queue_head q) 4 (extent q) = Some (take 4 (q_elem q ?h))"
    "copy_from (queue_head q + 8) (nat ?l) (extent q) = Some m"
    using copy_from_elem [OF g h, of 0 4] copy_from_elem [OF g h, of 8 "nat ?l"] V l m head by simp_all
  obtain m1 where m1: "copy_to (queue_head q + 8) [0] (extent q) = Some m1"
    "length m1 = length (extent q)"
    "\<And>j. j < slots q \<Longrightarrow> j \<noteq> ?h \<Longrightarrow> elem ?V j m1 = q_elem q j"
    using copy_to_elem [OF g h, of 8 "[0]" "extent q"] V head
    by (auto simp: q_elem_def)
  obtain m2 where m2: "copy_to (queue_head q) (le32 0) m1 = Some m2"
    "length m2 = length (extent q)"
    "\<And>j. j < slots q \<Longrightarrow> j \<noteq> ?h \<Longrightarrow> elem ?V j m2 = q_elem q j"
    using copy_to_elem [OF g h, of 0 "le32 0" m1] V m1(2,3) head by auto
  define q' where "q' = q\<lparr>extent := m2, queue_head := vmsg_len q * int (Suc ?h mod slots q),
     msg_count := int (length ms)\<rparr>"
  have "s32 (msg_count q - 1) = int (length ms)"
    using g e(1,2) assms(2) by (auto simp: ring_geometry_def slots_def in_s32_def intro!: s32_id)
  then have fetch: "fetch_msg_from True q = Done (m, int (length m), q')"
    using ptr_next [OF g h] head rd m1(1) m2(1) m(2)
    by (simp add: fetch_msg_from_def opt_outcome_def HDR_def q'_def Let_def)
  have same: "slots q' = slots q" "vmsg_len q' = vmsg_len q" "msg_len q' = msg_len q"
    "q_elem q' j = elem ?V j m2" for j
    by (simp_all add: q'_def slots_def q_elem_def)
  have shift: "(Suc ?h mod slots q + j) mod slots q = msg_slot q (Suc j)" for j
    by (simp add: msg_slot_def mod_add_left_eq)
  have "ring_wf q' \<and> ring_msgs q' = ms"
  proof (rule ring_intro [where h = "Suc ?h mod slots q"])
    fix j
    assume "j < length ms"
    then have j: "Suc j < length (ring_msgs q)" using assms(2) by simp
    have "msg_slot q (Suc j) \<noteq> ?h"
      using mod_add_inj [of ?h "Suc j" "slots q" 0] j e(2) h by (auto simp: msg_slot_def)
    then show "of_le32 (take 4 (q_elem q' ((Suc ?h mod slots q + j) mod slots q'))) \<le> msg_len q' \<and>
      decode (q_elem q' ((Suc ?h mod slots q + j) mod slots q')) = ms ! j"
      using e(3,4) [OF j] m2(3) [OF msg_slot_less] assms(2) by (simp add: same shift)
  qed (use g m2(2) e same shift [of "length ms"] assms(2) in \<open>auto simp: q'_def\<close>)
  with fetch same show ?thesis by blast
qed

interpretation ring: msg_buffer ring_msgs ring_wf slots "\<lambda>q m. int (length m) \<le> msg_len q"
  "\<lambda>m. send_msg_to (Some m) (int (length m))" "\<lambda>m. urgent_msg_to (Some m) (int (length m))"
  "\<lambda>q. obind (fetch_msg_from True q) (\<lambda>(bs, n, q'). Done (bs, q'))"
proof unfold_locales
  show "\<exists>q'. obind (fetch_msg_from True q) (\<lambda>(bs, n, q'). Done (bs, q')) = Done (m, q') \<and> ring_wf q'
      \<and> ring_msgs q' = ms \<and> slots q' = slots q
      \<and> (\<lambda>m. int (length m) \<le> msg_len q') = (\<lambda>m. int (length m) \<le> msg_len q)"
    if "ring_wf q" and "ring_msgs q = m # ms" for q m ms
    using fetch_msg_from_front [OF that] by auto
qed (use send_msg_to_back urgent_msg_to_front ring_elim(2) in fastforce)+

section \<open>Properties of the ring\<close>

text \<open>\<^verbatim>\<open>data_extent_for\<close> sets up an empty ring, if the sizes make sense and the block has
  the size asked for.\<close>

lemma data_extent_for_geometry:
  assumes "0 \<le> msgs_per_queue q" and "0 < msg_len q"
    and "(HDR + msg_len q) * (msgs_per_queue q + 1) \<le> 2147483647"
    and "int (length mem) = alloc_size q"
  shows "data_extent_for (Some mem) q =
     Done (Some (q\<lparr>vmsg_len := HDR + msg_len q, extent := replicate (length mem) 0,
       first_msg_in_queue := 0, last_msg_in_queue := (HDR + msg_len q) * msgs_per_queue q\<rparr>))"
    and "int (length mem) = (HDR + msg_len q) * (msgs_per_queue q + 1)"
    and "msgs_per_queue q < 2147483647" and "msg_len q < 4294967296"
proof -
  let ?V = "HDR + msg_len q" and ?N = "msgs_per_queue q + 1"
  have V: "9 \<le> ?V" "1 \<le> ?N" using assms(1,2) by (simp_all add: HDR_def)
  have "9 * ?N \<le> ?V * ?N" using V by (intro mult_right_mono) simp_all
  moreover have "?V * 1 \<le> ?V * ?N" using V by (intro mult_left_mono) simp_all
  ultimately have small: "9 * ?N \<le> 2147483647" "?V \<le> 2147483647" using assms(3) by simp_all
  then show "msgs_per_queue q < 2147483647" "msg_len q < 4294967296"
    using assms(1) by (simp_all add: HDR_def)
  have "s32 ?N = ?N" using small assms(1) by (intro s32_id) (simp add: in_s32_def)
  moreover have "?V * ?N mod 2 ^ 64 = ?V * ?N" "?N mod 2 ^ 64 = ?N"
    using assms(3) V small by (auto intro!: mod_pos_pos_trivial)
  ultimately have size: "alloc_size q = ?V * ?N" by (simp only: alloc_size_def)
  then show len: "int (length mem) = ?V * ?N" using assms(4) by simp
  have "s32 (alloc_size q) = int (length mem)"
    using assms(3) len size by (simp add: s32_id in_s32_def)
  then show "data_extent_for (Some mem) q =
     Done (Some (q\<lparr>vmsg_len := ?V, extent := replicate (length mem) 0,
       first_msg_in_queue := 0, last_msg_in_queue := ?V * msgs_per_queue q\<rparr>))"
    by (simp add: data_extent_for_def Let_def)
qed

text \<open>A client of one queue: the messages fetched by a sequence of sends, urgent sends and
  fetches.\<close>

fun ring_run :: "byte list buf_op list \<Rightarrow> v2pt_mqueue_t \<Rightarrow> (byte list list \<times> v2pt_mqueue_t) outcome" where
  "ring_run [] q = Done ([], q)"
| "ring_run (Back m # ops) q = obind (send_msg_to (Some m) (int (length m)) q) (ring_run ops)"
| "ring_run (Front m # ops) q = obind (urgent_msg_to (Some m) (int (length m)) q) (ring_run ops)"
| "ring_run (Pop # ops) q =
     obind (fetch_msg_from True q) (\<lambda>(m, n, q'). obind (ring_run ops q') (\<lambda>(ms, q'').
       Done (m # ms, q'')))"

lemma ring_run_is_run: "ring_run ops q = ring.run ops q"
proof (induction ops q rule: ring_run.induct)
  case (4 ops q)
  then show ?case by (cases "fetch_msg_from True q") (auto simp: obind_assoc)
next
  case (2 m ops q)
  then show ?case by (cases "send_msg_to (Some m) (int (length m)) q") auto
next
  case (3 m ops q)
  then show ?case by (cases "urgent_msg_to (Some m) (int (length m)) q") auto
qed simp

text \<open>C3. The byte-level circular buffer of a message queue refines a list of messages: in
  every sequence of normal sends (at the back), urgent sends (at the front) and fetches
  (from the front) that the list allows with room for \<open>msgs_per_queue + 1\<close> messages of at
  most \<open>msg_len\<close> bytes, no operation touches a byte outside the extent, every fetch gives
  the bytes the list gives, and the ring is well formed and holds the list's messages at
  the end.\<close>

theorem ring_refines_deque:
  assumes "ring_wf q"
    and "deque_run (\<lambda>m. int (length m) \<le> msg_len q) (slots q) ops (ring_msgs q) = Some (out, ms)"
  shows "\<exists>q'. ring_run ops q = Done (out, q') \<and> ring_wf q' \<and> ring_msgs q' = ms"
  unfolding ring_run_is_run using assms by (rule ring.run_refines)

text \<open>A ring for two messages of at most three bytes (and one urgent one), as
  \<^verbatim>\<open>msgQCreate\<close> leaves it.\<close>

definition small_ring :: v2pt_mqueue_t where
  "small_ring = zero_queue\<lparr>msgs_per_queue := 2, msg_len := 3, vmsg_len := 11,
     last_msg_in_queue := 22, extent := replicate 33 0\<rparr>"

lemma small_ring_wf: "ring_wf small_ring" "ring_msgs small_ring = []"
  by (simp_all add: small_ring_def ring_wf_def ring_geometry_def zero_queue_def vxw_codes
      head_slot_def slots_def msg_slot_def ring_msgs_def)

theorem ring_refines_deque_witness:
  "\<exists>q'. ring_run [Back [1], Back [2, 3], Front [4], Pop, Back [5, 6, 7], Pop, Pop] small_ring
      = Done ([[4], [1], [2, 3]], q') \<and> ring_wf q' \<and> ring_msgs q' = [[5, 6, 7]]"
  by (rule ring_refines_deque [OF small_ring_wf(1)], unfold small_ring_wf(2))
    (simp add: small_ring_def zero_queue_def slots_def)

text \<open>A queue of empty messages (\<open>msg_len = 0\<close>): clearing the message in the last
  element of the extent, \<^verbatim>\<open>fetch_msg_from\<close> writes the byte behind the extent.\<close>

theorem fetch_zero_length_overflow:
  assumes "msg_len q = 0" and "vmsg_len q = HDR" and "0 \<le> msgs_per_queue q"
    and "last_msg_in_queue q = vmsg_len q * msgs_per_queue q"
    and "int (length (extent q)) = vmsg_len q * (msgs_per_queue q + 1)"
    and "queue_head q = last_msg_in_queue q"
    and "of_le32 (take 4 (drop (nat (queue_head q)) (extent q))) = 0"
  shows "fetch_msg_from msg q = Crashed"
proof -
  have fin: "queue_head q + HDR = int (length (extent q))"
    using assms by (simp add: algebra_simps)
  then have out: "copy_to (queue_head q + HDR) [0] (extent q) = None"
    by (intro copy_to_outside) auto
  have "0 \<le> queue_head q" using assms by (simp add: HDR_def)
  then have "copy_from (queue_head q) 4 (extent q) = Some (take 4 (drop (nat (queue_head q)) (extent q)))"
    using copy_from_take [of "nat (queue_head q)" 4 "extent q"] fin by (simp add: HDR_def)
  then show ?thesis
    using out assms(7) by (cases msg) (simp_all add: fetch_msg_from_def opt_outcome_def)
qed

theorem fetch_zero_length_overflow_witness:
  "fetch_msg_from True (zero_queue\<lparr>vmsg_len := 8, extent := replicate 8 0\<rparr>) = Crashed"
  by (rule fetch_zero_length_overflow) (simp_all add: zero_queue_def HDR_def eval_nat_numeral)

end
