(* ===== verification/MsgQ_Lib.thy ===== *)
theory MsgQ_Lib
  imports Sem_Lib Msg_Ring
begin

text \<open>
  The message queues of \<^verbatim>\<open>lib/lmsgQLib.c\<close>: \<^verbatim>\<open>msgQCreate\<close>, \<^verbatim>\<open>msgQSend\<close>,
  \<^verbatim>\<open>msgQReceive\<close>, \<^verbatim>\<open>msgQDelete\<close> and \<^verbatim>\<open>msgQNumMsgs\<close> over the ring of theory
  \<open>Msg_Ring\<close>.

  A call is a sequence of atomic steps, cut where it gives \<open>queue_lock\<close> away or can be
  stopped by a mutex it does not have: the wait on a condition variable, the
  \<^verbatim>\<open>taskDelay(1)\<close> of the two polling functions, and the acquisition of \<open>queue_lock\<close>,
  \<open>qfull_lock\<close>, \<open>qdlet_lock\<close> and of the scheduler lock in the middle of a call. Its
  local variables at such a point are a frame. A condition wait may end at any moment, so
  broadcasts need no state.

  The fields \<open>queue_lock\<close>, \<open>qdlet_lock\<close> and \<open>qfull_lock\<close> hold the thread that has the
  mutex between two steps. \<^verbatim>\<open>waitToSend\<close> waits with \<open>qfull_lock\<close> without having locked it,
  which POSIX leaves undefined; as in the default mutex of glibc, unlocking frees the
  mutex whoever has it. The code a condition wait returns is 0 or \<open>ETIMEDOUT\<close>; a wait that
  the system refuses (\<open>EINVAL\<close>) does not touch the mutex and is not one of these steps.
\<close>


section \<open>The list of queues\<close>

definition mqueue_find_lock :: "addr \<Rightarrow> world \<Rightarrow> bool outcome" where
  "mqueue_find_lock queue w =
     (if queue \<in> set (mqueue_list w)
      then (if queue_lock (qcb w queue) = 0 then Done True else Blocked)
      else Done False)"

definition link_qcb :: "addr \<Rightarrow> world \<Rightarrow> world" where
  "link_qcb new_mqueue w = w\<lparr>mqueue_list := mqueue_list w @ [new_mqueue]\<rparr>"

definition unlink_qcb :: "addr \<Rightarrow> world \<Rightarrow> world" where
  "unlink_qcb qid w = w\<lparr>mqueue_list := remove1 qid (mqueue_list w)\<rparr>"

text \<open>\<open>blk\<close> and \<open>data\<close> are what the two calls of \<open>malloc\<close> return.\<close>

definition msgQCreate ::
  "pthread \<Rightarrow> int \<Rightarrow> int \<Rightarrow> 32 word \<Rightarrow> addr \<Rightarrow> byte list option \<Rightarrow> world \<Rightarrow> (addr \<times> world) outcome" where
  "msgQCreate me max_msgs msglen opt blk data w =
     (if blk = NULL then Done (NULL, set_errno me S_memLib_NOT_ENOUGH_MEMORY w)
      else
        let queue = zero_queue\<lparr>msgs_per_queue := max_msgs, msg_len := u32 msglen\<rparr>
        in obind (data_extent_for data queue) (\<lambda>r.
             case r of
               None \<Rightarrow> Done (NULL, set_errno me S_memLib_NOT_ENOUGH_MEMORY w)
             | Some q \<Rightarrow>
                 Done (blk, link_qcb blk (w\<lparr>queues := (queues w)(blk \<mapsto>
                   q\<lparr>queue_head := first_msg_in_queue q, queue_tail := first_msg_in_queue q,
                     q_send_type := Q_SEND, q_first_susp := [], q_first_write_susp := [],
                     msg_count := 0,
                     order := (if opt AND MSG_Q_PRIORITY \<noteq> 0 then 1 else 0)\<rparr>)\<rparr>))))"

definition msgQNumMsgs :: "addr \<Rightarrow> world \<Rightarrow> int outcome" where
  "msgQNumMsgs queue w =
     obind (mqueue_find_lock queue w) (\<lambda>found.
       Done (if found then msg_count (qcb w queue) else ERROR))"


section \<open>Time limits\<close>

definition q_deadline :: "int \<Rightarrow> timeval \<Rightarrow> timespec" where
  "q_deadline wait now =
     (let usec = s32 (s32 (wait * V2PT_TICK) * 1000) + snd now;
          sec = (if usec > 1000000 then usec div 1000000 else 0);
          usec' = (if usec > 1000000 then usec mod 1000000 else usec)
      in (fst now + sec, usec' * 1000))"

text \<open>The microseconds left, an \<open>unsigned long\<close>, as both polling functions compute them.\<close>

definition q_remaining :: "timespec \<Rightarrow> timeval \<Rightarrow> int" where
  "q_remaining timeout now =
     (if snd timeout > snd now * 1000 then
        let usec = (snd timeout - snd now * 1000) sdiv 1000
        in if fst timeout < fst now then 0
           else (usec + (fst timeout - fst now) * 1000000) mod 2 ^ 64
      else
        let usec = (snd timeout + 1000000000 - snd now * 1000) sdiv 1000
        in if fst timeout - 1 < fst now then 0
           else (usec + (fst timeout - 1 - fst now) * 1000000) mod 2 ^ 64)"

definition q_expired :: "timespec option \<Rightarrow> timeval \<Rightarrow> bool" where
  "q_expired timeout now = (case timeout of None \<Rightarrow> False | Some t \<Rightarrow> q_remaining t now = 0)"

definition q_killed :: "v2pt_mqueue_t \<Rightarrow> bool" where
  "q_killed q \<longleftrightarrow> q_send_type q AND Q_KILLD \<noteq> 0"

text \<open>The last waiting task tells \<^verbatim>\<open>msgQDelete\<close>, for which it needs \<open>qdlet_lock\<close>.\<close>

definition notify_if_delete_complete :: "addr \<Rightarrow> world \<Rightarrow> unit outcome" where
  "notify_if_delete_complete queue w =
     (if queues w queue = None then Crashed
      else if q_first_susp (qcb w queue) = [] \<and> q_first_write_susp (qcb w queue) = []
              \<and> qdlet_lock (qcb w queue) \<noteq> 0
      then Blocked else Done ())"


section \<open>Sending\<close>

record send_frame =
  sf_queue :: addr
  sf_task :: addr
  sf_msg :: "byte list option"
  sf_msglen :: int
  sf_pri :: int
  sf_timeout :: "timespec option"
  sf_retcode :: int

text \<open>Where a call of \<^verbatim>\<open>msgQSend\<close> is: it has returned, it is about to poll, it waits at
  \<open>queue_space\<close>, it sleeps for a tick, it is done waiting and needs \<open>queue_lock\<close>, or it
  has seen that the queue is deleted.\<close>

datatype send = Sent int | SAtPoll send_frame | SAtCond send_frame | SAtDelay send_frame
  | SAtRelock send_frame | SAtKilled send_frame

definition send_return :: "pthread \<Rightarrow> int \<Rightarrow> world \<Rightarrow> (send \<times> world) outcome" where
  "send_return me error w = obind (finish me error w) (\<lambda>(r, w'). Done (Sent r, w'))"

definition post_msg :: "addr \<Rightarrow> byte list option \<Rightarrow> int \<Rightarrow> int \<Rightarrow> world \<Rightarrow> world outcome" where
  "post_msg queue msg msglen pri w =
     obind (if pri = MSG_PRI_URGENT then urgent_msg_to msg msglen (qcb w queue)
            else send_msg_to msg msglen (qcb w queue)) (\<lambda>q.
       Done (upd_queue queue (\<lambda>_. q) w))"

definition space_loop :: "pthread \<Rightarrow> addr \<Rightarrow> world \<Rightarrow> poll" where
  "space_loop me queue w =
     (let q = qcb w queue in
      if msg_count q \<le> s32 (msgs_per_queue q - 1) \<or> msgs_per_queue q = 0 \<and> q_first_susp q \<noteq> []
      then (if signal_for_my_task me (QueueWriteSusp queue) (order q) w then Over else NotOurs)
      else Still)"

definition waiting_on_q_space :: "pthread \<Rightarrow> addr \<Rightarrow> world \<Rightarrow> poll" where
  "waiting_on_q_space me queue w =
     (if q_killed (qcb w queue) then Over else space_loop me queue w)"

text \<open>What \<^verbatim>\<open>waitToSend\<close> does with the answer of \<^verbatim>\<open>waiting_on_q_space\<close>.\<close>

definition send_poll :: "pthread \<Rightarrow> send_frame \<Rightarrow> poll \<Rightarrow> world \<Rightarrow> send \<times> world" where
  "send_poll me fr p w =
     (case p of
        Over \<Rightarrow> (SAtRelock (fr\<lparr>sf_retcode := 0\<rparr>), w)
      | NotOurs \<Rightarrow>
          (SAtDelay fr, taskDelay_begin me (upd_queue (sf_queue fr) (\<lambda>q. q\<lparr>qfull_lock := 0\<rparr>) w))
      | Still \<Rightarrow>
          if sf_timeout fr \<noteq> None \<and> sf_retcode fr = ETIMEDOUT then (SAtRelock fr, w)
          else (SAtCond fr, upd_queue (sf_queue fr) (\<lambda>q. q\<lparr>qfull_lock := 0\<rparr>) w))"

definition waitToSend ::
  "pthread \<Rightarrow> addr \<Rightarrow> byte list option \<Rightarrow> int \<Rightarrow> int \<Rightarrow> int \<Rightarrow> timeval \<Rightarrow> world \<Rightarrow> (send \<times> world) outcome" where
  "waitToSend me queue msg msglen wait pri now w =
     (if wait \<noteq> NO_WAIT then
        let our_task = my_task me w
        in Done (SAtPoll \<lparr>sf_queue = queue, sf_task = our_task, sf_msg = msg, sf_msglen = msglen,
                   sf_pri = pri,
                   sf_timeout = (if wait = WAIT_FOREVER then None else Some (q_deadline wait now)),
                   sf_retcode = 0\<rparr>,
                 link_susp_task (QueueWriteSusp queue) our_task w)
      else send_return me S_objLib_OBJ_UNAVAILABLE w)"

definition msgQSend ::
  "pthread \<Rightarrow> addr \<Rightarrow> byte list option \<Rightarrow> int \<Rightarrow> int \<Rightarrow> int \<Rightarrow> timeval \<Rightarrow> world \<Rightarrow> (send \<times> world) outcome" where
  "msgQSend me queue msg msglen wait pri now w =
     obind (mqueue_find_lock queue w) (\<lambda>found.
       if \<not> found then send_return me S_objLib_OBJ_ID_ERROR w
       else
         let q = qcb w queue in
         if msglen > msg_len q then send_return me S_msgQLib_INVALID_MSG_LENGTH w
         else if msg_count q > msgs_per_queue q
         then waitToSend me queue msg msglen wait pri now w
         else if msg_count q = msgs_per_queue q then
           if msgs_per_queue q = 0 \<and> q_first_susp q \<noteq> []
           then obind (post_msg queue msg msglen MSG_PRI_NORMAL w) (send_return me OK)
           else if pri = MSG_PRI_URGENT
           then obind (post_msg queue msg msglen pri w) (send_return me OK)
           else waitToSend me queue msg msglen wait pri now w
         else obind (post_msg queue msg msglen pri w) (send_return me OK))"

text \<open>The rest of \<^verbatim>\<open>waitToSend\<close> and \<^verbatim>\<open>msgQSend\<close>, step by step: the first poll, the end of the
  condition wait with the code \<open>rc\<close>, the end of the tick, and what follows with
  \<open>queue_lock\<close>.\<close>

definition msgQSend_poll :: "pthread \<Rightarrow> send_frame \<Rightarrow> world \<Rightarrow> (send \<times> world) outcome" where
  "msgQSend_poll me fr w =
     (if queues w (sf_queue fr) = None then Crashed
      else Done (send_poll me fr (waiting_on_q_space me (sf_queue fr) w) w))"

definition msgQSend_wake :: "pthread \<Rightarrow> int \<Rightarrow> send_frame \<Rightarrow> world \<Rightarrow> (send \<times> world) outcome" where
  "msgQSend_wake me rc fr w =
     (if queues w (sf_queue fr) = None then Crashed
      else if qfull_lock (qcb w (sf_queue fr)) \<noteq> 0 then Blocked
      else
        let w1 = upd_queue (sf_queue fr) (\<lambda>q. q\<lparr>qfull_lock := me\<rparr>) w;
            fr' = (if sf_timeout fr = None then fr else fr\<lparr>sf_retcode := rc\<rparr>)
        in Done (send_poll me fr' (waiting_on_q_space me (sf_queue fr) w1) w1))"

definition msgQSend_tick :: "pthread \<Rightarrow> timeval \<Rightarrow> send_frame \<Rightarrow> world \<Rightarrow> (send \<times> world) outcome" where
  "msgQSend_tick me now fr w =
     (let w0 = taskDelay_end (my_task me w) w in
      if queues w0 (sf_queue fr) = None then Crashed
      else if qfull_lock (qcb w0 (sf_queue fr)) \<noteq> 0 then Blocked
      else
        let w1 = upd_queue (sf_queue fr) (\<lambda>q. q\<lparr>qfull_lock := me\<rparr>) w0
        in Done (send_poll me fr
             (if q_expired (sf_timeout fr) now then Still else space_loop me (sf_queue fr) w1) w1))"

definition msgQSend_relock :: "pthread \<Rightarrow> send_frame \<Rightarrow> world \<Rightarrow> (send \<times> world) outcome" where
  "msgQSend_relock me fr w =
     (let queue = sf_queue fr in
      if queues w queue = None then Crashed
      else if queue_lock (qcb w queue) \<noteq> 0 then Blocked
      else
        let w1 = unlink_susp_task (QueueWriteSusp queue) (sf_task fr) w
        in if q_killed (qcb w1 queue)
           then Done (SAtKilled fr, upd_queue queue (\<lambda>q. q\<lparr>queue_lock := me\<rparr>) w1)
           else if sf_retcode fr = ETIMEDOUT then send_return me S_objLib_OBJ_TIMEOUT w1
           else obind (post_msg queue (sf_msg fr) (sf_msglen fr) (sf_pri fr) w1) (send_return me OK))"

definition msgQSend_killed :: "pthread \<Rightarrow> send_frame \<Rightarrow> world \<Rightarrow> (send \<times> world) outcome" where
  "msgQSend_killed me fr w =
     obind (notify_if_delete_complete (sf_queue fr) w) (\<lambda>_.
       send_return me S_objLib_OBJ_DELETED
         (upd_queue (sf_queue fr) (\<lambda>q. q\<lparr>queue_lock := 0\<rparr>) w))"


section \<open>Receiving\<close>

record recv_frame =
  rf_queue :: addr
  rf_task :: addr
  rf_msgbuf :: bool
  rf_wait :: int
  rf_timeout :: "timespec option"
  rf_retcode :: int

text \<open>Where a call of \<^verbatim>\<open>msgQReceive\<close> is: it has returned, with the bytes in the buffer; it
  needs \<open>qfull_lock\<close> to announce a reader; it waits at \<open>queue_send\<close>; it sleeps for a tick;
  it has seen that the queue is deleted; or it has fetched a message and needs
  \<open>qfull_lock\<close> to announce the space.\<close>

datatype recv = Received int "byte list" | RAtSpace recv_frame | RAtCond recv_frame
  | RAtDelay recv_frame | RAtKilled recv_frame | RAtFull recv_frame int "byte list"

definition recv_return :: "pthread \<Rightarrow> int \<Rightarrow> world \<Rightarrow> (recv \<times> world) outcome" where
  "recv_return me error w = Done (Received ERROR [], set_errno me error w)"

definition msg_loop :: "pthread \<Rightarrow> addr \<Rightarrow> world \<Rightarrow> poll" where
  "msg_loop me queue w =
     (let q = qcb w queue in
      if msg_count q > 0
      then (if signal_for_my_task me (QueueSusp queue) (order q) w then Over else NotOurs)
      else Still)"

definition waiting_on_q_msg :: "pthread \<Rightarrow> addr \<Rightarrow> world \<Rightarrow> poll" where
  "waiting_on_q_msg me queue w =
     (if q_killed (qcb w queue) then Over else msg_loop me queue w)"

text \<open>The end of \<^verbatim>\<open>fetch_msg_from\<close>: whether waiting senders are told about the space.\<close>

definition announces_space :: "v2pt_mqueue_t \<Rightarrow> bool" where
  "announces_space q \<longleftrightarrow>
     q_first_write_susp q \<noteq> [] \<and> msg_count q \<le> s32 (msgs_per_queue q - 1)"

definition recv_exit :: "pthread \<Rightarrow> recv_frame \<Rightarrow> world \<Rightarrow> (recv \<times> world) outcome" where
  "recv_exit me fr w =
     (let queue = rf_queue fr;
          w1 = unlink_susp_task (QueueSusp queue) (rf_task fr) w
      in if q_killed (qcb w1 queue)
         then Done (RAtKilled fr, upd_queue queue (\<lambda>q. q\<lparr>queue_lock := me\<rparr>) w1)
         else if rf_retcode fr = ETIMEDOUT
         then recv_return me (if rf_wait fr = NO_WAIT then S_objLib_OBJ_UNAVAILABLE
                              else S_objLib_OBJ_TIMEOUT) w1
         else obind (fetch_msg_from (rf_msgbuf fr) (qcb w1 queue)) (\<lambda>(bs, n, q).
           if announces_space q \<and> qfull_lock q \<noteq> 0
           then Done (RAtFull fr n bs, upd_queue queue (\<lambda>_. q\<lparr>queue_lock := me\<rparr>) w1)
           else Done (Received (s32 n) bs, upd_queue queue (\<lambda>_. q) w1)))"

definition recv_poll :: "pthread \<Rightarrow> recv_frame \<Rightarrow> poll \<Rightarrow> world \<Rightarrow> (recv \<times> world) outcome" where
  "recv_poll me fr p w =
     (case p of
        Over \<Rightarrow> recv_exit me (fr\<lparr>rf_retcode := 0\<rparr>) w
      | NotOurs \<Rightarrow> Done (RAtDelay fr, taskDelay_begin me w)
      | Still \<Rightarrow>
          if rf_timeout fr \<noteq> None \<and> rf_retcode fr = ETIMEDOUT then recv_exit me fr w
          else Done (RAtCond fr, w))"

definition recv_start :: "pthread \<Rightarrow> timeval \<Rightarrow> recv_frame \<Rightarrow> world \<Rightarrow> (recv \<times> world) outcome" where
  "recv_start me now fr w =
     recv_poll me
       (fr\<lparr>rf_timeout := (if rf_wait fr = NO_WAIT then Some (fst now, snd now * 1000)
                          else if rf_wait fr = WAIT_FOREVER then None
                          else Some (q_deadline (rf_wait fr) now))\<rparr>)
       (waiting_on_q_msg me (rf_queue fr) w) w"

definition msgQReceive ::
  "pthread \<Rightarrow> addr \<Rightarrow> bool \<Rightarrow> int \<Rightarrow> int \<Rightarrow> timeval \<Rightarrow> world \<Rightarrow> (recv \<times> world) outcome" where
  "msgQReceive me queue msgbuf buflen max_wait now w =
     obind (mqueue_find_lock queue w) (\<lambda>found.
       if \<not> found then recv_return me S_objLib_OBJ_ID_ERROR w
       else if buflen < msg_len (qcb w queue) then recv_return me S_msgQLib_INVALID_MSG_LENGTH w
       else
         let our_task = my_task me w;
             w1 = link_susp_task (QueueSusp queue) our_task w;
             q = qcb w1 queue;
             fr = \<lparr>rf_queue = queue, rf_task = our_task, rf_msgbuf = msgbuf, rf_wait = max_wait,
                   rf_timeout = None, rf_retcode = 0\<rparr>
         in if msgs_per_queue q = 0 \<and> q_first_write_susp q \<noteq> [] \<and> qfull_lock q \<noteq> 0
            then Done (RAtSpace fr, upd_queue queue (\<lambda>q. q\<lparr>queue_lock := me\<rparr>) w1)
            else recv_start me now fr w1)"

text \<open>The rest of \<^verbatim>\<open>msgQReceive\<close>, step by step.\<close>

definition msgQReceive_space :: "pthread \<Rightarrow> timeval \<Rightarrow> recv_frame \<Rightarrow> world \<Rightarrow> (recv \<times> world) outcome" where
  "msgQReceive_space me now fr w =
     (if queues w (rf_queue fr) = None then Crashed
      else if qfull_lock (qcb w (rf_queue fr)) \<noteq> 0 then Blocked
      else recv_start me now fr (upd_queue (rf_queue fr) (\<lambda>q. q\<lparr>queue_lock := 0\<rparr>) w))"

definition msgQReceive_wake :: "pthread \<Rightarrow> int \<Rightarrow> recv_frame \<Rightarrow> world \<Rightarrow> (recv \<times> world) outcome" where
  "msgQReceive_wake me rc fr w =
     (if queues w (rf_queue fr) = None then Crashed
      else if queue_lock (qcb w (rf_queue fr)) \<noteq> 0 then Blocked
      else
        let fr' = (if rf_timeout fr = None then fr else fr\<lparr>rf_retcode := rc\<rparr>)
        in recv_poll me fr' (waiting_on_q_msg me (rf_queue fr) w) w)"

definition msgQReceive_tick :: "pthread \<Rightarrow> timeval \<Rightarrow> recv_frame \<Rightarrow> world \<Rightarrow> (recv \<times> world) outcome" where
  "msgQReceive_tick me now fr w =
     (let w0 = taskDelay_end (my_task me w) w in
      if queues w0 (rf_queue fr) = None then Crashed
      else if queue_lock (qcb w0 (rf_queue fr)) \<noteq> 0 then Blocked
      else recv_poll me fr
             (if q_expired (rf_timeout fr) now then Still else msg_loop me (rf_queue fr) w0) w0)"

definition msgQReceive_killed :: "pthread \<Rightarrow> recv_frame \<Rightarrow> world \<Rightarrow> (recv \<times> world) outcome" where
  "msgQReceive_killed me fr w =
     obind (notify_if_delete_complete (rf_queue fr) w) (\<lambda>_.
       recv_return me S_objLib_OBJ_DELETED
         (upd_queue (rf_queue fr) (\<lambda>q. q\<lparr>queue_lock := 0\<rparr>) w))"

definition msgQReceive_full ::
  "pthread \<Rightarrow> recv_frame \<Rightarrow> int \<Rightarrow> byte list \<Rightarrow> world \<Rightarrow> (recv \<times> world) outcome" where
  "msgQReceive_full me fr n bs w =
     (if queues w (rf_queue fr) = None then Crashed
      else if qfull_lock (qcb w (rf_queue fr)) \<noteq> 0 then Blocked
      else Done (Received (s32 n) bs, upd_queue (rf_queue fr) (\<lambda>q. q\<lparr>queue_lock := 0\<rparr>) w))"


section \<open>Deletion\<close>

text \<open>Where a call of \<^verbatim>\<open>msgQDelete\<close> is: it has returned; it has marked the queue and needs
  the scheduler lock; it needs \<open>qfull_lock\<close> to wake the senders; or it waits for the
  pended tasks to leave.\<close>

datatype delq = Deleted int | DAtLock | DAtFull | DAtWait

definition delete_mqueue :: "addr \<Rightarrow> world \<Rightarrow> world" where
  "delete_mqueue queue w = (unlink_qcb queue w)\<lparr>queues := (queues w)(queue := None)\<rparr>"

definition msgQDelete_free :: "pthread \<Rightarrow> addr \<Rightarrow> world \<Rightarrow> (delq \<times> world) outcome" where
  "msgQDelete_free me queue w = Done (Deleted OK, taskUnlock me (delete_mqueue queue w))"

definition msgQDelete_wait :: "pthread \<Rightarrow> addr \<Rightarrow> world \<Rightarrow> (delq \<times> world) outcome" where
  "msgQDelete_wait me queue w =
     (if queues w queue = None then Crashed
      else if q_first_susp (qcb w queue) \<noteq> [] \<or> q_first_write_susp (qcb w queue) \<noteq> []
      then Done (DAtWait, upd_queue queue (\<lambda>q. q\<lparr>qdlet_lock := 0\<rparr>) w)
      else msgQDelete_free me queue w)"

definition msgQDelete_space :: "pthread \<Rightarrow> addr \<Rightarrow> world \<Rightarrow> (delq \<times> world) outcome" where
  "msgQDelete_space me queue w =
     (if queues w queue = None then Crashed
      else if qfull_lock (qcb w queue) \<noteq> 0 then Done (DAtFull, w)
      else msgQDelete_wait me queue w)"

definition msgQDelete_lock :: "pthread \<Rightarrow> addr \<Rightarrow> world \<Rightarrow> (delq \<times> world) outcome" where
  "msgQDelete_lock me queue w =
     (if queues w queue = None then Crashed
      else case taskLock me w of
        Done w1 \<Rightarrow>
          if q_first_susp (qcb w1 queue) \<noteq> [] \<or> q_first_write_susp (qcb w1 queue) \<noteq> []
          then msgQDelete_space me queue (upd_queue queue (\<lambda>q. q\<lparr>queue_lock := 0, qdlet_lock := me\<rparr>) w1)
          else msgQDelete_free me queue (upd_queue queue (\<lambda>q. q\<lparr>queue_lock := 0\<rparr>) w1)
      | Blocked \<Rightarrow> Done (DAtLock, upd_queue queue (\<lambda>q. q\<lparr>queue_lock := me\<rparr>) w)
      | Crashed \<Rightarrow> Crashed)"

definition msgQDelete :: "pthread \<Rightarrow> addr \<Rightarrow> world \<Rightarrow> (delq \<times> world) outcome" where
  "msgQDelete me queue w =
     obind (mqueue_find_lock queue w) (\<lambda>found.
       if \<not> found then obind (finish me S_objLib_OBJ_ID_ERROR w) (\<lambda>(r, w'). Done (Deleted r, w'))
       else msgQDelete_lock me queue (upd_queue queue (\<lambda>q. q\<lparr>q_send_type := Q_KILLD\<rparr>) w))"


section \<open>Lemmas: the list of queues\<close>

interpretation q_registry: registry mqueue_list link_qcb unlink_qcb "\<lambda>q w. mqueue_find_lock q w \<noteq> Done False"
  by unfold_locales (auto simp: link_qcb_def unlink_qcb_def mqueue_find_lock_def)

section \<open>Lemmas: the ring of a queue under the operations\<close>

text \<open>A message pointer that is \<open>NULL\<close> sends the bytes that happen to be in the element; a
  longer buffer is cut.\<close>

lemma overwrite_same: "off + n \<le> length mem \<Longrightarrow> overwrite off (take n (drop off mem)) mem = mem"
  by (rule nth_equalityI) (auto simp: length_overwrite nth_overwrite)

lemma put_msg_any:
  assumes "ring_geometry q" and "i < slots q" and "0 \<le> n" and "n \<le> msg_len q"
    and "\<And>bs. msg = Some bs \<Longrightarrow> n \<le> int (length bs)"
  obtains m where "int (length m) = n" and "\<And>bs. msg = Some bs \<Longrightarrow> m = take (nat n) bs"
    and "put_msg (vmsg_len q * int i) msg n (extent q)
       = put_msg (vmsg_len q * int i) (Some m) (int (length m)) (extent q)"
proof (cases msg)
  case (Some bs)
  have len: "int (length (take (nat n) bs)) = n" using assms(3,5) Some by (simp add: min_absorb2)
  with assms(5) Some show thesis
    by (intro that [of "take (nat n) bs"]) (auto simp: put_msg_def simp del: length_take)
next
  case None
  let ?V = "nat (vmsg_len q)"
  let ?off = "i * ?V + 8"
  let ?m = "take (nat n) (drop ?off (extent q))"
  note b = ring_bounds [OF assms(1,2)]
  have in1: "?off + nat n \<le> length (extent q)" using b assms(4) by (auto simp: HDR_def)
  then have len: "length ?m = nat n" by simp
  have "copy_to (int ?off) ?m (extent q) = Some (extent q)"
    using copy_to_overwrite [of ?off ?m "extent q"] in1 len overwrite_same [OF in1] by simp
  moreover have "vmsg_len q * int i + HDR = int ?off" using b(2) by (simp add: HDR_def)
  ultimately have "copy_to (vmsg_len q * int i + HDR) ?m (extent q) = Some (extent q)" by simp
  with None len assms(3) show thesis
    by (intro that [of ?m]) (auto simp: put_msg_def opt_outcome_def)
qed

lemma put_msg_short: "put_msg e (Some bs) n mem = Done mem' \<Longrightarrow> n \<le> int (length bs)"
  by (auto simp: put_msg_def split: if_split_asm)

text \<open>\<open>sends msg n m\<close>: the message \<open>m\<close> is one that a caller can mean by the pointer \<open>msg\<close>
  and the length \<open>n\<close>.\<close>

definition sends :: "byte list option \<Rightarrow> int \<Rightarrow> byte list \<Rightarrow> bool" where
  "sends msg n m \<longleftrightarrow> int (length m) = n \<and> (\<forall>bs. msg = Some bs \<longrightarrow> m = take (nat n) bs)"

lemma send_msg_to_ring:
  assumes "send_msg_to msg n q = Done q'" and "ring_wf q" and "0 \<le> n" and "n \<le> msg_len q"
    and "length (ring_msgs q) < slots q"
  shows "ring_wf q' \<and> (\<exists>m. sends msg n m \<and> ring_msgs q' = ring_msgs q @ [m])"
proof -
  let ?i = "msg_slot q (length (ring_msgs q))"
  note g = conjunct1 [OF ring_wf_head [OF assms(2)]]
  have tail: "queue_tail q = vmsg_len q * int ?i" using ring_elim(5) [OF assms(2)] .
  have "n \<le> int (length bs)" if "msg = Some bs" for bs
    using assms(1) that by (auto simp: send_msg_to_def obind_Done_iff Let_def dest: put_msg_short)
  from put_msg_any [OF g msg_slot_less assms(3,4) this] obtain m where m: "int (length m) = n"
    "\<And>bs. msg = Some bs \<Longrightarrow> m = take (nat n) bs"
    "put_msg (vmsg_len q * int ?i) msg n (extent q) = put_msg (vmsg_len q * int ?i) (Some m) (int (length m)) (extent q)"
    by metis
  then have "send_msg_to msg n q = send_msg_to (Some m) (int (length m)) q"
    by (simp add: send_msg_to_def tail)
  with send_msg_to_back [OF assms(2), of m] m assms(1,4,5) show ?thesis by (auto simp: sends_def)
qed

lemma urgent_msg_to_ring:
  assumes "urgent_msg_to msg n q = Done q'" and "ring_wf q" and "0 \<le> n" and "n \<le> msg_len q"
    and "length (ring_msgs q) < slots q"
  shows "ring_wf q' \<and> (\<exists>m. sends msg n m \<and> ring_msgs q' = m # ring_msgs q)"
proof -
  let ?i = "(head_slot q + (slots q - 1)) mod slots q"
  note g = conjunct1 [OF ring_wf_head [OF assms(2)]] and h = conjunct2 [OF ring_wf_head [OF assms(2)]]
  have head: "queue_head q = vmsg_len q * int (head_slot q)" using assms(2) by (simp add: ring_wf_def)
  have "n \<le> int (length bs)" if "msg = Some bs" for bs
    using assms(1) that by (auto simp: urgent_msg_to_def obind_Done_iff Let_def dest: put_msg_short)
  moreover have "?i < slots q" by simp
  ultimately obtain m where m: "int (length m) = n"
    "\<And>bs. msg = Some bs \<Longrightarrow> m = take (nat n) bs"
    "put_msg (vmsg_len q * int ?i) msg n (extent q) = put_msg (vmsg_len q * int ?i) (Some m) (int (length m)) (extent q)"
    using put_msg_any [OF g _ assms(3,4), of ?i msg] by metis
  then have "urgent_msg_to msg n q = urgent_msg_to (Some m) (int (length m)) q"
    using ptr_prev [OF g h] by (simp add: urgent_msg_to_def head Let_def)
  with urgent_msg_to_front [OF assms(2), of m] m assms(1,4,5) show ?thesis by (auto simp: sends_def)
qed

lemma fetch_no_buffer: "fetch_msg_from True q = Done (m, n, q') \<Longrightarrow> fetch_msg_from False q = Done ([], 0, q')"
  by (auto simp: fetch_msg_from_def obind_Done_iff Let_def)

lemma fetch_msg_from_ring:
  assumes "ring_wf q" and "ring_msgs q = m # ms"
  shows "\<exists>q'. fetch_msg_from b q = Done (if b then m else [], if b then int (length m) else 0, q')
     \<and> ring_wf q' \<and> ring_msgs q' = ms"
proof -
  obtain q' where "fetch_msg_from True q = Done (m, int (length m), q')" "ring_wf q'" "ring_msgs q' = ms"
    using fetch_msg_from_front [OF assms] by blast
  then show ?thesis using fetch_no_buffer by (cases b) auto
qed

text \<open>The ring operations touch the ring only.\<close>

lemma ring_op_fields:
  "send_msg_to msg n q = Done q' \<Longrightarrow> q_first_susp q' = q_first_susp q
     \<and> q_first_write_susp q' = q_first_write_susp q \<and> queue_lock q' = queue_lock q
     \<and> qfull_lock q' = qfull_lock q \<and> qdlet_lock q' = qdlet_lock q \<and> order q' = order q
     \<and> msgs_per_queue q' = msgs_per_queue q \<and> msg_len q' = msg_len q
     \<and> msg_count q' = s32 (msg_count q + 1)"
  "urgent_msg_to msg n q = Done q' \<Longrightarrow> q_first_susp q' = q_first_susp q
     \<and> q_first_write_susp q' = q_first_write_susp q \<and> queue_lock q' = queue_lock q
     \<and> qfull_lock q' = qfull_lock q \<and> qdlet_lock q' = qdlet_lock q \<and> order q' = order q
     \<and> msgs_per_queue q' = msgs_per_queue q \<and> msg_len q' = msg_len q
     \<and> msg_count q' = s32 (msg_count q + 1)"
  "fetch_msg_from b q = Done (m, k, q') \<Longrightarrow> q_first_susp q' = q_first_susp q
     \<and> q_first_write_susp q' = q_first_write_susp q \<and> queue_lock q' = queue_lock q
     \<and> qfull_lock q' = qfull_lock q \<and> qdlet_lock q' = qdlet_lock q \<and> order q' = order q
     \<and> msgs_per_queue q' = msgs_per_queue q \<and> msg_len q' = msg_len q
     \<and> msg_count q' = s32 (msg_count q - 1)"
  by (auto simp: send_msg_to_def urgent_msg_to_def fetch_msg_from_def obind_Done_iff Let_def)

lemma ring_other_fields [simp]:
  "ring_wf (q\<lparr>queue_lock := l\<rparr>) = ring_wf q" "ring_wf (q\<lparr>qdlet_lock := l\<rparr>) = ring_wf q"
  "ring_wf (q\<lparr>qfull_lock := l\<rparr>) = ring_wf q" "ring_wf (q\<lparr>q_send_type := k\<rparr>) = ring_wf q"
  "ring_wf (q\<lparr>q_first_susp := xs\<rparr>) = ring_wf q" "ring_wf (q\<lparr>q_first_write_susp := xs\<rparr>) = ring_wf q"
  "ring_msgs (q\<lparr>queue_lock := l\<rparr>) = ring_msgs q" "ring_msgs (q\<lparr>qdlet_lock := l\<rparr>) = ring_msgs q"
  "ring_msgs (q\<lparr>qfull_lock := l\<rparr>) = ring_msgs q" "ring_msgs (q\<lparr>q_send_type := k\<rparr>) = ring_msgs q"
  "ring_msgs (q\<lparr>q_first_susp := xs\<rparr>) = ring_msgs q"
  "ring_msgs (q\<lparr>q_first_write_susp := xs\<rparr>) = ring_msgs q"
  "slots (q\<lparr>q_first_susp := xs\<rparr>) = slots q" "slots (q\<lparr>q_first_write_susp := xs\<rparr>) = slots q"
  by (simp_all add: ring_wf_def ring_geometry_def ring_msgs_def slots_def head_slot_def msg_slot_def
      q_elem_def)

text \<open>A queue that accepts a message has room for it; one with a message has one to fetch.\<close>

lemma ring_room: "ring_wf q \<Longrightarrow> msg_count q \<le> msgs_per_queue q \<Longrightarrow> length (ring_msgs q) < slots q"
  by (auto simp: ring_wf_def ring_geometry_def ring_msgs_def slots_def)

lemma ring_nonempty: "ring_wf q \<Longrightarrow> 0 < msg_count q \<Longrightarrow> \<exists>m ms. ring_msgs q = m # ms"
  using ring_elim(1) [of q] by (cases "ring_msgs q") auto

section \<open>Lemmas: every queue stays well formed\<close>

definition rings_ok :: "world \<Rightarrow> bool" where
  "rings_ok w \<longleftrightarrow> (\<forall>a q. queues w a = Some q \<longrightarrow> ring_wf q)"

lemma rings_ok_qcb: "rings_ok w \<Longrightarrow> a \<in> dom (queues w) \<Longrightarrow> ring_wf (qcb w a)"
  by (auto simp: rings_ok_def qcb_def)

lemma rings_ok_cong: "queues w' = queues w \<Longrightarrow> rings_ok w' = rings_ok w"
  by (simp add: rings_ok_def)

lemma rings_ok_upd:
  "rings_ok w \<Longrightarrow> (a \<in> dom (queues w) \<Longrightarrow> ring_wf (f (qcb w a))) \<Longrightarrow> rings_ok (upd_queue a f w)"
  by (cases "a \<in> dom (queues w)") (auto simp: rings_ok_def upd_queue_def qcb_def split: if_split_asm)

lemma rings_ok_upd_same [simp]:
  "(\<And>q. ring_wf (f q) = ring_wf q) \<Longrightarrow> rings_ok w \<Longrightarrow> rings_ok (upd_queue a f w)"
  by (rule rings_ok_upd) (simp_all add: rings_ok_qcb del: domIff)

lemma queues_taskDelay [simp]: "queues (taskDelay_begin me w) = queues w" "queues (taskDelay_end t w) = queues w"
  by (simp_all add: taskDelay_begin_def taskDelay_end_def Let_def)

lemma rings_ok_frame [simp]:
  "rings_ok (upd_task a g w) = rings_ok w" "rings_ok (upd_sem s k w) = rings_ok w"
  "rings_ok (set_errno me e w) = rings_ok w"
  "rings_ok (taskUnlock me w) = rings_ok w" "rings_ok (taskDelay_begin me w) = rings_ok w"
  "rings_ok (taskDelay_end t w) = rings_ok w"
  by (rule rings_ok_cong, simp)+

lemma rings_ok_set_susp: "rings_ok w \<Longrightarrow> rings_ok (set_susp h xs w)"
  by (cases h) simp_all

lemma rings_ok_susp [intro]:
  "rings_ok w \<Longrightarrow> rings_ok (link_susp_task h t w)" "rings_ok w \<Longrightarrow> rings_ok (unlink_susp_task h t w)"
  by (simp_all add: link_susp_task_def unlink_susp_task_def rings_ok_set_susp)

lemma rings_ok_taskLock: "taskLock me w = Done w' \<Longrightarrow> rings_ok w' = rings_ok w"
  by (intro rings_ok_cong) (simp add: taskLock_frame)

lemma dom_queues_susp [simp]:
  "dom (queues (link_susp_task h t w)) = dom (queues w)"
  "dom (queues (unlink_susp_task h t w)) = dom (queues w)"
  by (cases h; simp add: link_susp_task_def unlink_susp_task_def del: domIff)+

text \<open>Waiting lists are not part of the ring.\<close>

lemma qcb_upd_field: "(\<And>x. F (f x) = F x) \<Longrightarrow> F (qcb (upd_queue a f w) b) = F (qcb w b)"
  by (cases "a = b"; cases "queues w b") (auto simp: qcb_def upd_queue_def)

lemma qcb_susp_field:
  assumes "\<And>x xs. F (x\<lparr>q_first_susp := xs\<rparr>) = F x" and "\<And>x xs. F (x\<lparr>q_first_write_susp := xs\<rparr>) = F x"
  shows "F (qcb (link_susp_task h t w) a) = F (qcb w a)"
    and "F (qcb (unlink_susp_task h t w) a) = F (qcb w a)"
  using assms by (cases h; simp add: link_susp_task_def unlink_susp_task_def qcb_upd_field)+

lemmas ring_susp [simp] = qcb_susp_field [where F = ring_wf, simplified]
  qcb_susp_field [where F = ring_msgs, simplified] qcb_susp_field [where F = slots, simplified]
  qcb_susp_field [where F = msg_count, simplified] qcb_susp_field [where F = msg_len, simplified]
  qcb_susp_field [where F = msgs_per_queue, simplified]
  qcb_susp_field [where F = order, simplified] qcb_susp_field [where F = qfull_lock, simplified]
  qcb_susp_field [where F = queue_lock, simplified]

lemma q_killed_susp [simp]:
  "q_killed (qcb (link_susp_task h t w) a) = q_killed (qcb w a)"
  "q_killed (qcb (unlink_susp_task h t w) a) = q_killed (qcb w a)"
  by (rule qcb_susp_field; simp add: q_killed_def)+

lemma finish_queues:
  "finish me e w = Done (r, w') \<Longrightarrow> queues w' = queues w"
  "send_return me e w = Done (s, w') \<Longrightarrow> queues w' = queues w"
  "recv_return me e w = Done (v, w') \<Longrightarrow> queues w' = queues w"
  by (auto simp: finish_Done send_return_def obind_Done_iff recv_return_def)

lemma post_msg_ok:
  assumes "post_msg a msg n pri w = Done w'" and "rings_ok w" and "a \<in> dom (queues w)"
    and "0 \<le> n" and "n \<le> msg_len (qcb w a)" and "length (ring_msgs (qcb w a)) < slots (qcb w a)"
  shows "rings_ok w'"
proof -
  obtain q where w': "w' = upd_queue a (\<lambda>_. q) w"
    and q: "urgent_msg_to msg n (qcb w a) = Done q \<or> send_msg_to msg n (qcb w a) = Done q"
    using assms(1) by (auto simp: post_msg_def obind_Done_iff split: if_split_asm)
  have "ring_wf q"
    using q send_msg_to_ring [of msg n "qcb w a" q] urgent_msg_to_ring [of msg n "qcb w a" q]
      rings_ok_qcb [OF assms(2,3)] assms(4-6) by auto
  then show ?thesis unfolding w' using assms(2) by (intro rings_ok_upd)
qed

text \<open>The queue is allocated when it is in the list.\<close>

definition qlist_ok :: "world \<Rightarrow> bool" where
  "qlist_ok w \<longleftrightarrow> distinct (mqueue_list w) \<and> set (mqueue_list w) = dom (queues w)"

lemma mqueue_find_lock_Done:
  "mqueue_find_lock a w = Done b \<longleftrightarrow>
     (b \<and> a \<in> set (mqueue_list w) \<and> queue_lock (qcb w a) = 0) \<or> (\<not> b \<and> a \<notin> set (mqueue_list w))"
  by (auto simp: mqueue_find_lock_def)

lemma send_poll_ok: "send_poll me fr p w = (r, w') \<Longrightarrow> rings_ok w \<Longrightarrow> rings_ok w'"
  by (auto simp: send_poll_def split: poll.split_asm if_split_asm)

lemma recv_exit_ok:
  assumes "recv_exit me fr w = Done (r, w')" and "rings_ok w" and "rf_queue fr \<in> dom (queues w)"
    and "rf_retcode fr = ETIMEDOUT \<or> q_killed (qcb w (rf_queue fr)) \<or> 0 < msg_count (qcb w (rf_queue fr))"
  shows "rings_ok w'"
proof -
  let ?a = "rf_queue fr"
  let ?w1 = "unlink_susp_task (QueueSusp ?a) (rf_task fr) w"
  have ok1: "rings_ok ?w1" using assms(2) by (rule rings_ok_susp)
  show ?thesis
  proof (cases "q_killed (qcb w ?a) \<or> rf_retcode fr = ETIMEDOUT")
    case True
    then show ?thesis using assms(1) ok1
      by (auto simp: recv_exit_def Let_def recv_return_def split: if_split_asm)
  next
    case False
    have wf: "ring_wf (qcb ?w1 ?a)" using rings_ok_qcb [OF assms(2,3)] by simp
    obtain m ms where "ring_msgs (qcb ?w1 ?a) = m # ms"
      using ring_nonempty [OF wf] assms(4) False by auto
    from fetch_msg_from_ring [OF wf this, of "rf_msgbuf fr"] obtain bs n q
      where "fetch_msg_from (rf_msgbuf fr) (qcb ?w1 ?a) = Done (bs, n, q)" "ring_wf q" by metis
    then show ?thesis using assms(1) False ok1
      by (auto simp: recv_exit_def Let_def split: if_split_asm intro!: rings_ok_upd)
  qed
qed

lemma recv_poll_ok:
  assumes "recv_poll me fr p w = Done (r, w')" and "rings_ok w" and "rf_queue fr \<in> dom (queues w)"
    and "p = Over \<Longrightarrow> q_killed (qcb w (rf_queue fr)) \<or> 0 < msg_count (qcb w (rf_queue fr))"
  shows "rings_ok w'"
  using assms recv_exit_ok [of me "fr\<lparr>rf_retcode := 0\<rparr>" w r w'] recv_exit_ok [of me fr w r w']
  by (auto simp: recv_poll_def simp del: domIff split: poll.split_asm if_split_asm)

lemma msg_poll_Over:
  "msg_loop me a w = Over \<Longrightarrow> 0 < msg_count (qcb w a)"
  "waiting_on_q_msg me a w = Over \<Longrightarrow> q_killed (qcb w a) \<or> 0 < msg_count (qcb w a)"
  by (auto simp: msg_loop_def waiting_on_q_msg_def Let_def split: if_split_asm)

section \<open>The queues as a transition system\<close>

text \<open>One atomic step of a call by any thread, in any frame. \<open>malloc\<close> returns a fresh block of
  the size asked for. With \<open>kept\<close> the limits hold that the code relies on without a test: the
  parameters of \<^verbatim>\<open>msgQCreate\<close> are sensible and their product fits an \<^verbatim>\<open>int\<close>, and a sender that
  goes on after its wait has a message that fits the queue and finds a free element. Without
  \<open>kept\<close> the relation has every step.\<close>

inductive mq_step :: "bool \<Rightarrow> world \<Rightarrow> world \<Rightarrow> bool" for kept where
  Create: "blk \<notin> dom (queues w) \<Longrightarrow> (kept \<longrightarrow> 0 \<le> n \<and> 0 < len \<and> (HDR + len) * (n + 1) \<le> 2147483647) \<Longrightarrow>
    (\<And>mem. data = Some mem \<Longrightarrow> int (length mem) = alloc_size (zero_queue\<lparr>msgs_per_queue := n, msg_len := u32 len\<rparr>)) \<Longrightarrow>
    msgQCreate me n len opt blk data w = Done (a, w') \<Longrightarrow> mq_step kept w w'"
| Send: "0 \<le> n \<Longrightarrow> msgQSend me q msg n wait pri now w = Done (s, w') \<Longrightarrow> mq_step kept w w'"
| SendPoll: "msgQSend_poll me fr w = Done (s, w') \<Longrightarrow> mq_step kept w w'"
| SendWake: "msgQSend_wake me rc fr w = Done (s, w') \<Longrightarrow> mq_step kept w w'"
| SendTick: "msgQSend_tick me now fr w = Done (s, w') \<Longrightarrow> mq_step kept w w'"
| SendRelock: "(kept \<longrightarrow> 0 \<le> sf_msglen fr \<and> sf_msglen fr \<le> msg_len (qcb w (sf_queue fr))
      \<and> msg_count (qcb w (sf_queue fr)) \<le> msgs_per_queue (qcb w (sf_queue fr))) \<Longrightarrow>
    msgQSend_relock me fr w = Done (s, w') \<Longrightarrow> mq_step kept w w'"
| SendKilled: "msgQSend_killed me fr w = Done (s, w') \<Longrightarrow> mq_step kept w w'"
| Receive: "msgQReceive me q buf buflen wait now w = Done (r, w') \<Longrightarrow> mq_step kept w w'"
| ReceiveSpace: "msgQReceive_space me now rf w = Done (r, w') \<Longrightarrow> mq_step kept w w'"
| ReceiveWake: "msgQReceive_wake me rc rf w = Done (r, w') \<Longrightarrow> mq_step kept w w'"
| ReceiveTick: "msgQReceive_tick me now rf w = Done (r, w') \<Longrightarrow> mq_step kept w w'"
| ReceiveKilled: "msgQReceive_killed me rf w = Done (r, w') \<Longrightarrow> mq_step kept w w'"
| ReceiveFull: "msgQReceive_full me rf n bs w = Done (r, w') \<Longrightarrow> mq_step kept w w'"
| Delete: "me \<noteq> 0 \<Longrightarrow> msgQDelete me q w = Done (d, w') \<Longrightarrow> mq_step kept w w'"
| DeleteLock: "me \<noteq> 0 \<Longrightarrow> msgQDelete_lock me q w = Done (d, w') \<Longrightarrow> mq_step kept w w'"
| DeleteSpace: "me \<noteq> 0 \<Longrightarrow> msgQDelete_space me q w = Done (d, w') \<Longrightarrow> mq_step kept w w'"
| DeleteWait: "me \<noteq> 0 \<Longrightarrow> msgQDelete_wait me q w = Done (d, w') \<Longrightarrow> mq_step kept w w'"

inductive mq_reach :: "world \<Rightarrow> bool" where
  Start: "queues w = Map.empty \<Longrightarrow> mqueue_list w = [] \<Longrightarrow> mq_reach w"
| Step: "mq_reach w \<Longrightarrow> mq_step True w w' \<Longrightarrow> mq_reach w'"

definition mq_inv :: "world \<Rightarrow> bool" where
  "mq_inv w \<longleftrightarrow> rings_ok w \<and> qlist_ok w"

text \<open>The list of queues changes in creation and deletion only.\<close>

definition same_queues :: "world \<Rightarrow> world \<Rightarrow> bool" where
  "same_queues w w' \<longleftrightarrow> mqueue_list w' = mqueue_list w \<and> dom (queues w') = dom (queues w)"

lemma qlist_ok_same: "same_queues w w' \<Longrightarrow> qlist_ok w' = qlist_ok w"
  by (simp add: same_queues_def qlist_ok_def)

lemma mqueue_list_frame [simp]:
  "mqueue_list (set_susp h xs w) = mqueue_list w" "mqueue_list (link_susp_task h t w) = mqueue_list w"
  "mqueue_list (unlink_susp_task h t w) = mqueue_list w"
  "mqueue_list (taskDelay_begin me w) = mqueue_list w" "mqueue_list (taskDelay_end t w) = mqueue_list w"
proof -
  show *: "mqueue_list (set_susp h xs w) = mqueue_list w" for xs by (cases h) simp_all
  show "mqueue_list (link_susp_task h t w) = mqueue_list w"
    "mqueue_list (unlink_susp_task h t w) = mqueue_list w"
    by (simp_all add: link_susp_task_def unlink_susp_task_def *)
qed (simp_all add: taskDelay_begin_def taskDelay_end_def Let_def)

lemma same_queues_simps [simp]:
  "same_queues w w" "same_queues w (upd_queue a f v) = same_queues w v"
  "same_queues w (link_susp_task h t v) = same_queues w v"
  "same_queues w (unlink_susp_task h t v) = same_queues w v"
  "same_queues w (taskDelay_begin me v) = same_queues w v"
  "same_queues w (taskDelay_end t v) = same_queues w v"
  "same_queues w (set_errno me e v) = same_queues w v"
  "same_queues (upd_queue a f w) v = same_queues w v"
  "same_queues (taskDelay_end t w) v = same_queues w v"
  "same_queues (link_susp_task h t w) v = same_queues w v"
  "same_queues (unlink_susp_task h t w) v = same_queues w v"
  by (simp_all add: same_queues_def del: domIff)

lemma same_queues_trans: "same_queues u v \<Longrightarrow> same_queues v w \<Longrightarrow> same_queues u w"
  by (simp add: same_queues_def)

lemma same_queues_send:
  "send_return me e w = Done (s, w') \<Longrightarrow> same_queues w w'"
  "post_msg a msg n pri w = Done w' \<Longrightarrow> same_queues w w'"
  "send_poll me fr p w = (s, w') \<Longrightarrow> same_queues w w'"
  by (auto simp: send_return_def obind_Done_iff finish_Done post_msg_def send_poll_def
      split: poll.split_asm if_split_asm)

lemma same_queues_post:
  "obind (post_msg a msg n pri w) (send_return me e) = Done (s, w') \<Longrightarrow> same_queues w w'"
  by (auto simp: obind_Done_iff dest!: same_queues_send intro: same_queues_trans)

lemma same_queues_recv:
  "recv_return me e w = Done (r, w') \<Longrightarrow> same_queues w w'"
  "recv_exit me fr w = Done (r, w') \<Longrightarrow> same_queues w w'"
  "recv_poll me fr p w = Done (r, w') \<Longrightarrow> same_queues w w'"
proof -
  show 1: "recv_return me e w = Done (r, w') \<Longrightarrow> same_queues w w'" for e
    by (auto simp: recv_return_def)
  show 2: "recv_exit me fr w = Done (r, w') \<Longrightarrow> same_queues w w'" for fr
    by (auto simp: obind_Done_iff recv_return_def recv_exit_def Let_def split: if_split_asm)
  show "recv_poll me fr p w = Done (r, w') \<Longrightarrow> same_queues w w'"
    by (auto simp: recv_poll_def dest: 2 split: poll.split_asm if_split_asm)
qed

lemma mq_inv_intro: "mq_inv w \<Longrightarrow> same_queues w w' \<Longrightarrow> rings_ok w' \<Longrightarrow> mq_inv w'"
  by (simp add: mq_inv_def qlist_ok_same)

text \<open>Sending.\<close>

lemma mq_inv_post:
  assumes "obind (post_msg a msg n pri w) (send_return me e) = Done (s, w')" and "mq_inv w"
    and "a \<in> dom (queues w)" and "0 \<le> n" and "n \<le> msg_len (qcb w a)"
    and "msg_count (qcb w a) \<le> msgs_per_queue (qcb w a)"
  shows "mq_inv w'"
proof (rule mq_inv_intro [OF assms(2) same_queues_post [OF assms(1)]])
  have "ring_wf (qcb w a)" using assms(2,3) by (simp add: mq_inv_def rings_ok_qcb del: domIff)
  then have "length (ring_msgs (qcb w a)) < slots (qcb w a)" using assms(6) by (rule ring_room)
  moreover obtain v where "post_msg a msg n pri w = Done v" "send_return me e v = Done (s, w')"
    using assms(1) by (auto simp: obind_Done_iff)
  ultimately show "rings_ok w'"
    using post_msg_ok [of a msg n pri w v] rings_ok_cong [OF finish_queues(2)] assms(2-5)
    by (simp add: mq_inv_def)
qed

lemma mq_inv_upd [simp]:
  "(\<And>q. ring_wf (f q) = ring_wf q) \<Longrightarrow> mq_inv w \<Longrightarrow> mq_inv (upd_queue a f w)"
  by (rule mq_inv_intro [of w]) (auto simp: mq_inv_def)

lemma mq_inv_frame [simp]:
  "mq_inv w \<Longrightarrow> mq_inv (link_susp_task h t w)" "mq_inv w \<Longrightarrow> mq_inv (unlink_susp_task h t w)"
  "mq_inv w \<Longrightarrow> mq_inv (taskDelay_end t w)" "mq_inv w \<Longrightarrow> mq_inv (taskDelay_begin me w)"
  "mq_inv w \<Longrightarrow> mq_inv (set_errno me e w)"
  by (rule mq_inv_intro [of w]; auto simp: mq_inv_def)+

lemma mq_inv_send_return: "send_return me e w = Done (s, w') \<Longrightarrow> mq_inv w \<Longrightarrow> mq_inv w'"
  by (auto simp: send_return_def obind_Done_iff finish_Done)

lemma mq_inv_waitToSend: "waitToSend me a msg n wait pri now w = Done (s, w') \<Longrightarrow> mq_inv w \<Longrightarrow> mq_inv w'"
  by (auto simp: waitToSend_def Let_def elim: mq_inv_send_return split: if_split_asm)

lemma mq_inv_send_poll: "send_poll me fr p w = (s, w') \<Longrightarrow> mq_inv w \<Longrightarrow> mq_inv w'"
  by (auto simp: send_poll_def split: poll.split_asm if_split_asm)

lemma mq_inv_list: "mq_inv w \<Longrightarrow> a \<in> set (mqueue_list w) \<Longrightarrow> a \<in> dom (queues w)"
  by (simp add: mq_inv_def qlist_ok_def del: domIff)

lemma mq_inv_msgQSend:
  assumes "msgQSend me a msg n wait pri now w = Done (s, w')" and "mq_inv w" and "0 \<le> n"
  shows "mq_inv w'"
proof (cases "a \<in> set (mqueue_list w)")
  case False
  then show ?thesis using assms(1,2)
    by (auto simp: msgQSend_def mqueue_find_lock_Done obind_Done_iff intro: mq_inv_send_return)
next
  case True
  consider e where "send_return me e w = Done (s, w')"
    | "waitToSend me a msg n wait pri now w = Done (s, w')"
    | p where "obind (post_msg a msg n p w) (send_return me OK) = Done (s, w')"
      "n \<le> msg_len (qcb w a)" "msg_count (qcb w a) \<le> msgs_per_queue (qcb w a)"
    using assms(1) True
    by (auto simp: msgQSend_def mqueue_find_lock_def Let_def not_less split: if_split_asm)
  then show ?thesis
    using mq_inv_send_return mq_inv_waitToSend mq_inv_post mq_inv_list [OF assms(2) True] assms(2,3)
    by cases blast+
qed

lemma mq_inv_msgQSend_rest:
  "msgQSend_poll me fr w = Done (s, w') \<Longrightarrow> mq_inv w \<Longrightarrow> mq_inv w'"
  "msgQSend_wake me rc fr w = Done (s, w') \<Longrightarrow> mq_inv w \<Longrightarrow> mq_inv w'"
  "msgQSend_tick me now fr w = Done (s, w') \<Longrightarrow> mq_inv w \<Longrightarrow> mq_inv w'"
  "msgQSend_killed me fr w = Done (s, w') \<Longrightarrow> mq_inv w \<Longrightarrow> mq_inv w'"
  by (auto simp: msgQSend_poll_def msgQSend_wake_def msgQSend_tick_def msgQSend_killed_def Let_def
      obind_Done_iff split: if_split_asm elim!: mq_inv_send_poll mq_inv_send_return)

lemma mq_inv_msgQSend_relock:
  assumes "msgQSend_relock me fr w = Done (s, w')" and "mq_inv w" and "0 \<le> sf_msglen fr"
    and "sf_msglen fr \<le> msg_len (qcb w (sf_queue fr))"
    and "msg_count (qcb w (sf_queue fr)) \<le> msgs_per_queue (qcb w (sf_queue fr))"
  shows "mq_inv w'"
proof -
  let ?a = "sf_queue fr"
  let ?w1 = "unlink_susp_task (QueueWriteSusp ?a) (sf_task fr) w"
  have i: "mq_inv ?w1" using assms(2) by simp
  have dom: "?a \<in> dom (queues ?w1)" using assms(1) by (auto simp: msgQSend_relock_def Let_def simp del: domIff split: if_split_asm)
  consider "w' = upd_queue ?a (\<lambda>q. q\<lparr>queue_lock := me\<rparr>) ?w1"
    | "send_return me S_objLib_OBJ_TIMEOUT ?w1 = Done (s, w')"
    | "obind (post_msg ?a (sf_msg fr) (sf_msglen fr) (sf_pri fr) ?w1) (send_return me OK) = Done (s, w')"
    using assms(1) by (auto simp: msgQSend_relock_def Let_def split: if_split_asm)
  then show ?thesis
  proof cases
    case 3
    then show ?thesis using assms(3-5) by (intro mq_inv_post [OF 3 i dom]) simp_all
  qed (use i mq_inv_send_return in auto)
qed

text \<open>Receiving.\<close>

lemma mq_inv_recv_poll:
  assumes "recv_poll me fr p w = Done (r, w')" and "mq_inv w" and "rf_queue fr \<in> dom (queues w)"
    and "p = Over \<Longrightarrow> q_killed (qcb w (rf_queue fr)) \<or> 0 < msg_count (qcb w (rf_queue fr))"
  shows "mq_inv w'"
  using assms(2) same_queues_recv(3) [OF assms(1)]
  by (rule mq_inv_intro) (use assms recv_poll_ok [OF assms(1)] in \<open>simp add: mq_inv_def del: domIff\<close>)

lemma mq_inv_recv_start:
  assumes "recv_start me now fr w = Done (r, w')" and "mq_inv w" and "rf_queue fr \<in> dom (queues w)"
  shows "mq_inv w'"
  using assms(1) unfolding recv_start_def
  by (rule mq_inv_recv_poll) (use assms(2,3) msg_poll_Over(2) in \<open>auto simp del: domIff\<close>)

lemma mq_inv_msgQReceive:
  assumes "msgQReceive me a buf n wait now w = Done (r, w')" and "mq_inv w"
  shows "mq_inv w'"
proof (cases "a \<in> set (mqueue_list w)")
  case False
  then show ?thesis using assms by (auto simp: msgQReceive_def mqueue_find_lock_def recv_return_def)
next
  case True
  let ?w1 = "link_susp_task (QueueSusp a) (my_task me w) w"
  have "mq_inv ?w1" "a \<in> dom (queues ?w1)" using mq_inv_list [OF assms(2) True] assms(2) by (simp_all del: domIff)
  then have start: "mq_inv w'" if "recv_start me now fr ?w1 = Done (r, w')" "rf_queue fr = a" for fr
    using mq_inv_recv_start [OF that(1)] that(2) by simp
  show ?thesis using assms True
    by (auto simp: msgQReceive_def mqueue_find_lock_def recv_return_def Let_def
        split: if_split_asm elim!: start)
qed

lemma mq_inv_msgQReceive_rest:
  assumes "mq_inv w"
  shows "msgQReceive_space me now fr w = Done (r, w') \<Longrightarrow> mq_inv w'"
    and "msgQReceive_wake me rc fr w = Done (r, w') \<Longrightarrow> mq_inv w'"
    and "msgQReceive_tick me now fr w = Done (r, w') \<Longrightarrow> mq_inv w'"
    and "msgQReceive_killed me fr w = Done (r, w') \<Longrightarrow> mq_inv w'"
    and "msgQReceive_full me fr n bs w = Done (r, w') \<Longrightarrow> mq_inv w'"
proof -
  have alive: "rf_queue fr \<in> dom (queues w)" if "queues w (rf_queue fr) \<noteq> None" using that by auto
  show "mq_inv w'" if "msgQReceive_space me now fr w = Done (r, w')"
  proof -
    let ?w1 = "upd_queue (rf_queue fr) (\<lambda>q. q\<lparr>queue_lock := 0\<rparr>) w"
    have "recv_start me now fr ?w1 = Done (r, w')" "queues w (rf_queue fr) \<noteq> None"
      using that by (simp_all add: msgQReceive_space_def split: if_split_asm)
    moreover have "rf_queue fr \<in> dom (queues ?w1)" unfolding dom_upd_queue by (rule alive) fact
    moreover have "mq_inv ?w1" using assms by simp
    ultimately show ?thesis using mq_inv_recv_start by blast
  qed
  show "mq_inv w'" if "msgQReceive_wake me rc fr w = Done (r, w')"
  proof -
    let ?fr = "if rf_timeout fr = None then fr else fr\<lparr>rf_retcode := rc\<rparr>"
    have "recv_poll me ?fr (waiting_on_q_msg me (rf_queue fr) w) w = Done (r, w')" "queues w (rf_queue fr) \<noteq> None"
      using that by (cases "queues w (rf_queue fr) = None"; cases "queue_lock (qcb w (rf_queue fr)) = 0";
          simp add: msgQReceive_wake_def Let_def del: domIff)+
    moreover have "rf_queue ?fr = rf_queue fr" by simp
    ultimately show ?thesis using assms alive msg_poll_Over(2) [of me "rf_queue fr" w]
      by (metis mq_inv_recv_poll)
  qed
  show "mq_inv w'" if "msgQReceive_tick me now fr w = Done (r, w')"
  proof -
    let ?w0 = "taskDelay_end (my_task me w) w"
    have "recv_poll me fr (if q_expired (rf_timeout fr) now then Still else msg_loop me (rf_queue fr) ?w0) ?w0
        = Done (r, w')" "queues w (rf_queue fr) \<noteq> None"
      using that by (simp_all add: msgQReceive_tick_def Let_def split: if_split_asm)
    moreover have "rf_queue fr \<in> dom (queues ?w0)" unfolding queues_taskDelay by (rule alive) fact
    moreover have "mq_inv ?w0" using assms by simp
    ultimately show ?thesis using msg_poll_Over(1) [of me "rf_queue fr" ?w0]
      by (metis mq_inv_recv_poll poll.distinct(1))
  qed
  show "mq_inv w'" if "msgQReceive_killed me fr w = Done (r, w')"
    using that assms by (auto simp: msgQReceive_killed_def obind_Done_iff recv_return_def)
  show "mq_inv w'" if "msgQReceive_full me fr n bs w = Done (r, w')"
    using that assms by (auto simp: msgQReceive_full_def split: if_split_asm)
qed

text \<open>Deletion and creation.\<close>

lemma mq_inv_delete_mqueue: "mq_inv w \<Longrightarrow> mq_inv (delete_mqueue a w)"
  by (auto simp: mq_inv_def delete_mqueue_def unlink_qcb_def rings_ok_def qlist_ok_def)

lemma mq_inv_taskUnlock [simp]: "mq_inv (taskUnlock me w) = mq_inv w"
  by (simp add: mq_inv_def qlist_ok_def)

lemma mq_inv_taskLock: "taskLock me w = Done w' \<Longrightarrow> mq_inv w \<Longrightarrow> mq_inv w'"
  by (simp add: mq_inv_def qlist_ok_def rings_ok_taskLock taskLock_frame)

lemma mq_inv_msgQDelete:
  shows "msgQDelete_free me a w = Done (d, w') \<Longrightarrow> mq_inv w \<Longrightarrow> mq_inv w'"
    and "msgQDelete_wait me a w = Done (d, w') \<Longrightarrow> mq_inv w \<Longrightarrow> mq_inv w'"
    and "msgQDelete_space me a w = Done (d, w') \<Longrightarrow> mq_inv w \<Longrightarrow> mq_inv w'"
    and "msgQDelete_lock me a w = Done (d, w') \<Longrightarrow> mq_inv w \<Longrightarrow> mq_inv w'"
    and "msgQDelete me a w = Done (d, w') \<Longrightarrow> mq_inv w \<Longrightarrow> mq_inv w'"
proof -
  show 1: "msgQDelete_free me a w = Done (d, w') \<Longrightarrow> mq_inv w \<Longrightarrow> mq_inv w'" for w
    by (auto simp: msgQDelete_free_def mq_inv_delete_mqueue)
  show 2: "msgQDelete_wait me a w = Done (d, w') \<Longrightarrow> mq_inv w \<Longrightarrow> mq_inv w'" for w
    by (auto simp: msgQDelete_wait_def split: if_split_asm elim!: 1)
  show 3: "msgQDelete_space me a w = Done (d, w') \<Longrightarrow> mq_inv w \<Longrightarrow> mq_inv w'" for w
    by (auto simp: msgQDelete_space_def split: if_split_asm elim!: 2)
  show 4: "msgQDelete_lock me a w = Done (d, w') \<Longrightarrow> mq_inv w \<Longrightarrow> mq_inv w'" for w
    by (auto simp: msgQDelete_lock_def split: if_split_asm outcome.split_asm
        elim!: 1 3 dest!: mq_inv_taskLock)
  show "msgQDelete me a w = Done (d, w') \<Longrightarrow> mq_inv w \<Longrightarrow> mq_inv w'"
    by (auto simp: msgQDelete_def obind_Done_iff finish_Done split: if_split_asm elim!: 4)
qed

text \<open>The control block \<^verbatim>\<open>msgQCreate\<close> makes.\<close>

definition fresh_queue :: "int \<Rightarrow> int \<Rightarrow> 32 word \<Rightarrow> v2pt_mqueue_t" where
  "fresh_queue n len opt = zero_queue\<lparr>msgs_per_queue := n, msg_len := len, vmsg_len := HDR + len,
     extent := replicate (nat ((HDR + len) * (n + 1))) 0,
     last_msg_in_queue := (HDR + len) * n, q_send_type := Q_SEND,
     order := (if opt AND MSG_Q_PRIORITY \<noteq> 0 then 1 else 0)\<rparr>"

lemma fresh_queue_wf:
  assumes "0 \<le> n" and "0 < len" and "(HDR + len) * (n + 1) \<le> 2147483647"
  shows "ring_wf (fresh_queue n len opt)" and "ring_msgs (fresh_queue n len opt) = []"
    and "msgs_per_queue (fresh_queue n len opt) = n" and "msg_len (fresh_queue n len opt) = len"
proof -
  let ?q = "zero_queue\<lparr>msgs_per_queue := n, msg_len := len\<rparr>"
  let ?k = "nat ((HDR + len) * (n + 1))"
  have nn: "0 \<le> (HDR + len) * (n + 1)" using assms by (simp add: HDR_def)
  have V: "9 \<le> HDR + len" "1 \<le> n + 1" using assms by (simp_all add: HDR_def)
  have "9 * (n + 1) \<le> (HDR + len) * (n + 1)" using V by (intro mult_right_mono) simp_all
  moreover have "(HDR + len) * 1 \<le> (HDR + len) * (n + 1)" using V by (intro mult_left_mono) simp_all
  ultimately have "9 * (n + 1) \<le> 2147483647" "HDR + len \<le> 2147483647" using assms(3) by simp_all
  then have "n < 2147483647" "len < 4294967296" using assms(1) by (simp_all add: HDR_def)
  then have "ring_geometry (fresh_queue n len opt)"
    using assms nn by (simp add: ring_geometry_def fresh_queue_def zero_queue_def)
  then show "ring_wf (fresh_queue n len opt)"
    using assms by (simp add: ring_wf_def fresh_queue_def zero_queue_def head_slot_def slots_def msg_slot_def)
qed (simp_all add: ring_msgs_def fresh_queue_def zero_queue_def)

lemma msgQCreate_succeeds:
  assumes "blk \<noteq> NULL" and "0 \<le> n" and "0 < len" and "(HDR + len) * (n + 1) \<le> 2147483647"
    and "int (length mem) = alloc_size (zero_queue\<lparr>msgs_per_queue := n, msg_len := u32 len\<rparr>)"
  shows "msgQCreate me n len opt blk (Some mem) w =
     Done (blk, link_qcb blk (w\<lparr>queues := (queues w)(blk \<mapsto> fresh_queue n len opt)\<rparr>))"
proof -
  have "0 \<le> (HDR + len) * n" using assms(2,3) by (simp add: HDR_def)
  then have "HDR + len \<le> 2147483647" using assms(4) by (simp add: algebra_simps)
  then have u: "u32 len = len" using assms(3) by (simp add: u32_id HDR_def)
  have len: "length mem = nat ((HDR + len) * (n + 1))"
    using data_extent_for_geometry(2) [of "zero_queue\<lparr>msgs_per_queue := n, msg_len := len\<rparr>" mem] assms u
    by (simp add: zero_queue_def)
  show ?thesis
    using data_extent_for_geometry(1) [of "zero_queue\<lparr>msgs_per_queue := n, msg_len := len\<rparr>" mem] assms u len
    by (simp add: msgQCreate_def Let_def fresh_queue_def zero_queue_def)
qed

lemma mq_inv_msgQCreate:
  assumes "msgQCreate me n len opt blk data w = Done (a, w')" and "mq_inv w"
    and "blk \<notin> dom (queues w)" and "0 \<le> n" and "0 < len" and "(HDR + len) * (n + 1) \<le> 2147483647"
    and "\<And>mem. data = Some mem \<Longrightarrow> int (length mem) = alloc_size (zero_queue\<lparr>msgs_per_queue := n, msg_len := u32 len\<rparr>)"
  shows "mq_inv w'"
proof (cases "blk = NULL \<or> data = None")
  case True
  then show ?thesis using assms(1,2)
    by (auto simp: msgQCreate_def data_extent_for_def Let_def split: if_split_asm)
next
  case False
  then obtain mem where "data = Some mem" by auto
  then have w': "w' = link_qcb blk (w\<lparr>queues := (queues w)(blk \<mapsto> fresh_queue n len opt)\<rparr>)"
    using msgQCreate_succeeds [of blk n len mem me opt w] assms False by simp
  show ?thesis
    using assms(2,3) fresh_queue_wf(1) [OF assms(4-6)] unfolding w'
    by (auto simp: mq_inv_def rings_ok_def qlist_ok_def link_qcb_def split: if_split_asm)
qed

lemma mq_step_inv: "mq_step True w w' \<Longrightarrow> mq_inv w \<Longrightarrow> mq_inv w'"
  by (induction rule: mq_step.induct)
    (blast intro: mq_inv_msgQCreate mq_inv_msgQSend mq_inv_msgQSend_rest mq_inv_msgQSend_relock
      mq_inv_msgQReceive mq_inv_msgQReceive_rest mq_inv_msgQDelete)+

text \<open>Without the conditions the list of queues is still in order.\<close>

lemma same_queues_msgQSend:
  "msgQSend me a msg n wait pri now w = Done (s, w') \<Longrightarrow> same_queues w w'"
  "msgQSend_poll me fr w = Done (s, w') \<Longrightarrow> same_queues w w'"
  "msgQSend_wake me rc fr w = Done (s, w') \<Longrightarrow> same_queues w w'"
  "msgQSend_tick me now fr w = Done (s, w') \<Longrightarrow> same_queues w w'"
  "msgQSend_killed me fr w = Done (s, w') \<Longrightarrow> same_queues w w'"
  "msgQSend_relock me fr w = Done (s, w') \<Longrightarrow> same_queues w w'"
proof -
  show "msgQSend me a msg n wait pri now w = Done (s, w') \<Longrightarrow> same_queues w w'"
    by (auto simp: msgQSend_def obind_Done_iff [of "mqueue_find_lock a w"] Let_def waitToSend_def
        dest!: same_queues_post same_queues_send(1) split: if_split_asm)
qed (auto simp: msgQSend_poll_def msgQSend_wake_def msgQSend_tick_def msgQSend_killed_def msgQSend_relock_def Let_def
    obind_Done_iff [of "notify_if_delete_complete (sf_queue fr) w"] dest!: same_queues_post same_queues_send(1,3)
    split: if_split_asm)

lemma same_queues_msgQReceive:
  "msgQReceive me a buf n wait now w = Done (r, w') \<Longrightarrow> same_queues w w'"
  "msgQReceive_space me now rf w = Done (r, w') \<Longrightarrow> same_queues w w'"
  "msgQReceive_wake me rc rf w = Done (r, w') \<Longrightarrow> same_queues w w'"
  "msgQReceive_tick me now rf w = Done (r, w') \<Longrightarrow> same_queues w w'"
  "msgQReceive_killed me rf w = Done (r, w') \<Longrightarrow> same_queues w w'"
  "msgQReceive_full me rf k bs w = Done (r, w') \<Longrightarrow> same_queues w w'"
  by (auto simp: msgQReceive_def msgQReceive_space_def msgQReceive_wake_def msgQReceive_tick_def msgQReceive_killed_def
      msgQReceive_full_def recv_start_def Let_def obind_Done_iff dest!: same_queues_recv(1,3) split: if_split_asm)

lemma qlist_ok_lock: "taskLock me w = Done w' \<Longrightarrow> qlist_ok w' = qlist_ok w"
  by (simp add: qlist_ok_def taskLock_frame)

lemma qlist_ok_delete:
  "msgQDelete_wait me a w = Done (d, w') \<Longrightarrow> qlist_ok w \<Longrightarrow> qlist_ok w'"
  "msgQDelete_space me a w = Done (d, w') \<Longrightarrow> qlist_ok w \<Longrightarrow> qlist_ok w'"
  "msgQDelete_lock me a w = Done (d, w') \<Longrightarrow> qlist_ok w \<Longrightarrow> qlist_ok w'"
  "msgQDelete me a w = Done (d, w') \<Longrightarrow> qlist_ok w \<Longrightarrow> qlist_ok w'"
proof -
  have u: "qlist_ok (upd_queue b f v) = qlist_ok v" for b f v by (rule qlist_ok_same) simp
  have 1: "msgQDelete_free me a v = Done (d, w') \<Longrightarrow> qlist_ok v \<Longrightarrow> qlist_ok w'" for v
    by (auto simp: msgQDelete_free_def delete_mqueue_def unlink_qcb_def qlist_ok_def split: if_split_asm)
  show 2: "msgQDelete_wait me a v = Done (d, w') \<Longrightarrow> qlist_ok v \<Longrightarrow> qlist_ok w'" for v
    by (auto simp: msgQDelete_wait_def u split: if_split_asm elim!: 1)
  show 3: "msgQDelete_space me a v = Done (d, w') \<Longrightarrow> qlist_ok v \<Longrightarrow> qlist_ok w'" for v
    by (auto simp: msgQDelete_space_def u split: if_split_asm elim!: 2)
  show 4: "msgQDelete_lock me a v = Done (d, w') \<Longrightarrow> qlist_ok v \<Longrightarrow> qlist_ok w'" for v
    by (auto simp: msgQDelete_lock_def u qlist_ok_lock split: if_split_asm outcome.split_asm elim!: 1 3)
  show "msgQDelete me a w = Done (d, w') \<Longrightarrow> qlist_ok w \<Longrightarrow> qlist_ok w'"
    by (auto simp: msgQDelete_def obind_Done_iff finish_Done u split: if_split_asm elim!: 4)
      (simp_all add: qlist_ok_def)
qed

lemma qlist_ok_create:
  "msgQCreate me n len opt blk data w = Done (a, w') \<Longrightarrow> blk \<notin> dom (queues w) \<Longrightarrow> qlist_ok w \<Longrightarrow> qlist_ok w'"
  by (auto simp: msgQCreate_def obind_Done_iff Let_def link_qcb_def qlist_ok_def simp del: domIff
      split: if_split_asm option.split_asm)

text \<open>What every step keeps, and what the steps within the limits keep.\<close>

definition mq_under :: "bool \<Rightarrow> world \<Rightarrow> bool" where
  "mq_under kept w \<longleftrightarrow> qlist_ok w \<and> (kept \<longrightarrow> rings_ok w)"

lemma mq_under_True: "mq_under True = mq_inv"
  by (auto simp: mq_under_def mq_inv_def fun_eq_iff)

lemma qlist_ok_step:
  assumes "mq_step kept w w'" and ok: "qlist_ok w"
  shows "qlist_ok w'"
proof -
  have *: "qlist_ok w'" if "same_queues w w'" using qlist_ok_same [OF that] ok by simp
  show ?thesis
    using assms(1)
    by cases (blast intro: * qlist_ok_create [OF _ _ ok] qlist_ok_delete [OF _ ok] dest: same_queues_msgQSend
        same_queues_msgQReceive)+
qed

lemma mq_under_step: "mq_step kept w w' \<Longrightarrow> mq_under kept w \<Longrightarrow> mq_under kept w'"
proof (cases kept)
  case True
  assume "mq_step kept w w'" "mq_under kept w"
  then show ?thesis using True mq_step_inv by (simp add: mq_under_True)
next
  case False
  assume "mq_step kept w w'" "mq_under kept w"
  then show ?thesis using False qlist_ok_step by (simp add: mq_under_def)
qed

lemma mq_reach_inv: "mq_reach w \<Longrightarrow> mq_inv w"
proof (induction rule: mq_reach.induct)
  case (Start w)
  then show ?case by (simp add: mq_inv_def rings_ok_def qlist_ok_def)
qed (rule mq_step_inv)

section \<open>Properties of the message queues\<close>

text \<open>In every interleaving of the steps of any number of senders, receivers and
  deleters, with the one proviso that a sender that has waited finds a free element when it
  has \<open>queue_lock\<close> again, every queue is in the list exactly once and its ring is well
  formed: the pointers are inside the extent, the counter is the number of messages and at
  most \<open>msgs_per_queue + 1\<close>, and no message is longer than \<open>msg_len\<close>.\<close>

theorem msgQ_invariant:
  assumes "mq_reach w" and "queues w a = Some q"
  shows "a \<in> set (mqueue_list w) \<and> distinct (mqueue_list w) \<and> ring_wf q
     \<and> msg_count q = int (length (ring_msgs q)) \<and> msg_count q \<le> msgs_per_queue q + 1
     \<and> (\<forall>m \<in> set (ring_msgs q). int (length m) \<le> msg_len q)"
proof -
  have inv: "mq_inv w" using assms(1) by (rule mq_reach_inv)
  then have wf: "ring_wf q" using assms(2) by (auto simp: mq_inv_def rings_ok_def)
  have "int (length m) \<le> msg_len q" if m: "m \<in> set (ring_msgs q)" for m
  proof -
    obtain j where j: "j < length (ring_msgs q)" "m = ring_msgs q ! j"
      using m unfolding in_set_conv_nth by blast
    let ?el = "q_elem q (msg_slot q j)"
    have "length (decode ?el) \<le> nat (of_le32 (take 4 ?el))"
      unfolding decode_def length_take by (rule min.cobounded2)
    with ring_elim(3,4) [OF wf j(1)] j(2) of_le32_nonneg [of "take 4 ?el"]
    show ?thesis by (simp only: le_nat_iff)
  qed
  moreover have "a \<in> set (mqueue_list w)" "distinct (mqueue_list w)"
    using inv assms(2) by (auto simp: mq_inv_def qlist_ok_def)
  moreover have "msg_count q \<le> msgs_per_queue q + 1" using wf by (simp add: ring_wf_def)
  ultimately show ?thesis using wf ring_elim(1) [OF wf] by blast
qed

text \<open>A process with the two tasks and a queue for two messages of at most three bytes at
  address 500.\<close>

definition queue_world :: world where
  "queue_world = link_qcb 500 (two_tasks\<lparr>queues := [500 \<mapsto> fresh_queue 2 3 0]\<rparr>)"

lemma create_queue_world: "msgQCreate 7 2 3 0 500 (Some (replicate 33 255)) two_tasks = Done (500, queue_world)"
  by (subst msgQCreate_succeeds)
    (simp_all add: vxw_codes alloc_size_def zero_queue_def s32_def u32_def queue_world_def two_tasks_def boot_world_def)

lemma queue_world_reach: "mq_reach queue_world"
proof (rule mq_reach.Step [OF mq_reach.Start mq_step.Create [OF _ _ _ create_queue_world]])
qed (simp_all add: two_tasks_def boot_world_def vxw_codes alloc_size_def zero_queue_def s32_def u32_def)

theorem msgQ_invariant_witness:
  "500 \<in> set (mqueue_list queue_world) \<and> ring_wf (fresh_queue 2 3 0)
     \<and> msg_count (fresh_queue 2 3 0) \<le> msgs_per_queue (fresh_queue 2 3 0) + 1"
  using msgQ_invariant [OF queue_world_reach, of 500 "fresh_queue 2 3 0"]
  by (simp add: queue_world_def link_qcb_def)

text \<open>\<^verbatim>\<open>msgQCreate\<close>: with memory for the control block and for \<open>n + 1\<close> elements it
  returns a new valid handle, and the queue is empty, well formed and accepts messages of
  up to \<open>len\<close> bytes; no other queue changes. Without memory it returns \<^verbatim>\<open>NULL\<close>, sets \<open>errno\<close>
  and changes nothing else.\<close>

theorem msgQCreate_creates:
  assumes "blk \<noteq> NULL" and "blk \<notin> dom (queues w)" and "0 \<le> n" and "0 < len"
    and "(HDR + len) * (n + 1) \<le> 2147483647"
    and "int (length mem) = alloc_size (zero_queue\<lparr>msgs_per_queue := n, msg_len := u32 len\<rparr>)"
  shows "(\<exists>w'. msgQCreate me n len opt blk (Some mem) w = Done (blk, w')
        \<and> mqueue_find_lock blk w' = Done True \<and> msgQNumMsgs blk w' = Done 0
        \<and> ring_wf (qcb w' blk) \<and> ring_msgs (qcb w' blk) = []
        \<and> msgs_per_queue (qcb w' blk) = n \<and> msg_len (qcb w' blk) = len
        \<and> (\<forall>a. a \<noteq> blk \<longrightarrow> queues w' a = queues w a \<and> mqueue_find_lock a w' = mqueue_find_lock a w))
     \<and> msgQCreate me n len opt blk None w = Done (NULL, set_errno me S_memLib_NOT_ENOUGH_MEMORY w)
     \<and> msgQCreate me n len opt NULL data w = Done (NULL, set_errno me S_memLib_NOT_ENOUGH_MEMORY w)"
proof -
  let ?w = "link_qcb blk (w\<lparr>queues := (queues w)(blk \<mapsto> fresh_queue n len opt)\<rparr>)"
  have q: "qcb ?w a = (if a = blk then fresh_queue n len opt else qcb w a)" for a
    by (simp add: qcb_def link_qcb_def)
  have lk: "queue_lock (fresh_queue n len opt) = 0" "msg_count (fresh_queue n len opt) = 0"
    by (simp_all add: fresh_queue_def zero_queue_def)
  have fl: "mqueue_find_lock blk ?w = Done True"
    by (simp add: mqueue_find_lock_def q lk) (simp add: link_qcb_def)
  moreover have "msgQNumMsgs blk ?w = Done 0" by (simp add: msgQNumMsgs_def fl q lk)
  moreover have "queues ?w a = queues w a \<and> mqueue_find_lock a ?w = mqueue_find_lock a w" if "a \<noteq> blk" for a
    using that by (simp add: mqueue_find_lock_def q) (simp add: link_qcb_def)
  moreover have "msgQCreate me n len opt blk (Some mem) w = Done (blk, ?w)"
    using assms(1,3-6) by (rule msgQCreate_succeeds)
  moreover have "msgQCreate me n len opt blk None w = Done (NULL, set_errno me S_memLib_NOT_ENOUGH_MEMORY w)"
    "msgQCreate me n len opt NULL data w = Done (NULL, set_errno me S_memLib_NOT_ENOUGH_MEMORY w)"
    by (simp_all add: msgQCreate_def data_extent_for_def Let_def)
  ultimately show ?thesis
    using fresh_queue_wf [OF assms(3-5), of opt] q [of blk] by auto
qed

theorem msgQCreate_creates_witness:
  "\<exists>w'. msgQCreate 7 2 3 0 500 (Some (replicate 33 255)) two_tasks = Done (500, w')
     \<and> msgQNumMsgs 500 w' = Done 0 \<and> ring_msgs (qcb w' 500) = []"
  using msgQCreate_creates [of 500 two_tasks 2 3 "replicate 33 255" 7 0 None]
  by (auto simp: two_tasks_def boot_world_def vxw_codes alloc_size_def zero_queue_def s32_def u32_def)

text \<open>Sending to a queue with room.\<close>

lemma post_msg_posts:
  assumes "ring_wf (qcb w a)" and "int (length bs) \<le> msg_len (qcb w a)"
    and "msg_count (qcb w a) \<le> msgs_per_queue (qcb w a)"
  shows "\<exists>q. post_msg a (Some bs) (int (length bs)) pri w = Done (upd_queue a (\<lambda>_. q) w) \<and> ring_wf q
     \<and> ring_msgs q = (if pri = MSG_PRI_URGENT then bs # ring_msgs (qcb w a) else ring_msgs (qcb w a) @ [bs])
     \<and> (pri = MSG_PRI_URGENT \<longrightarrow> urgent_msg_to (Some bs) (int (length bs)) (qcb w a) = Done q)
     \<and> (pri \<noteq> MSG_PRI_URGENT \<longrightarrow> send_msg_to (Some bs) (int (length bs)) (qcb w a) = Done q)"
  using send_msg_to_back [OF assms(1,2) ring_room [OF assms(1,3)]]
    urgent_msg_to_front [OF assms(1,2) ring_room [OF assms(1,3)]]
  by (auto simp: post_msg_def)

lemma send_return_eq: "send_return me e w = (if e = OK then Done (Sent OK, w) else Done (Sent ERROR, set_errno me e w))"
  by (simp add: send_return_def finish_def)

text \<open>Whether a queue takes a message at once.\<close>

definition accepts :: "v2pt_mqueue_t \<Rightarrow> int \<Rightarrow> bool" where
  "accepts q pri \<longleftrightarrow> msg_count q < msgs_per_queue q
     \<or> msg_count q = msgs_per_queue q
        \<and> (pri = MSG_PRI_URGENT \<or> msgs_per_queue q = 0 \<and> q_first_susp q \<noteq> [])"

lemma msgQSend_accepts:
  assumes "a \<in> set (mqueue_list w)" and "queue_lock (qcb w a) = 0" and wf: "ring_wf (qcb w a)"
    and len: "int (length bs) \<le> msg_len (qcb w a)" and acc: "accepts (qcb w a) pri"
  shows "\<exists>q. msgQSend me a (Some bs) (int (length bs)) wait pri now w
       = Done (Sent OK, upd_queue a (\<lambda>_. q) w) \<and> ring_wf q
     \<and> ring_msgs q = (if pri = MSG_PRI_URGENT then bs # ring_msgs (qcb w a) else ring_msgs (qcb w a) @ [bs])
     \<and> (\<exists>p. (if p then urgent_msg_to else send_msg_to) (Some bs) (int (length bs)) (qcb w a) = Done q)"
proof -
  let ?q = "qcb w a"
  let ?special = "msgs_per_queue ?q = 0 \<and> msg_count ?q = 0 \<and> q_first_susp ?q \<noteq> []"
  define p where "p = (if ?special then MSG_PRI_NORMAL else pri)"
  have room: "msg_count ?q \<le> msgs_per_queue ?q" using acc by (auto simp: accepts_def)
  have empty: "ring_msgs ?q = []" if ?special
    using that ring_elim(1) [OF wf] by simp
  obtain q where q: "post_msg a (Some bs) (int (length bs)) p w = Done (upd_queue a (\<lambda>_. q) w)" "ring_wf q"
    "ring_msgs q = (if p = MSG_PRI_URGENT then bs # ring_msgs ?q else ring_msgs ?q @ [bs])"
    "p = MSG_PRI_URGENT \<longrightarrow> urgent_msg_to (Some bs) (int (length bs)) ?q = Done q"
    "p \<noteq> MSG_PRI_URGENT \<longrightarrow> send_msg_to (Some bs) (int (length bs)) ?q = Done q"
    using post_msg_posts [OF wf len room] by blast
  have "msgQSend me a (Some bs) (int (length bs)) wait pri now w
      = obind (post_msg a (Some bs) (int (length bs)) p w) (send_return me OK)"
    using assms(1,2) len acc room
    by (auto simp: msgQSend_def mqueue_find_lock_def Let_def accepts_def p_def)
  moreover have "ring_msgs q = (if pri = MSG_PRI_URGENT then bs # ring_msgs ?q else ring_msgs ?q @ [bs])"
    using q(3) empty by (auto simp: p_def)
  moreover have "\<exists>b. (if b then urgent_msg_to else send_msg_to) (Some bs) (int (length bs)) ?q = Done q"
    using q(4,5) by (intro exI [of _ "p = MSG_PRI_URGENT"]) simp
  ultimately show ?thesis using q(1,2) by (intro exI [of _ q]) (simp add: send_return_eq)
qed

lemma msgQSend_waits:
  assumes "a \<in> set (mqueue_list w)" and "queue_lock (qcb w a) = 0" and "n \<le> msg_len (qcb w a)"
    and "\<not> accepts (qcb w a) pri"
  shows "msgQSend me a msg n wait pri now w = waitToSend me a msg n wait pri now w"
proof -
  have "\<not> msg_count (qcb w a) < msgs_per_queue (qcb w a)" using assms(4) by (simp add: accepts_def)
  then consider "msg_count (qcb w a) > msgs_per_queue (qcb w a)" | "msg_count (qcb w a) = msgs_per_queue (qcb w a)"
    by linarith
  then show ?thesis
    using assms by cases (auto simp: msgQSend_def mqueue_find_lock_def Let_def accepts_def)
qed

lemma msgQSend_errors:
  "a \<notin> set (mqueue_list w) \<Longrightarrow>
     msgQSend me a msg n wait pri now w = Done (Sent ERROR, set_errno me S_objLib_OBJ_ID_ERROR w)"
  "a \<in> set (mqueue_list w) \<Longrightarrow> queue_lock (qcb w a) = 0 \<Longrightarrow> n > msg_len (qcb w a) \<Longrightarrow>
     msgQSend me a msg n wait pri now w = Done (Sent ERROR, set_errno me S_msgQLib_INVALID_MSG_LENGTH w)"
  by (simp_all add: msgQSend_def mqueue_find_lock_def send_return_eq Let_def)

text \<open>C10. \<^verbatim>\<open>msgQSend\<close> on every branch. A stale handle or a message longer than the queue
  allows is an error and changes nothing but \<open>errno\<close>. A queue with room takes a normal
  message at the back and an urgent one at the front, and a queue that is full for normal
  messages still takes one urgent message. If there is no room, the call fails at once
  with \<open>OBJ_UNAVAILABLE\<close> if it must not wait, and otherwise the task enters the list of
  waiting senders.\<close>

theorem msgQSend_spec:
  assumes "queue_lock (qcb w a) = 0" and "ring_wf (qcb w a)" and "q = qcb w a"
    and "n = int (length bs)"
  shows "\<exists>q' fr. msgQSend me a (Some bs) n wait pri now w =
      (if a \<notin> set (mqueue_list w) then Done (Sent ERROR, set_errno me S_objLib_OBJ_ID_ERROR w)
       else if n > msg_len q then Done (Sent ERROR, set_errno me S_msgQLib_INVALID_MSG_LENGTH w)
       else if accepts q pri then Done (Sent OK, upd_queue a (\<lambda>_. q') w)
       else if wait = NO_WAIT then Done (Sent ERROR, set_errno me S_objLib_OBJ_UNAVAILABLE w)
       else Done (SAtPoll fr, link_susp_task (QueueWriteSusp a) (my_task me w) w))
     \<and> (accepts q pri \<and> n \<le> msg_len q \<and> a \<in> set (mqueue_list w) \<longrightarrow> ring_wf q'
        \<and> ring_msgs q' = (if pri = MSG_PRI_URGENT then bs # ring_msgs q else ring_msgs q @ [bs]))"
proof (cases "a \<in> set (mqueue_list w) \<and> n \<le> msg_len q")
  case False
  then show ?thesis using msgQSend_errors [where me = me and msg = "Some bs"] assms
    by (cases "a \<in> set (mqueue_list w)") (simp_all add: not_le)
next
  case valid: True
  show ?thesis
  proof (cases "accepts q pri")
    case True
    obtain q' where "msgQSend me a (Some bs) n wait pri now w = Done (Sent OK, upd_queue a (\<lambda>_. q') w)"
      "ring_wf q'" "ring_msgs q' = (if pri = MSG_PRI_URGENT then bs # ring_msgs q else ring_msgs q @ [bs])"
      using msgQSend_accepts [of a w bs pri me wait now] valid True assms by metis
    then show ?thesis using valid True by (intro exI [of _ q'] exI) (simp add: not_less)
  next
    case False
    then show ?thesis using valid msgQSend_waits [of a w n pri me "Some bs" wait now] assms
      by (simp add: not_less waitToSend_def send_return_eq Let_def)
  qed
qed

lemma queue_world_simps [simp]:
  "qcb queue_world 500 = fresh_queue 2 3 0" "mqueue_list queue_world = [500]"
  "dom (queues queue_world) = {500}" "my_task 7 queue_world = 100" "my_task 8 queue_world = 200"
  "my_task me (w\<lparr>queues := m\<rparr>) = my_task me w" "my_task me (link_qcb a w) = my_task me w"
proof -
  show *: "my_task me (w\<lparr>queues := m\<rparr>) = my_task me w" "my_task me (link_qcb a w) = my_task me w" for me m a w
    by (auto intro!: my_task_cong simp: tcb_def link_qcb_def)
  show "qcb queue_world 500 = fresh_queue 2 3 0" "mqueue_list queue_world = [500]"
    "dom (queues queue_world) = {500}"
    by (simp_all add: queue_world_def qcb_def link_qcb_def two_tasks_def boot_world_def)
  show "my_task 7 queue_world = 100" "my_task 8 queue_world = 200"
    unfolding queue_world_def * by (simp_all add: my_task_def demo_simps)
qed

lemma fresh_queue_demo:
  "queue_lock (fresh_queue n len opt) = 0" "qfull_lock (fresh_queue n len opt) = 0"
  "msg_count (fresh_queue n len opt) = 0" "q_first_susp (fresh_queue n len opt) = []"
  "q_first_write_susp (fresh_queue n len opt) = []" "\<not> q_killed (fresh_queue n len opt)"
  "ring_wf (fresh_queue 2 3 0)" "ring_msgs (fresh_queue 2 3 0) = []"
  by (simp_all add: fresh_queue_def zero_queue_def q_killed_def vxw_codes)
    (simp_all add: fresh_queue_wf [of 2 3 0, unfolded fresh_queue_def zero_queue_def vxw_codes, simplified])

theorem msgQSend_spec_witness:
  "\<exists>q'. msgQSend 7 500 (Some [1, 2]) 2 0 0 (0, 0) queue_world = Done (Sent OK, upd_queue 500 (\<lambda>_. q') queue_world)
     \<and> ring_wf q' \<and> ring_msgs q' = [[1, 2]]"
proof -
  have acc: "accepts (qcb queue_world 500) 0" "msg_len (qcb queue_world 500) = 3"
    by (simp_all add: accepts_def fresh_queue_def zero_queue_def)
  have "queue_lock (qcb queue_world 500) = 0" "ring_wf (qcb queue_world 500)" using fresh_queue_demo by simp_all
  from msgQSend_spec [OF this refl refl, where bs = "[1, 2]" and me = 7 and wait = 0 and pri = 0 and now = "(0, 0)"] obtain q' where
    "msgQSend 7 500 (Some [1, 2]) 2 0 0 (0, 0) queue_world = Done (Sent OK, upd_queue 500 (\<lambda>_. q') queue_world)"
    "ring_wf q'" "ring_msgs q' = ring_msgs (qcb queue_world 500) @ [[1, 2]]"
    using acc by (auto simp: MSG_PRI_URGENT_def simp del: queue_world_simps(1))
  then show ?thesis using fresh_queue_demo by (intro exI [of _ q']) simp
qed

text \<open>Receiving.\<close>

lemma qcb_link [simp]:
  "a \<in> dom (queues w) \<Longrightarrow> t \<noteq> NULL \<Longrightarrow> qcb (link_susp_task (QueueSusp a) t w) a
     = qcb w a\<lparr>q_first_susp := takeWhile (\<lambda>x. x \<noteq> t) (q_first_susp (qcb w a)) @ [t]\<rparr>"
  "a \<in> dom (queues w) \<Longrightarrow> t \<noteq> NULL \<Longrightarrow> qcb (unlink_susp_task (QueueSusp a) t w) a
     = qcb w a\<lparr>q_first_susp := remove1 t (q_first_susp (qcb w a))\<rparr>"
  "a \<in> dom (queues w) \<Longrightarrow> t \<noteq> NULL \<Longrightarrow> qcb (link_susp_task (QueueWriteSusp a) t w) a
     = qcb w a\<lparr>q_first_write_susp := takeWhile (\<lambda>x. x \<noteq> t) (q_first_write_susp (qcb w a)) @ [t]\<rparr>"
  "a \<in> dom (queues w) \<Longrightarrow> t \<noteq> NULL \<Longrightarrow> qcb (unlink_susp_task (QueueWriteSusp a) t w) a
     = qcb w a\<lparr>q_first_write_susp := remove1 t (q_first_write_susp (qcb w a))\<rparr>"
  by (simp_all add: link_susp_task_def unlink_susp_task_def remove1_idem del: domIff)

lemma recv_exit_fetch:
  assumes "a \<in> dom (queues w)" and "t \<noteq> NULL" and "ring_wf (qcb w a)" and "\<not> q_killed (qcb w a)"
    and "ring_msgs (qcb w a) = m # ms" and "qfull_lock (qcb w a) = 0"
    and "rf_queue fr = a" and "rf_task fr = t" and "rf_msgbuf fr" and "rf_retcode fr \<noteq> ETIMEDOUT"
  shows "\<exists>q'. recv_exit me fr w = Done (Received (s32 (int (length m))) m,
        upd_queue a (\<lambda>_. q') (unlink_susp_task (QueueSusp a) t w))
     \<and> ring_wf q' \<and> ring_msgs q' = ms \<and> q_first_susp q' = remove1 t (q_first_susp (qcb w a))
     \<and> q_first_write_susp q' = q_first_write_susp (qcb w a) \<and> queue_lock q' = queue_lock (qcb w a)"
proof -
  let ?w1 = "unlink_susp_task (QueueSusp a) t w"
  have wf: "ring_wf (qcb ?w1 a)" "ring_msgs (qcb ?w1 a) = m # ms" using assms(3,5) by simp_all
  obtain q' where q': "fetch_msg_from True (qcb ?w1 a) = Done (m, int (length m), q')" "ring_wf q'" "ring_msgs q' = ms"
    using fetch_msg_from_ring [OF wf, of True] by auto
  note f = ring_op_fields(3) [OF q'(1)]
  have "recv_exit me fr w = Done (Received (s32 (int (length m))) m, upd_queue a (\<lambda>_. q') ?w1)"
    using assms(4,6-10) q'(1) f by (simp add: recv_exit_def Let_def)
  then show ?thesis using q'(2,3) f assms(1,2) by (intro exI [of _ q']) (simp del: domIff)
qed

text \<open>The frame of a call of \<^verbatim>\<open>msgQReceive\<close> that starts to wait.\<close>

definition recv_frame_of :: "addr \<Rightarrow> addr \<Rightarrow> int \<Rightarrow> timeval \<Rightarrow> recv_frame" where
  "recv_frame_of a t wait now = \<lparr>rf_queue = a, rf_task = t, rf_msgbuf = True, rf_wait = wait,
     rf_timeout = (if wait = NO_WAIT then Some (fst now, snd now * 1000)
       else if wait = WAIT_FOREVER then None else Some (q_deadline wait now)), rf_retcode = 0\<rparr>"

lemma recv_frame_of_simps [simp]:
  "rf_queue (recv_frame_of a t wait now) = a" "rf_task (recv_frame_of a t wait now) = t"
  "rf_msgbuf (recv_frame_of a t wait now)" "rf_wait (recv_frame_of a t wait now) = wait"
  "rf_retcode (recv_frame_of a t wait now) = 0"
  "rf_timeout (recv_frame_of a t wait now) = None \<longleftrightarrow> wait = WAIT_FOREVER"
  by (simp_all add: recv_frame_of_def vxw_codes)

lemma msgQReceive_starts:
  assumes "a \<in> set (mqueue_list w)" and "queue_lock (qcb w a) = 0" and "msg_len (qcb w a) \<le> buflen"
    and "qfull_lock (qcb w a) = 0" and "my_task me w = t"
  shows "msgQReceive me a True buflen wait now w =
     (let w1 = link_susp_task (QueueSusp a) t w
      in recv_poll me (recv_frame_of a t wait now) (waiting_on_q_msg me a w1) w1)"
  using assms by (simp add: msgQReceive_def mqueue_find_lock_def Let_def recv_start_def recv_frame_of_def)

lemma receive_alone:
  assumes "a \<in> dom (queues w)" and "my_task me w = t" and "t \<noteq> NULL" and "q_first_susp (qcb w a) = []"
    and "w1 = link_susp_task (QueueSusp a) t w" and "\<not> q_killed (qcb w a)"
  shows "waiting_on_q_msg me a w1 = (if msg_count (qcb w a) > 0 then Over else Still)"
proof -
  have "signal_for_my_task me (QueueSusp a) p w1" for p
    using assms by (intro signal_single) (simp del: domIff)
  then show ?thesis using assms by (simp add: waiting_on_q_msg_def msg_loop_def Let_def del: domIff qcb_link)
qed

lemma msgQReceive_fetches_frame:
  assumes "a \<in> set (mqueue_list w)" and "a \<in> dom (queues w)" and "queue_lock (qcb w a) = 0"
    and "qfull_lock (qcb w a) = 0" and "msg_len (qcb w a) \<le> buflen" and "ring_wf (qcb w a)"
    and "\<not> q_killed (qcb w a)" and "q_first_susp (qcb w a) = []" and "my_task me w = t" and "t \<noteq> NULL"
    and "ring_msgs (qcb w a) = m # ms"
  shows "\<exists>w'. msgQReceive me a True buflen wait now w = Done (Received (s32 (int (length m))) m, w')
     \<and> ring_wf (qcb w' a) \<and> ring_msgs (qcb w' a) = ms \<and> q_first_susp (qcb w' a) = []
     \<and> (\<forall>b. b \<noteq> a \<longrightarrow> queues w' b = queues w b) \<and> mqueue_list w' = mqueue_list w \<and> locker w' = locker w
     \<and> a \<in> dom (queues w') \<and> q_first_write_susp (qcb w' a) = q_first_write_susp (qcb w a)
     \<and> queue_lock (qcb w' a) = 0"
proof -
  let ?w1 = "link_susp_task (QueueSusp a) t w"
  let ?fr = "recv_frame_of a t wait now\<lparr>rf_retcode := 0\<rparr>"
  have dom: "a \<in> dom (queues ?w1)" using assms(2) by (simp del: domIff)
  have poll: "waiting_on_q_msg me a ?w1 = Over"
    using receive_alone [OF assms(2,9,10,8) refl assms(7)] ring_elim(1) [OF assms(6)] assms(11) by simp
  obtain q' where q': "recv_exit me ?fr ?w1 = Done (Received (s32 (int (length m))) m,
        upd_queue a (\<lambda>_. q') (unlink_susp_task (QueueSusp a) t ?w1))"
    "ring_wf q'" "ring_msgs q' = ms" "q_first_susp q' = remove1 t (q_first_susp (qcb ?w1 a))"
    "q_first_write_susp q' = q_first_write_susp (qcb ?w1 a)" "queue_lock q' = queue_lock (qcb ?w1 a)"
    using recv_exit_fetch [OF dom assms(10), of m ms ?fr me] assms(4,6,7,11) by (auto simp: ETIMEDOUT_def simp del: domIff qcb_link)
  let ?w2 = "upd_queue a (\<lambda>_. q') (unlink_susp_task (QueueSusp a) t ?w1)"
  have "msgQReceive me a True buflen wait now w = Done (Received (s32 (int (length m))) m, ?w2)"
    using msgQReceive_starts [OF assms(1,3,5,4,9)] poll q'(1) by (simp add: recv_poll_def)
  moreover have "qcb ?w2 a = q'" using dom by (simp del: domIff qcb_link)
  moreover have "queues ?w2 b = queues w b" if "b \<noteq> a" for b
    using that by (simp add: upd_queue_def link_susp_task_def unlink_susp_task_def)
  moreover have "a \<in> dom (queues ?w2)" using dom by (simp del: domIff)
  moreover have "mqueue_list ?w2 = mqueue_list w" "locker ?w2 = locker w"
    by (simp_all add: link_susp_task_def unlink_susp_task_def)
  ultimately show ?thesis using q'(2-6) assms(2,3,8,10) by (intro exI [of _ ?w2]) (simp del: domIff)
qed

lemma upd_queue_comp: "upd_queue a f (upd_queue a g w) = upd_queue a (\<lambda>x. f (g x)) w"
  by (cases "queues w a") (simp_all add: upd_queue_def)

lemma q_killed_first_susp [simp]: "q_killed (q\<lparr>q_first_susp := xs\<rparr>) = q_killed q"
  by (simp add: q_killed_def)

lemma takeWhile_all: "t \<notin> set xs \<Longrightarrow> takeWhile (\<lambda>x. x \<noteq> t) xs = xs"
  by (auto simp: takeWhile_eq_all_conv)

lemma msgQReceive_polls:
  assumes "a \<in> set (mqueue_list w)" and "a \<in> dom (queues w)" and "queue_lock (qcb w a) = 0" and "msg_len (qcb w a) \<le> buflen"
    and "my_task me w = t" and "t \<noteq> NULL"
    and "msgs_per_queue (qcb w a) = 0 \<longrightarrow> q_first_write_susp (qcb w a) = [] \<or> qfull_lock (qcb w a) = 0"
  shows "msgQReceive me a buf buflen wait now w =
     (let w1 = link_susp_task (QueueSusp a) t w
      in recv_poll me (recv_frame_of a t wait now\<lparr>rf_msgbuf := buf\<rparr>) (waiting_on_q_msg me a w1) w1)"
  using assms by (auto simp: msgQReceive_def mqueue_find_lock_def Let_def recv_start_def recv_frame_of_def simp del: domIff)

lemma wake_times_out:
  assumes "a \<in> dom (queues w)" and "queue_lock (qcb w a) = 0" and "waiting_on_q_msg me a w = Still"
    and "\<not> q_killed (qcb w a)" and "rf_queue fr = a" and "rf_timeout fr \<noteq> None" and "rf_task fr = t" and "t \<noteq> NULL"
    and "e = (if rf_wait fr = NO_WAIT then S_objLib_OBJ_UNAVAILABLE else S_objLib_OBJ_TIMEOUT)"
  shows "msgQReceive_wake me ETIMEDOUT fr w = Done (Received ERROR [], set_errno me e (unlink_susp_task (QueueSusp a) t w))"
  using assms
  by (auto simp: msgQReceive_wake_def Let_def recv_poll_def recv_exit_def recv_return_def)

text \<open>C11. \<^verbatim>\<open>msgQReceive\<close> by a task, on every branch, for a well-formed queue whose \<open>queue_lock\<close>
  is free. A stale handle or a buffer smaller than the largest message is an error. If senders wait at a
  queue of length zero and \<open>qfull_lock\<close> is locked, the call stops there with \<open>queue_lock\<close>. If the
  queue is being deleted, the call leaves the list and then fails with \<open>OBJ_DELETED\<close>, after it has
  told the deleting call if it was the last. If there is no message it waits, and when its time is
  over it fails with \<open>OBJ_UNAVAILABLE\<close> (\<open>NO_WAIT\<close>) or \<open>OBJ_TIMEOUT\<close>, with the queue as it was before
  the call. If there is a message for another task it sleeps for a tick; a task that is alone is always
  the one. Otherwise it takes the oldest message out of the queue and returns its bytes and its
  length, or nothing if it has no buffer; but if a sender waits for the room and \<open>qfull_lock\<close> is locked
  it stops with the message in hand. No other queue changes.\<close>

theorem msgQReceive_spec:
  assumes "q = qcb w a" and "a \<in> dom (queues w)" and "queue_lock q = 0" and "ring_wf q" and "my_task me w = t"
    and "t \<noteq> NULL" and "t \<notin> set (q_first_susp q)" and "w1 = link_susp_task (QueueSusp a) t w"
    and "w2 = unlink_susp_task (QueueSusp a) t w1" and "bs = (if buf then hd (ring_msgs q) else [])"
  shows "\<exists>fr q'. rf_queue fr = a \<and> rf_task fr = t \<and> rf_wait fr = wait \<and> rf_msgbuf fr = buf
     \<and> msgQReceive me a buf buflen wait now w =
      (if a \<notin> set (mqueue_list w) then Done (Received ERROR [], set_errno me S_objLib_OBJ_ID_ERROR w)
       else if buflen < msg_len q then Done (Received ERROR [], set_errno me S_msgQLib_INVALID_MSG_LENGTH w)
       else if msgs_per_queue q = 0 \<and> q_first_write_susp q \<noteq> [] \<and> qfull_lock q \<noteq> 0
         then Done (RAtSpace fr, upd_queue a (\<lambda>q. q\<lparr>queue_lock := me\<rparr>) w1)
       else if q_killed q then Done (RAtKilled fr, upd_queue a (\<lambda>q. q\<lparr>queue_lock := me\<rparr>) w2)
       else if ring_msgs q = [] then Done (RAtCond fr, w1)
       else if \<not> signal_for_my_task me (QueueSusp a) (order q) w1 then Done (RAtDelay fr, taskDelay_begin me w1)
       else if announces_space q' \<and> qfull_lock q \<noteq> 0
         then Done (RAtFull fr (int (length bs)) bs, upd_queue a (\<lambda>_. q'\<lparr>queue_lock := me\<rparr>) w2)
       else Done (Received (s32 (int (length bs))) bs, upd_queue a (\<lambda>_. q') w2))
     \<and> (ring_msgs q \<noteq> [] \<longrightarrow> ring_wf q' \<and> ring_msgs q' = tl (ring_msgs q) \<and> q_first_susp q' = q_first_susp q
          \<and> q_first_write_susp q' = q_first_write_susp q)
     \<and> qcb w1 a = q\<lparr>q_first_susp := q_first_susp q @ [t]\<rparr> \<and> qcb w2 a = q
     \<and> (\<forall>b. b \<noteq> a \<longrightarrow> queues w1 b = queues w b \<and> queues w2 b = queues w b)
     \<and> (q_first_susp q = [] \<longrightarrow> signal_for_my_task me (QueueSusp a) (order q) w1)
     \<and> (q_killed q \<longrightarrow> (\<forall>l. msgQReceive_killed me fr (upd_queue a (\<lambda>q. q\<lparr>queue_lock := l\<rparr>) w2) =
          (if q_first_susp q = [] \<and> q_first_write_susp q = [] \<and> qdlet_lock q \<noteq> 0 then Blocked
           else Done (Received ERROR [], set_errno me S_objLib_OBJ_DELETED (upd_queue a (\<lambda>q. q\<lparr>queue_lock := 0\<rparr>) w2)))))
     \<and> (msgQReceive me a buf buflen wait now w = Done (RAtCond fr, w1) \<and> wait \<noteq> WAIT_FOREVER \<longrightarrow>
          msgQReceive_wake me ETIMEDOUT fr w1 = Done (Received ERROR [],
            set_errno me (if wait = NO_WAIT then S_objLib_OBJ_UNAVAILABLE else S_objLib_OBJ_TIMEOUT) w2))"
proof -
  let ?F = "recv_frame_of a t wait now\<lparr>rf_msgbuf := buf\<rparr>"
  let ?S = "\<lparr>rf_queue = a, rf_task = t, rf_msgbuf = buf, rf_wait = wait, rf_timeout = None, rf_retcode = 0\<rparr>"
  have F0: "?F\<lparr>rf_retcode := 0\<rparr> = ?F" by (simp add: recv_frame_of_def)
  have q1: "qcb w1 a = q\<lparr>q_first_susp := q_first_susp q @ [t]\<rparr>"
    using assms(1,2,6-8) by (simp add: takeWhile_all del: domIff)
  have dom1: "a \<in> dom (queues w1)" using assms(2,8) by (simp del: domIff)
  have q2: "qcb w2 a = q" using dom1 q1 assms(6,7,9) by (simp add: remove1_append del: domIff)
  have dom2: "a \<in> dom (queues w2)" using dom1 assms(9) by (simp del: domIff)
  have others: "queues w1 b = queues w b \<and> queues w2 b = queues w b" if "b \<noteq> a" for b
    using that assms(8,9) by (simp add: upd_queue_def link_susp_task_def unlink_susp_task_def)
  have empty: "0 < msg_count q \<longleftrightarrow> ring_msgs q \<noteq> []" using ring_elim(1) [OF assms(4)] by simp
  have poll: "waiting_on_q_msg me a w1 = (if q_killed q then Over else if ring_msgs q = [] then Still
      else if signal_for_my_task me (QueueSusp a) (order q) w1 then Over else NotOurs)"
    using q1 empty by (simp add: waiting_on_q_msg_def msg_loop_def Let_def)
  have alive: "queues (upd_queue a f w2) a \<noteq> None" for f using dom2 by (auto simp: upd_queue_def)
  have killed: "msgQReceive_killed me fr (upd_queue a (\<lambda>q. q\<lparr>queue_lock := l\<rparr>) w2) =
      (if q_first_susp q = [] \<and> q_first_write_susp q = [] \<and> qdlet_lock q \<noteq> 0 then Blocked
       else Done (Received ERROR [], set_errno me S_objLib_OBJ_DELETED (upd_queue a (\<lambda>q. q\<lparr>queue_lock := 0\<rparr>) w2)))"
    if "rf_queue fr = a" for fr l
    using that alive [of "queue_lock_update (\<lambda>_. l)"] dom2 q2
    by (cases "queues (upd_queue a (queue_lock_update (\<lambda>_. l)) w2) a")
      (simp_all add: msgQReceive_killed_def notify_if_delete_complete_def recv_return_def upd_queue_comp del: domIff)
  have late: "msgQReceive_wake me ETIMEDOUT ?F w1 = Done (Received ERROR [],
      set_errno me (if wait = NO_WAIT then S_objLib_OBJ_UNAVAILABLE else S_objLib_OBJ_TIMEOUT) w2)"
    if "\<not> q_killed q" "ring_msgs q = []" "wait \<noteq> WAIT_FOREVER"
  proof -
    let ?e = "if wait = NO_WAIT then S_objLib_OBJ_UNAVAILABLE else S_objLib_OBJ_TIMEOUT"
    have "queue_lock (qcb w1 a) = 0" "waiting_on_q_msg me a w1 = Still" "\<not> q_killed (qcb w1 a)"
      using q1 assms(3) poll that by simp_all
    with dom1 show ?thesis unfolding assms(9)
      by (rule wake_times_out) (use that assms(6) in simp_all)
  qed
  obtain q' where q': "ring_msgs q \<noteq> [] \<longrightarrow> fetch_msg_from buf q = Done (bs, int (length bs), q')
      \<and> ring_wf q' \<and> ring_msgs q' = tl (ring_msgs q)"
    using fetch_msg_from_ring [OF assms(4), of "hd (ring_msgs q)" "tl (ring_msgs q)" buf] assms(10)
    by (cases "ring_msgs q") auto
  have fields: "q_first_susp q' = q_first_susp q" "q_first_write_susp q' = q_first_write_susp q" "qfull_lock q' = qfull_lock q"
    if "ring_msgs q \<noteq> []" using that q' ring_op_fields(3) by blast+
  have exit: "recv_exit me ?F w1 = (if announces_space q' \<and> qfull_lock q \<noteq> 0
      then Done (RAtFull ?F (int (length bs)) bs, upd_queue a (\<lambda>_. q'\<lparr>queue_lock := me\<rparr>) w2)
      else Done (Received (s32 (int (length bs))) bs, upd_queue a (\<lambda>_. q') w2))"
    if "\<not> q_killed q" "ring_msgs q \<noteq> []"
    using that q' q1 q2 fields by (simp add: recv_exit_def Let_def ETIMEDOUT_def flip: assms(9))
  have exit_killed: "recv_exit me ?F w1 = Done (RAtKilled ?F, upd_queue a (\<lambda>q. q\<lparr>queue_lock := me\<rparr>) w2)" if "q_killed q"
    using that q1 q2 by (simp add: recv_exit_def Let_def flip: assms(9))
  let ?space = "a \<in> set (mqueue_list w) \<and> \<not> buflen < msg_len q
    \<and> msgs_per_queue q = 0 \<and> q_first_write_susp q \<noteq> [] \<and> qfull_lock q \<noteq> 0"
  define fr where "fr = (if ?space then ?S else ?F)"
  have fr: "rf_queue fr = a" "rf_task fr = t" "rf_wait fr = wait" "rf_msgbuf fr = buf" by (simp_all add: fr_def)
  have call: "msgQReceive me a buf buflen wait now w =
      (if a \<notin> set (mqueue_list w) then Done (Received ERROR [], set_errno me S_objLib_OBJ_ID_ERROR w)
       else if buflen < msg_len q then Done (Received ERROR [], set_errno me S_msgQLib_INVALID_MSG_LENGTH w)
       else if msgs_per_queue q = 0 \<and> q_first_write_susp q \<noteq> [] \<and> qfull_lock q \<noteq> 0
         then Done (RAtSpace fr, upd_queue a (\<lambda>q. q\<lparr>queue_lock := me\<rparr>) w1)
       else if q_killed q then Done (RAtKilled fr, upd_queue a (\<lambda>q. q\<lparr>queue_lock := me\<rparr>) w2)
       else if ring_msgs q = [] then Done (RAtCond fr, w1)
       else if \<not> signal_for_my_task me (QueueSusp a) (order q) w1 then Done (RAtDelay fr, taskDelay_begin me w1)
       else if announces_space q' \<and> qfull_lock q \<noteq> 0
         then Done (RAtFull fr (int (length bs)) bs, upd_queue a (\<lambda>_. q'\<lparr>queue_lock := me\<rparr>) w2)
       else Done (Received (s32 (int (length bs))) bs, upd_queue a (\<lambda>_. q') w2))"
  proof (cases "a \<in> set (mqueue_list w) \<and> \<not> buflen < msg_len q \<and> \<not> ?space")
    case True
    then have "msgQReceive me a buf buflen wait now w = recv_poll me fr (waiting_on_q_msg me a w1) w1"
      using msgQReceive_polls [of a w buflen me t buf wait now] assms(1-3,5,6,8) by (auto simp: Let_def fr_def simp del: domIff)
    moreover have "fr = ?F" using True by (auto simp: fr_def)
    ultimately show ?thesis
      using True exit exit_killed by (auto simp: poll recv_poll_def F0 ETIMEDOUT_def)
  next
    case False
    then show ?thesis
      using assms(1-3,5,8) q1 by (auto simp: msgQReceive_def mqueue_find_lock_def recv_return_def Let_def fr_def)
  qed
  have "msgQReceive_wake me ETIMEDOUT fr w1 = Done (Received ERROR [],
      set_errno me (if wait = NO_WAIT then S_objLib_OBJ_UNAVAILABLE else S_objLib_OBJ_TIMEOUT) w2)"
    if "msgQReceive me a buf buflen wait now w = Done (RAtCond fr, w1)" "wait \<noteq> WAIT_FOREVER"
  proof -
    have n: "\<not> ?space" "\<not> q_killed q" "ring_msgs q = []" using that(1) call by (auto split: if_split_asm)
    have "fr = ?F" unfolding fr_def if_not_P [OF n(1)] by (rule refl)
    with late [OF n(2,3) that(2)] show ?thesis by (simp only:)
  qed
  moreover have "signal_for_my_task me (QueueSusp a) (order q) w1" if "q_first_susp q = []"
    using that q1 assms(5) by (intro signal_single) (simp add: assms(8))
  ultimately show ?thesis
    using call fr q' fields killed [OF fr(1)] q1 q2 others by (intro exI [of _ fr] exI [of _ q']) blast
qed

theorem msgQReceive_spec_witness:
  "\<exists>fr w1 w2. msgQReceive 7 500 True 3 0 (0, 0) queue_world = Done (RAtCond fr, w1)
     \<and> q_first_susp (qcb w1 500) = [100]
     \<and> msgQReceive_wake 7 ETIMEDOUT fr w1 = Done (Received ERROR [], w2)
     \<and> errno w2 7 = S_objLib_OBJ_UNAVAILABLE \<and> qcb w2 500 = qcb queue_world 500"
proof -
  let ?w1 = "link_susp_task (QueueSusp 500) 100 queue_world"
  let ?w2 = "unlink_susp_task (QueueSusp 500) 100 ?w1"
  have d: "500 \<in> dom (queues queue_world)" by simp
  have l: "msg_len (fresh_queue 2 3 0) = 3" "msgs_per_queue (fresh_queue 2 3 0) = 2" by (simp_all add: fresh_queue_def)
  from msgQReceive_spec [OF refl d _ _ queue_world_simps(4) _ _ refl refl refl, where buf = True and buflen = 3
      and wait = 0 and now = "(0, 0)"] obtain fr where
    "msgQReceive 7 500 True 3 0 (0, 0) queue_world = Done (RAtCond fr, ?w1)"
    "qcb ?w1 500 = (qcb queue_world 500)\<lparr>q_first_susp := [100]\<rparr>" "qcb ?w2 500 = qcb queue_world 500"
    "msgQReceive_wake 7 ETIMEDOUT fr ?w1 = Done (Received ERROR [], set_errno 7 S_objLib_OBJ_UNAVAILABLE ?w2)"
    using fresh_queue_demo l by (auto simp: NO_WAIT_def WAIT_FOREVER_def)
  then show ?thesis by (intro exI [of _ fr] exI [of _ ?w1] exI [of _ "set_errno 7 S_objLib_OBJ_UNAVAILABLE ?w2"]) simp
qed

text \<open>C30. The two polling functions of the message queues compute the time left in
  microseconds to see whether a time limit has passed, the semaphores compare seconds and
  nanoseconds with \<^verbatim>\<open>time_expired\<close>. For every limit in whole microseconds, which all the
  limits are, both agree.\<close>

theorem q_expired_is_time_expired:
  assumes "snd timeout = 1000 * u" and "0 \<le> u" and "u \<le> 1000000" and "0 \<le> snd now" and "snd now < 1000000"
    and "0 \<le> fst timeout" and "fst timeout < 2 ^ 40" and "0 \<le> fst now"
  shows "q_expired (Some timeout) now \<longleftrightarrow> time_expired timeout now"
proof -
  obtain ts where ts: "timeout = (ts, 1000 * u)" using assms(1) by (cases timeout) simp
  obtain s v where now: "now = (s, v)" by (cases now)
  have wrap: "x mod 2 ^ 64 = (0::int) \<longleftrightarrow> x = 0" if "0 \<le> x" "x < 2 ^ 64" for x :: int
    using that by (simp add: mod_pos_pos_trivial)
  have d: "(1000 * u - v * 1000) sdiv 1000 = u - v" if "v < u"
  proof -
    have "(1000 * u - v * 1000) sdiv 1000 = (1000 * (u - v)) div 1000"
      using that by (subst sdiv_nonneg) (simp_all add: algebra_simps)
    then show ?thesis by simp
  qed
  have d': "(1000 * u + 1000000000 - v * 1000) sdiv 1000 = u + 1000000 - v"
  proof -
    have "(1000 * u + 1000000000 - v * 1000) sdiv 1000 = (1000 * (u + 1000000 - v)) div 1000"
      using assms(2,5) now by (subst sdiv_nonneg) (simp_all add: algebra_simps)
    then show ?thesis by simp
  qed
  show ?thesis
  proof (cases "v < u")
    case True
    have "(u - v + (ts - s) * 1000000) mod 2 ^ 64 \<noteq> 0" if "s \<le> ts"
      using that True assms ts now by (subst wrap) auto
    then show ?thesis using True d by (auto simp: q_expired_def q_remaining_def time_expired_def ts now)
  next
    case False
    have "(u + 1000000 - v + (ts - 1 - s) * 1000000) mod 2 ^ 64 \<noteq> 0" if "s \<le> ts - 1"
      using that False assms ts now by (subst wrap) auto
    then show ?thesis using False d' by (auto simp: q_expired_def q_remaining_def time_expired_def ts now)
  qed
qed

theorem q_expired_is_time_expired_witness:
  "q_expired (Some (5, 3000)) (5, 3) \<longleftrightarrow> time_expired (5, 3000) (5, 3)"
  by (rule q_expired_is_time_expired [where u = 3]) simp_all

text \<open>The ring of a queue that is full, urgent element included: the next element to be
  written is the one at the head.\<close>

lemma send_msg_to_full:
  assumes "ring_wf q" and "length (ring_msgs q) = slots q" and "int (length bs) \<le> msg_len q"
    and "msgs_per_queue q < 2147483646"
  shows "\<exists>q'. send_msg_to (Some bs) (int (length bs)) q = Done q' \<and> msg_count q' = msgs_per_queue q + 2
     \<and> decode (q_elem q' (head_slot q)) = bs \<and> queue_head q' = queue_head q"
proof -
  note g = conjunct1 [OF ring_wf_head [OF assms(1)]] and h = conjunct2 [OF ring_wf_head [OF assms(1)]]
  have "msg_slot q (length (ring_msgs q)) = head_slot q" using assms(2) h by (simp add: msg_slot_def)
  then have tail: "queue_tail q = vmsg_len q * int (head_slot q)" using ring_elim(5) [OF assms(1)] by simp
  obtain mem where mem: "put_msg (queue_tail q) (Some bs) (int (length bs)) (extent q) = Done mem"
    "decode (elem (nat (vmsg_len q)) (head_slot q) mem) = bs"
    using put_msg_slot [OF g h assms(3)] unfolding tail by blast
  have "s32 (msg_count q + 1) = msgs_per_queue q + 2"
    using g assms(2,4) ring_elim(1) [OF assms(1)]
    by (subst s32_id) (auto simp: ring_geometry_def slots_def in_s32_def)
  then show ?thesis using mem by (simp add: send_msg_to_def Let_def q_elem_def)
qed

text \<open>C37. A sender that has waited for space does not look again when it has \<open>queue_lock\<close>:
  if other senders have filled the queue meanwhile, with the urgent element, the call still
  returns \<open>OK\<close>, the counter exceeds the number of elements, and the message at the head
  of the queue, sent but not yet received, is overwritten.\<close>

theorem msgQSend_overruns_full_queue:
  assumes "a \<in> dom (queues w)" and "queue_lock (qcb w a) = 0" and "\<not> q_killed (qcb w a)"
    and "ring_wf (qcb w a)" and "length (ring_msgs (qcb w a)) = slots (qcb w a)"
    and "msgs_per_queue (qcb w a) < 2147483646" and "int (length bs) \<le> msg_len (qcb w a)"
    and "sf_queue fr = a" and "sf_task fr \<noteq> NULL" and "sf_msg fr = Some bs" and "sf_msglen fr = int (length bs)"
    and "sf_pri fr = MSG_PRI_NORMAL" and "sf_retcode fr = 0"
  shows "\<exists>w'. msgQSend_relock me fr w = Done (Sent OK, w')
     \<and> msg_count (qcb w' a) = int (slots (qcb w' a)) + 1 \<and> \<not> ring_wf (qcb w' a)
     \<and> hd (ring_msgs (qcb w' a)) = bs"
proof -
  let ?q = "qcb w a"
  let ?w1 = "unlink_susp_task (QueueWriteSusp a) (sf_task fr) w"
  have dom: "a \<in> dom (queues ?w1)" using assms(1) by (simp del: domIff)
  obtain v where "queues w a = Some v" using assms(1) by auto
  let ?q1 = "qcb ?w1 a"
  have same: "ring_wf ?q1" "length (ring_msgs ?q1) = slots ?q1" "int (length bs) \<le> msg_len ?q1"
    "msgs_per_queue ?q1 < 2147483646"
    using assms(4-7) by simp_all
  obtain q' where q': "send_msg_to (Some bs) (int (length bs)) ?q1 = Done q'"
    "msg_count q' = msgs_per_queue ?q1 + 2" "decode (q_elem q' (head_slot ?q1)) = bs"
    "queue_head q' = queue_head ?q1"
    using send_msg_to_full [OF same] by blast
  let ?w2 = "upd_queue a (\<lambda>_. q') ?w1"
  have "MSG_PRI_NORMAL \<noteq> MSG_PRI_URGENT" "(0::int) \<noteq> ETIMEDOUT" by (simp_all add: vxw_codes)
  then have "msgQSend_relock me fr w = Done (Sent OK, ?w2)"
    using \<open>queues w a = Some v\<close> assms(2,3,8,10-13) q'(1)
    by (simp add: msgQSend_relock_def Let_def post_msg_def send_return_eq)
  moreover have q2: "qcb ?w2 a = q'" using dom by (simp del: domIff)
  moreover have "msgs_per_queue q' = msgs_per_queue ?q1" "vmsg_len q' = vmsg_len ?q1"
    using q'(1) by (auto simp: send_msg_to_def obind_Done_iff Let_def)
  moreover have "0 \<le> msgs_per_queue ?q1" using same(1) by (simp add: ring_wf_def ring_geometry_def)
  moreover have "head_slot q' = head_slot ?q1" "slots q' = slots ?q1"
    using calculation q'(4) by (simp_all add: head_slot_def slots_def)
  moreover have "hd (ring_msgs q') = decode (q_elem q' (msg_slot q' 0))"
    using calculation q'(2) by (simp add: ring_msgs_def hd_map)
  moreover have "msg_slot q' 0 = head_slot ?q1"
    using calculation ring_wf_head [OF same(1)] by (simp add: msg_slot_def)
  ultimately show ?thesis
    using q'(2,3) by (intro exI [of _ ?w2]) (simp add: ring_wf_def slots_def)
qed

text \<open>A full queue for one message of one byte: it holds a normal and an urgent message.\<close>

definition full_queue :: v2pt_mqueue_t where
  "full_queue = zero_queue\<lparr>msgs_per_queue := 1, msg_len := 1, vmsg_len := 9, last_msg_in_queue := 9,
     extent := [1, 0, 0, 0, 0, 0, 0, 0, 10, 1, 0, 0, 0, 0, 0, 0, 0, 20], msg_count := 2\<rparr>"

lemma full_queue_wf: "ring_wf full_queue" "ring_msgs full_queue = [[10], [20]]" "slots full_queue = 2"
  by (simp_all add: full_queue_def ring_wf_def ring_geometry_def zero_queue_def vxw_codes
      head_slot_def slots_def msg_slot_def ring_msgs_def q_elem_def elem_def decode_def eval_nat_numeral
      All_less_Suc)

theorem msgQSend_overruns_full_queue_witness:
  "\<exists>w'. msgQSend_relock 8 \<lparr>sf_queue = 500, sf_task = 200, sf_msg = Some [30], sf_msglen = 1, sf_pri = 0,
        sf_timeout = None, sf_retcode = 0\<rparr> (two_tasks\<lparr>queues := [500 \<mapsto> full_queue]\<rparr>) = Done (Sent OK, w')
     \<and> hd (ring_msgs (qcb w' 500)) = [30]"
proof -
  let ?w = "two_tasks\<lparr>queues := [500 \<mapsto> full_queue]\<rparr>"
  have q: "qcb ?w 500 = full_queue" "500 \<in> dom (queues ?w)" by (simp_all add: qcb_def)
  have f: "queue_lock full_queue = 0" "\<not> q_killed full_queue" "msgs_per_queue full_queue = 1" "msg_len full_queue = 1"
    by (simp_all add: full_queue_def zero_queue_def q_killed_def)
  show ?thesis
    using msgQSend_overruns_full_queue [OF q(2), unfolded q(1), where bs = "[30]" and me = 8 and
        fr = "\<lparr>sf_queue = 500, sf_task = 200, sf_msg = Some [30], sf_msglen = 1, sf_pri = 0,
        sf_timeout = None, sf_retcode = 0\<rparr>"] f full_queue_wf
    by (auto simp: MSG_PRI_NORMAL_def)
qed

text \<open>A receiver that makes space while \<open>qfull_lock\<close> is locked and a sender waits.\<close>

lemma receiver_stuck:
  assumes "a \<in> set (mqueue_list w)" and "a \<in> dom (queues w)" and "queue_lock (qcb w a) = 0"
    and "qfull_lock (qcb w a) \<noteq> 0" and "msg_len (qcb w a) \<le> buflen" and "ring_wf (qcb w a)"
    and "\<not> q_killed (qcb w a)" and "q_first_susp (qcb w a) = []" and "my_task me w \<noteq> NULL" and "me \<noteq> 0"
    and "ring_msgs (qcb w a) = m # ms" and "length (m # ms) \<le> nat (msgs_per_queue (qcb w a))"
    and "q_first_write_susp (qcb w a) \<noteq> []"
  shows "\<exists>fr w'. msgQReceive me a True buflen wait now w = Done (RAtFull fr (int (length m)) m, w')
     \<and> msgQReceive_full me fr (int (length m)) m w' = Blocked
     \<and> (\<forall>th. msgQSend th a msg n wait' pri now' w' = Blocked \<and> msgQDelete th a w' = Blocked)"
proof -
  define t where "t = my_task me w"
  let ?w1 = "link_susp_task (QueueSusp a) t w"
  let ?fr = "recv_frame_of a t wait now\<lparr>rf_retcode := 0\<rparr>"
  let ?w2 = "unlink_susp_task (QueueSusp a) t ?w1"
  have t: "t \<noteq> NULL" and dom: "a \<in> dom (queues ?w1)" "a \<in> dom (queues ?w2)"
    using assms(2,9) by (simp_all add: t_def del: domIff)
  have mx: "0 < msgs_per_queue (qcb w a)" "msg_count (qcb w a) \<le> msgs_per_queue (qcb w a)"
    "msgs_per_queue (qcb w a) < 2147483647" "0 < msg_count (qcb w a)"
    using assms(11,12) ring_elim(1) [OF assms(6)] assms(6) by (auto simp: ring_wf_def ring_geometry_def)
  have poll: "waiting_on_q_msg me a ?w1 = Over"
    using receive_alone [OF assms(2) refl assms(9,8) refl assms(7)] mx(4) by (simp add: t_def)
  have wf2: "ring_wf (qcb ?w2 a)" "ring_msgs (qcb ?w2 a) = m # ms" using assms(6,11) by simp_all
  obtain q where q: "fetch_msg_from True (qcb ?w2 a) = Done (m, int (length m), q)"
    using fetch_msg_from_ring [OF wf2, of True] by auto
  note f = ring_op_fields(3) [OF q]
  have w2q: "qcb ?w2 a = qcb w a\<lparr>q_first_susp := []\<rparr>" using assms(2,8) t dom(1) by (simp del: domIff)
  have "s32 (msg_count (qcb w a) - 1) = msg_count (qcb w a) - 1"
    "s32 (msgs_per_queue (qcb w a) - 1) = msgs_per_queue (qcb w a) - 1"
    using mx by (auto intro!: s32_id simp: in_s32_def)
  then have ann: "announces_space q" "qfull_lock q \<noteq> 0"
    using f assms(4,13) mx w2q by (simp_all add: announces_space_def)
  define w' where "w' = upd_queue a (\<lambda>_. q\<lparr>queue_lock := me\<rparr>) ?w2"
  have "msgQReceive me a True buflen wait now w = recv_poll me (recv_frame_of a t wait now) Over ?w1"
    using assms(1,3,5) mx(1) poll
    by (simp add: msgQReceive_def mqueue_find_lock_def Let_def recv_start_def recv_frame_of_def t_def)
  also have "\<dots> = Done (RAtFull ?fr (int (length m)) m, w')"
    using assms(7) q ann by (simp add: recv_poll_def recv_exit_def Let_def ETIMEDOUT_def w'_def)
  finally have r: "msgQReceive me a True buflen wait now w = Done (RAtFull ?fr (int (length m)) m, w')" .
  have q': "qcb w' a = q\<lparr>queue_lock := me\<rparr>" unfolding w'_def using dom(2) by (simp del: domIff)
  have "a \<in> dom (queues w')" unfolding w'_def dom_upd_queue by (rule dom(2))
  then have alive: "queues w' a \<noteq> None" by auto
  have "a \<in> set (mqueue_list w')" using assms(1) by (simp add: w'_def)
  then have "mqueue_find_lock a w' = Blocked" using q' assms(10) by (simp add: mqueue_find_lock_def)
  then show ?thesis
    using r q' alive ann(2)
    by (intro exI [of _ ?fr] exI [of _ w']) (simp add: msgQReceive_full_def msgQSend_def msgQDelete_def)
qed

text \<open>C38. A sender that has waited for space returns with \<open>qfull_lock\<close> locked: it never
  unlocks the mutex it got back from the condition wait. From then on, a receiver that
  makes space while a sender waits stops at this mutex, with \<open>queue_lock\<close> locked, so that
  every further call for the queue stops too.\<close>

theorem waiting_sender_keeps_qfull_lock:
  assumes "a \<in> dom (queues w)" and "queue_lock (qcb w a) = 0" and "qfull_lock (qcb w a) = 0"
    and "\<not> q_killed (qcb w a)" and "ring_wf (qcb w a)" and "msg_count (qcb w a) < msgs_per_queue (qcb w a)"
    and "int (length bs) \<le> msg_len (qcb w a)" and "my_task me w \<noteq> NULL"
    and "q_first_write_susp (qcb w a) = [my_task me w]"
    and "sf_queue fr = a" and "sf_task fr = my_task me w" and "sf_msg fr = Some bs" and "sf_msglen fr = int (length bs)"
  shows "\<exists>fr' w1 w2. msgQSend_wake me 0 fr w = Done (SAtRelock fr', w1)
     \<and> msgQSend_relock me fr' w1 = Done (Sent OK, w2) \<and> qfull_lock (qcb w2 a) = me
     \<and> (\<forall>v rd m ms. a \<in> set (mqueue_list v) \<and> a \<in> dom (queues v) \<and> queue_lock (qcb v a) = 0
          \<and> qfull_lock (qcb v a) = me \<and> me \<noteq> 0 \<and> ring_wf (qcb v a) \<and> \<not> q_killed (qcb v a)
          \<and> q_first_susp (qcb v a) = [] \<and> q_first_write_susp (qcb v a) \<noteq> []
          \<and> my_task rd v \<noteq> NULL \<and> rd \<noteq> 0 \<and> msg_len (qcb v a) \<le> buflen
          \<and> ring_msgs (qcb v a) = m # ms \<and> length (m # ms) \<le> nat (msgs_per_queue (qcb v a)) \<longrightarrow>
          (\<exists>rf v'. msgQReceive rd a True buflen wait now v = Done (RAtFull rf (int (length m)) m, v')
             \<and> msgQReceive_full rd rf (int (length m)) m v' = Blocked
             \<and> (\<forall>th. msgQSend th a msg n wait' pri now' v' = Blocked \<and> msgQDelete th a v' = Blocked)))"
proof -
  let ?t = "my_task me w"
  define fr0 where "fr0 = (if sf_timeout fr = None then fr else fr\<lparr>sf_retcode := 0\<rparr>)\<lparr>sf_retcode := 0\<rparr>"
  define w1 where "w1 = upd_queue a (\<lambda>q. q\<lparr>qfull_lock := me\<rparr>) w"
  let ?u = "unlink_susp_task (QueueWriteSusp a) ?t w1"
  have dom: "a \<in> dom (queues w1)" "a \<in> dom (queues ?u)" using assms(1) by (simp_all add: w1_def del: domIff)
  have q1: "qcb w1 a = qcb w a\<lparr>qfull_lock := me\<rparr>" unfolding w1_def using assms(1) by (simp del: domIff)
  have qu: "qcb ?u a = qcb w a\<lparr>qfull_lock := me, q_first_write_susp := []\<rparr>"
    using dom(1) q1 assms(8,9) by (simp del: domIff)
  have me1: "my_task me w1 = ?t" by (simp add: w1_def)
  have sig: "signal_for_my_task me (QueueWriteSusp a) p w1" for p
    using q1 assms(9) by (intro signal_single) (simp add: me1)
  have "s32 (msgs_per_queue (qcb w a) - 1) = msgs_per_queue (qcb w a) - 1"
    using assms(5) by (intro s32_id) (auto simp: ring_wf_def ring_geometry_def in_s32_def)
  then have poll: "waiting_on_q_space me a w1 = Over"
    using sig assms(6) q1 by (simp add: waiting_on_q_space_def space_loop_def Let_def)
  obtain y where "queues w a = Some y" using assms(1) by auto
  then have wake: "msgQSend_wake me 0 fr w = Done (SAtRelock fr0, w1)"
    using assms(3,10) poll by (simp add: msgQSend_wake_def Let_def send_poll_def fr0_def flip: w1_def)
  have fields: "sf_queue fr0 = a" "sf_task fr0 = ?t" "sf_msg fr0 = Some bs" "sf_msglen fr0 = int (length bs)"
    "sf_retcode fr0 = 0"
    using assms(10-13) by (simp_all add: fr0_def)
  obtain q where q: "post_msg a (Some bs) (int (length bs)) (sf_pri fr0) ?u = Done (upd_queue a (\<lambda>_. q) ?u)"
    "sf_pri fr0 = MSG_PRI_URGENT \<longrightarrow> urgent_msg_to (Some bs) (int (length bs)) (qcb ?u a) = Done q"
    "sf_pri fr0 \<noteq> MSG_PRI_URGENT \<longrightarrow> send_msg_to (Some bs) (int (length bs)) (qcb ?u a) = Done q"
    using post_msg_posts [of ?u a bs "sf_pri fr0"] assms(5-7) q1 by auto
  have "qfull_lock q = qfull_lock (qcb ?u a)"
    using q(2,3) ring_op_fields(1,2) by (cases "sf_pri fr0 = MSG_PRI_URGENT") blast+
  then have qf: "qfull_lock q = me" using qu by simp
  obtain y1 where y1: "queues w1 a = Some y1" using dom(1) by auto
  have nk: "\<not> q_killed (qcb w1 a)" using q1 assms(4) by (simp add: q_killed_def)
  have relock: "msgQSend_relock me fr0 w1 = Done (Sent OK, upd_queue a (\<lambda>_. q) ?u)"
    using y1 q1 assms(2) nk q(1) fields
    by (simp add: msgQSend_relock_def Let_def send_return_eq ETIMEDOUT_def)
  have "qfull_lock (qcb (upd_queue a (\<lambda>_. q) ?u) a) = me" using dom(2) qf by (simp del: domIff)
  then show ?thesis
    using wake relock receiver_stuck [of a]
    by (intro exI [of _ fr0] exI [of _ w1] exI [of _ "upd_queue a (\<lambda>_. q) ?u"]) (simp del: domIff)
qed

theorem waiting_sender_keeps_qfull_lock_witness:
  "\<exists>fr' w1 w2. msgQSend_wake 8 0 \<lparr>sf_queue = 500, sf_task = 200, sf_msg = Some [30], sf_msglen = 1, sf_pri = 0,
        sf_timeout = None, sf_retcode = 0\<rparr> (link_susp_task (QueueWriteSusp 500) 200 queue_world)
      = Done (SAtRelock fr', w1)
     \<and> msgQSend_relock 8 fr' w1 = Done (Sent OK, w2) \<and> qfull_lock (qcb w2 500) = 8"
proof -
  let ?w = "link_susp_task (QueueWriteSusp 500) 200 queue_world"
  let ?fr = "\<lparr>sf_queue = 500, sf_task = 200, sf_msg = Some [30], sf_msglen = 1, sf_pri = 0,
        sf_timeout = None, sf_retcode = 0\<rparr>"
  have q: "qcb ?w 500 = fresh_queue 2 3 0\<lparr>q_first_write_susp := [200]\<rparr>"
    using fresh_queue_demo by (simp del: domIff)
  have f: "msg_len (fresh_queue 2 3 0) = 3" "msgs_per_queue (fresh_queue 2 3 0) = 2" by (simp_all add: fresh_queue_def)
  have nk: "\<not> q_killed (fresh_queue 2 3 0\<lparr>q_first_write_susp := [200]\<rparr>)"
    using fresh_queue_demo(6) by (simp add: q_killed_def)
  have w: "500 \<in> dom (queues ?w)" "my_task 8 ?w = 200" by (simp_all del: domIff)
  show ?thesis
    using waiting_sender_keeps_qfull_lock [of 500 ?w "[30]" 8 ?fr 3 0 "(0, 0)" None 0 0 0 "(0, 0)"]
      w f fresh_queue_demo nk
    unfolding q by (simp del: domIff) blast
qed

text \<open>Deletion.\<close>

lemma qcb_cong: "queues w = queues w' \<Longrightarrow> qcb w = qcb w'"
  by (simp add: qcb_def fun_eq_iff)

text \<open>A queue no task waits on is deleted at once.\<close>

lemma alone_deleted:
  assumes "a \<in> set (mqueue_list w)" and "a \<in> dom (queues w)" and "queue_lock (qcb w a) = 0"
    and "q_first_susp (qcb w a) = []" and "q_first_write_susp (qcb w a) = []" and "locker w = 0"
  shows "\<exists>w'. msgQDelete me a w = Done (Deleted OK, w')"
proof -
  let ?k = "upd_queue a (\<lambda>q. q\<lparr>q_send_type := Q_KILLD\<rparr>) w"
  obtain w1 where w1: "taskLock me ?k = Done w1" using taskLock_Done_iff [of me ?k] assms(6) by auto
  have qs: "queues w1 = queues ?k" using taskLock_frame [OF w1] by simp
  have q1: "q_first_susp (qcb w1 a) = []" "q_first_write_susp (qcb w1 a) = []"
    using qcb_cong [OF qs] assms(2,4,5) by (simp_all del: domIff)
  obtain y where "queues ?k a = Some y" using assms(2) by (auto simp: upd_queue_def)
  then show ?thesis
    using assms(1,3) w1 q1
    by (simp add: msgQDelete_def mqueue_find_lock_def msgQDelete_lock_def msgQDelete_free_def)
qed

lemma delete_mqueue_gone:
  assumes "distinct (mqueue_list w)"
  shows "queues (delete_mqueue a w) a = None" and "a \<notin> set (mqueue_list (delete_mqueue a w))"
    and "b \<noteq> a \<Longrightarrow> queues (delete_mqueue a w) b = queues w b"
    and "b \<noteq> a \<Longrightarrow> b \<in> set (mqueue_list (delete_mqueue a w)) \<longleftrightarrow> b \<in> set (mqueue_list w)"
  using assms by (simp_all add: delete_mqueue_def unlink_qcb_def)

text \<open>C28. \<^verbatim>\<open>msgQDelete\<close> of a queue no task waits on frees it and takes it off the list, and
  every later call with the old handle fails with \<open>OBJ_ID_ERROR\<close> without touching the
  freed block; every other queue and its handle stay as they are.\<close>

theorem msgQDelete_stale_handle:
  assumes "a \<in> set (mqueue_list w)" and "a \<in> dom (queues w)" and "distinct (mqueue_list w)"
    and "queue_lock (qcb w a) = 0" and "q_first_susp (qcb w a) = []" and "q_first_write_susp (qcb w a) = []"
    and "locker w = 0 \<or> locker w = me"
  shows "\<exists>w'. msgQDelete me a w = Done (Deleted OK, w') \<and> queues w' a = None
     \<and> (\<forall>b. b \<noteq> a \<longrightarrow> queues w' b = queues w b \<and> mqueue_find_lock b w' = mqueue_find_lock b w)
     \<and> (\<forall>th msg n wait pri now buf len.
          msgQSend th a msg n wait pri now w' = Done (Sent ERROR, set_errno th S_objLib_OBJ_ID_ERROR w')
        \<and> msgQReceive th a buf len wait now w' = Done (Received ERROR [], set_errno th S_objLib_OBJ_ID_ERROR w')
        \<and> msgQDelete th a w' = Done (Deleted ERROR, set_errno th S_objLib_OBJ_ID_ERROR w')
        \<and> msgQNumMsgs a w' = Done ERROR)"
proof -
  let ?k = "upd_queue a (\<lambda>q. q\<lparr>q_send_type := Q_KILLD\<rparr>) w"
  obtain w1 where w1: "taskLock me ?k = Done w1"
    using taskLock_Done_iff [of me ?k] assms(7) by auto
  have qs: "queues w1 = queues ?k" "mqueue_list w1 = mqueue_list w" using taskLock_frame [OF w1] by simp_all
  have q1: "q_first_susp (qcb w1 a) = []" "q_first_write_susp (qcb w1 a) = []"
    using qcb_cong [OF qs(1)] assms(2,5,6) by (simp_all del: domIff)
  let ?w2 = "upd_queue a (\<lambda>q. q\<lparr>queue_lock := 0\<rparr>) w1"
  let ?w' = "taskUnlock me (delete_mqueue a ?w2)"
  have "distinct (mqueue_list ?w2)" using qs assms(3) by simp
  note gone = delete_mqueue_gone [OF this, where a = a]
  obtain y where "queues ?k a = Some y" using assms(2) by (auto simp: upd_queue_def)
  then have "msgQDelete me a w = Done (Deleted OK, ?w')"
    using assms(1,4) w1 q1
    by (simp add: msgQDelete_def mqueue_find_lock_def msgQDelete_lock_def msgQDelete_free_def)
  moreover have other: "queues ?w' b = queues w b \<and> mqueue_find_lock b ?w' = mqueue_find_lock b w" if "b \<noteq> a" for b
  proof -
    have "queues ?w' b = queues w b" using gone(3) [OF that] qs that by (simp add: upd_queue_def)
    then have "qcb ?w' b = qcb w b" by (simp add: qcb_def)
    then show ?thesis using \<open>queues ?w' b = _\<close> gone(4) [OF that] qs by (simp add: mqueue_find_lock_def)
  qed
  moreover have "mqueue_find_lock a ?w' = Done False" using gone(2) by (simp add: mqueue_find_lock_def)
  ultimately show ?thesis
    using gone(1)
    by (intro exI [of _ ?w'])
      (simp add: msgQSend_def msgQReceive_def msgQDelete_def msgQNumMsgs_def send_return_eq recv_return_def finish_def)
qed

theorem msgQDelete_stale_handle_witness:
  "\<exists>w'. msgQDelete 7 500 queue_world = Done (Deleted OK, w') \<and> queues w' 500 = None
     \<and> msgQSend 8 500 (Some [1]) 1 0 0 (0, 0) w' = Done (Sent ERROR, set_errno 8 S_objLib_OBJ_ID_ERROR w')"
proof -
  have w: "500 \<in> set (mqueue_list queue_world)" "500 \<in> dom (queues queue_world)" "distinct (mqueue_list queue_world)"
    "locker queue_world = 0"
    by (simp_all del: domIff) (simp add: queue_world_def link_qcb_def two_tasks_def boot_world_def)
  have "queue_lock (qcb queue_world 500) = 0" "q_first_susp (qcb queue_world 500) = []"
    "q_first_write_susp (qcb queue_world 500) = []" using fresh_queue_demo by simp_all
  from msgQDelete_stale_handle [OF w(1-3) this, of 7] w(4) show ?thesis by (auto elim!: ex_forward)
qed

text \<open>A deletion with a task waiting marks the queue and goes to sleep with the scheduler locked.\<close>

lemma msgQDelete_parks:
  assumes "a \<in> set (mqueue_list w)" and "a \<in> dom (queues w)" and "queue_lock (qcb w a) = 0"
    and "qfull_lock (qcb w a) = 0" and "q_first_susp (qcb w a) \<noteq> []" and "locker w = 0 \<or> locker w = d"
  shows "\<exists>w1. msgQDelete d a w = Done (DAtWait, w1) \<and> a \<in> dom (queues w1)
     \<and> qcb w1 a = qcb w a\<lparr>q_send_type := Q_KILLD, queue_lock := 0, qdlet_lock := 0\<rparr>
     \<and> mqueue_list w1 = mqueue_list w \<and> locker w1 = d \<and> (\<forall>th. my_task th w1 = my_task th w)"
proof -
  let ?k = "upd_queue a (\<lambda>q. q\<lparr>q_send_type := Q_KILLD\<rparr>) w"
  obtain v where v: "taskLock d ?k = Done v" using taskLock_Done_iff [of d ?k] assms(6) by auto
  note F = taskLock_frame [OF v]
  have qs: "queues v = queues ?k" using F by simp
  have dom: "a \<in> dom (queues v)" unfolding qs using assms(2) by (simp del: domIff)
  have qv: "qcb v a = qcb w a\<lparr>q_send_type := Q_KILLD\<rparr>" using qcb_cong [OF qs] assms(2) by (simp del: domIff)
  define v1 where "v1 = upd_queue a (\<lambda>q. q\<lparr>queue_lock := 0, qdlet_lock := d\<rparr>) v"
  define w1 where "w1 = upd_queue a (\<lambda>q. q\<lparr>qdlet_lock := 0\<rparr>) v1"
  have dom1: "a \<in> dom (queues v1)" "a \<in> dom (queues w1)" using dom by (simp_all add: v1_def w1_def del: domIff)
  have qv1: "qcb v1 a = qcb w a\<lparr>q_send_type := Q_KILLD, queue_lock := 0, qdlet_lock := d\<rparr>"
    unfolding v1_def using dom qv by (simp del: domIff)
  have qw1: "qcb w1 a = qcb w a\<lparr>q_send_type := Q_KILLD, queue_lock := 0, qdlet_lock := 0\<rparr>"
    unfolding w1_def using dom1 qv1 by (simp del: domIff)
  obtain y z where y: "queues ?k a = Some y" "queues v1 a = Some z"
    using domD [OF dom] domD [OF dom1(1)] unfolding qs by blast
  have "msgQDelete d a w = Done (DAtWait, w1)"
    using assms(1,3-5) v y qv qv1
    by (simp add: msgQDelete_def mqueue_find_lock_def msgQDelete_lock_def msgQDelete_space_def
        msgQDelete_wait_def w1_def flip: v1_def)
  moreover have "mqueue_list w1 = mqueue_list w" "locker w1 = d" "\<forall>th. my_task th w1 = my_task th w"
    using F by (simp_all add: w1_def v1_def)
  ultimately show ?thesis using dom1(2) qw1 by blast
qed

text \<open>C39. \<^verbatim>\<open>msgQDelete\<close> waits until no task is on the waiting lists, but the last waiting task
  leaves its list before it has finished with the queue. With one receiver waiting, the
  deletion can free the queue after the receiver has left the list; the receiver then reads
  the freed control block.\<close>

theorem msgQDelete_frees_under_receiver:
  assumes "a \<in> set (mqueue_list w)" and "a \<in> dom (queues w)" and "queue_lock (qcb w a) = 0"
    and "qfull_lock (qcb w a) = 0" and "q_first_susp (qcb w a) = [t]" and "t \<noteq> NULL"
    and "q_first_write_susp (qcb w a) = []" and "locker w = 0 \<or> locker w = d"
    and "rf_queue fr = a" and "rf_task fr = t"
  shows "\<exists>w1 fr' w2 w3. msgQDelete d a w = Done (DAtWait, w1)
     \<and> msgQReceive_wake me rc fr w1 = Done (RAtKilled fr', w2)
     \<and> msgQDelete_wait d a w2 = Done (Deleted OK, w3)
     \<and> msgQReceive_killed me fr' w3 = Crashed"
proof -
  obtain w1 where w1: "msgQDelete d a w = Done (DAtWait, w1)" and dom1: "a \<in> dom (queues w1)"
    and qw1: "qcb w1 a = qcb w a\<lparr>q_send_type := Q_KILLD, queue_lock := 0, qdlet_lock := 0\<rparr>"
    using msgQDelete_parks [OF assms(1-4) _ assms(8)] assms(5) by auto
  obtain z' where y: "queues w1 a = Some z'" using dom1 by blast
  define fr' where "fr' = (if rf_timeout fr = None then fr else fr\<lparr>rf_retcode := rc\<rparr>)\<lparr>rf_retcode := 0\<rparr>"
  define u where "u = unlink_susp_task (QueueSusp a) t w1"
  define w2 where "w2 = upd_queue a (\<lambda>q. q\<lparr>queue_lock := me\<rparr>) u"
  have domu: "a \<in> dom (queues u)" "a \<in> dom (queues w2)" using dom1 by (simp_all add: u_def w2_def del: domIff)
  have killed: "q_killed (qcb w1 a)" unfolding qw1 by (simp add: q_killed_def vxw_codes)
  have fr': "rf_queue fr' = a" "rf_task fr' = t" using assms(9,10) by (simp_all add: fr'_def)
  have "recv_exit me fr' w1 = Done (RAtKilled fr', w2)"
    using killed fr' by (simp add: recv_exit_def Let_def u_def w2_def)
  then have "msgQReceive_wake me rc fr w1 = Done (RAtKilled fr', w2)"
    using y qw1 killed assms(9)
    by (simp add: msgQReceive_wake_def Let_def recv_poll_def waiting_on_q_msg_def fr'_def)
  moreover
  let ?w3 = "taskUnlock d (delete_mqueue a w2)"
  have "qcb u a = qcb w1 a\<lparr>q_first_susp := []\<rparr>"
    unfolding u_def using dom1 assms(5,6) qw1 by (simp del: domIff)
  then have q2: "q_first_susp (qcb w2 a) = []" "q_first_write_susp (qcb w2 a) = []"
    unfolding w2_def using domu(1) qw1 assms(7) by (simp_all del: domIff)
  obtain y2 where "queues w2 a = Some y2" using domu(2) by auto
  then have "msgQDelete_wait d a w2 = Done (Deleted OK, ?w3)"
    using q2 by (simp add: msgQDelete_wait_def msgQDelete_free_def)
  moreover have "msgQReceive_killed me fr' ?w3 = Crashed"
    using fr' by (simp add: msgQReceive_killed_def notify_if_delete_complete_def delete_mqueue_def)
  ultimately show ?thesis using w1 by blast
qed

theorem msgQDelete_frees_under_receiver_witness:
  "\<exists>w1 fr' w2 w3. msgQDelete 8 500 (link_susp_task (QueueSusp 500) 100 queue_world) = Done (DAtWait, w1)
     \<and> msgQReceive_wake 7 0 (recv_frame_of 500 100 (-1) (0, 0)) w1 = Done (RAtKilled fr', w2)
     \<and> msgQDelete_wait 8 500 w2 = Done (Deleted OK, w3)
     \<and> msgQReceive_killed 7 fr' w3 = Crashed"
proof (rule msgQDelete_frees_under_receiver [where t = 100])
  have q: "qcb (link_susp_task (QueueSusp 500) 100 queue_world) 500 = fresh_queue 2 3 0\<lparr>q_first_susp := [100]\<rparr>"
    using fresh_queue_demo by (simp del: domIff)
  show "queue_lock (qcb (link_susp_task (QueueSusp 500) 100 queue_world) 500) = 0"
    "qfull_lock (qcb (link_susp_task (QueueSusp 500) 100 queue_world) 500) = 0"
    "q_first_susp (qcb (link_susp_task (QueueSusp 500) 100 queue_world) 500) = [100]"
    "q_first_write_susp (qcb (link_susp_task (QueueSusp 500) 100 queue_world) 500) = []"
    unfolding q using fresh_queue_demo by simp_all
  show "locker (link_susp_task (QueueSusp 500) 100 queue_world) = 0 \<or> locker (link_susp_task (QueueSusp 500) 100 queue_world) = 8"
    by (simp add: queue_world_def link_qcb_def two_tasks_def boot_world_def)
qed (simp_all del: domIff)

end
