(* ===== verification/Wd_Lib.thy ===== *)
theory Wd_Lib
  imports Task_Lib
begin

text \<open>
  The watchdog timers of \<^verbatim>\<open>lib/lwdLib.c\<close>, and \<^verbatim>\<open>taskRestart\<close> of \<^verbatim>\<open>lib/ltaskLib.c\<close>, which
  restarts the calling task with one. Every function holds \<open>wdog_lock\<close> of the watchdog
  and gives it back before it returns or calls a timeout function, so that each call is one
  step, and \<^verbatim>\<open>process_tick_for\<close> is one step up to the call of the timeout function.

  A timeout function is known by its address: \<open>call f p\<close> is what the function at address
  \<open>f\<close> does to the state when it is called with \<open>p\<close>. Timeout functions are part of the
  program that uses the library, except \<^verbatim>\<open>self_starter\<close>; they are taken to return.
\<close>


section \<open>The list of watchdogs\<close>

definition wdog_valid :: "addr \<Rightarrow> world \<Rightarrow> bool" where
  "wdog_valid wdId w \<longleftrightarrow> wdId \<in> set (wdog_list w)"

definition link_wdog :: "addr \<Rightarrow> world \<Rightarrow> world" where
  "link_wdog new_wdog w = w\<lparr>wdog_list := wdog_list w @ [new_wdog]\<rparr>"

definition unlink_wdog :: "addr \<Rightarrow> world \<Rightarrow> world" where
  "unlink_wdog wdId w = w\<lparr>wdog_list := remove1 wdId (wdog_list w)\<rparr>"

text \<open>\<open>wdId->next\<close>.\<close>

fun next_wdog :: "addr \<Rightarrow> addr list \<Rightarrow> addr" where
  "next_wdog a (x # y # ys) = (if x = a then y else next_wdog a (y # ys))"
| "next_wdog a _ = NULL"


section \<open>Operations\<close>

text \<open>\<open>blk\<close> is the block \<open>malloc\<close> returned, 0 when it failed, and \<open>junk\<close> what is in it:
  only \<open>ticks_remaining\<close> is set.\<close>

definition wdCreate :: "addr \<Rightarrow> v2pt_wdog_t \<Rightarrow> world \<Rightarrow> addr \<times> world" where
  "wdCreate blk junk w =
     (if blk \<noteq> NULL
      then (blk, link_wdog blk (w\<lparr>wdogs := (wdogs w)(blk \<mapsto> junk\<lparr>ticks_remaining := 0\<rparr>)\<rparr>))
      else (NULL, w))"

definition wdCancel :: "pthread \<Rightarrow> addr \<Rightarrow> world \<Rightarrow> int \<times> world" where
  "wdCancel me wdId w =
     (if wdog_valid wdId w then (OK, upd_wdog wdId (\<lambda>d. d\<lparr>ticks_remaining := 0\<rparr>) w)
      else (ERROR, set_errno me S_objLib_OBJ_ID_ERROR w))"

definition wdDelete :: "pthread \<Rightarrow> addr \<Rightarrow> world \<Rightarrow> int \<times> world" where
  "wdDelete me wdId w =
     (if wdog_valid wdId w
      then (OK, (unlink_wdog wdId w)\<lparr>wdogs := (wdogs w)(wdId := None)\<rparr>)
      else (ERROR, set_errno me S_objLib_OBJ_ID_ERROR w))"

definition wd_ticks :: "int \<Rightarrow> int" where
  "wd_ticks delay = (let n = delay sdiv 2 in if n < 1 then 1 else n)"

definition wdStart :: "pthread \<Rightarrow> addr \<Rightarrow> int \<Rightarrow> addr \<Rightarrow> int \<Rightarrow> world \<Rightarrow> int \<times> world" where
  "wdStart me wdId delay f parm w =
     (if wdog_valid wdId w
      then (OK, upd_wdog wdId (\<lambda>d. d\<lparr>ticks_remaining := wd_ticks delay, timeout_func := f,
                                     timeout_parm := parm\<rparr>) w)
      else (ERROR, set_errno me S_objLib_OBJ_ID_ERROR w))"


section \<open>Ticks\<close>

text \<open>The watchdog to go on with, and the state.\<close>

definition process_tick_for ::
  "(addr \<Rightarrow> int \<Rightarrow> world \<Rightarrow> world) \<Rightarrow> addr \<Rightarrow> world \<Rightarrow> addr \<times> world" where
  "process_tick_for call wdId w =
     (if wdog_valid wdId w then
        let next = next_wdog wdId (wdog_list w) in
        if ticks_remaining (wdcb w wdId) > 0 then
          let w1 = upd_wdog wdId (\<lambda>d. d\<lparr>ticks_remaining := ticks_remaining d - 1\<rparr>) w in
          if ticks_remaining (wdcb w1 wdId) = 0 \<and> timeout_func (wdcb w1 wdId) \<noteq> NULL
          then (next, call (timeout_func (wdcb w1 wdId)) (timeout_parm (wdcb w1 wdId)) w1)
          else (next, w1)
        else (next, w)
      else (NULL, w))"

text \<open>The loop of \<^verbatim>\<open>process_timer_list\<close>, which timeout functions that start new watchdogs
  can keep running: \<open>None\<close> stands for a loop that does not end.\<close>

partial_function (option) timer_loop ::
  "(addr \<Rightarrow> int \<Rightarrow> world \<Rightarrow> world) \<Rightarrow> addr \<Rightarrow> world \<Rightarrow> world option" where
  "timer_loop call next w =
     (if next = NULL then Some w
      else case process_tick_for call next w of (n, w') \<Rightarrow> timer_loop call n w')"

declare timer_loop.simps [code]

definition process_timer_list :: "(addr \<Rightarrow> int \<Rightarrow> world \<Rightarrow> world) \<Rightarrow> world \<Rightarrow> world option" where
  "process_timer_list call w =
     timer_loop call (case wdog_list w of [] \<Rightarrow> NULL | d # _ \<Rightarrow> d) w"

definition wdogShow :: "world \<Rightarrow> (addr \<times> int \<times> int) list \<times> int" where
  "wdogShow w = (map (\<lambda>d. (timeout_func (wdcb w d), ticks_remaining (wdcb w d), timeout_parm (wdcb w d)))
       (wdog_list w), int (length (wdog_list w)))"


section \<open>Restarting a task\<close>

text \<open>\<open>rc\<close> and \<open>thr\<close> are the result of \<open>pthread_create\<close> and the new thread; a thread is
  created without explicit scheduling attributes and inherits those of its creator.\<close>

definition start_thread :: "pthread \<Rightarrow> addr \<Rightarrow> int \<Rightarrow> pthread \<Rightarrow> world \<Rightarrow> world" where
  "start_thread me t rc thr w =
     (let w1 = upd_task t (\<lambda>x. x\<lparr>state := READY, pthrid := 0\<rparr>) w in
      if rc \<noteq> 0 then w1
      else (upd_task t (\<lambda>x. x\<lparr>pthrid := thr\<rparr>) w1)
             \<lparr>threads := insert thr (threads w1), thr_sched := (thr_sched w1)(thr := thr_sched w1 me)\<rparr>)"

definition self_starter :: "pthread \<Rightarrow> int \<Rightarrow> int \<Rightarrow> pthread \<Rightarrow> world \<Rightarrow> world" where
  "self_starter me tid rc thr w =
     (let w1 = snd (wdDelete me (restart_wdog w) w);
          task = task_for me tid w1
      in if task \<noteq> NULL then start_thread me task rc thr w1 else w1)"

text \<open>\<open>starter\<close> is the address of \<^verbatim>\<open>self_starter\<close>.\<close>

definition selfRestart :: "pthread \<Rightarrow> addr \<Rightarrow> addr \<Rightarrow> v2pt_wdog_t \<Rightarrow> addr \<Rightarrow> world \<Rightarrow> world" where
  "selfRestart me starter blk junk restart_task w =
     (let (d, w1) = wdCreate blk junk w;
          w2 = w1\<lparr>restart_wdog := d\<rparr>
      in if restart_wdog w2 \<noteq> NULL
         then snd (wdStart me (restart_wdog w2) 1 starter (taskid (tcb w2 restart_task)) w2)
         else w2)"

text \<open>\<^verbatim>\<open>taskRestart\<close> returns, or the calling thread ends in it; \<open>pthread_exit\<close> runs
  \<^verbatim>\<open>task_wrapper_cleanup\<close>.\<close>

datatype restart = Status int | ThreadEnds

definition taskRestart ::
  "pthread \<Rightarrow> int \<Rightarrow> int \<Rightarrow> pthread \<Rightarrow> addr \<Rightarrow> addr \<Rightarrow> v2pt_wdog_t \<Rightarrow> world \<Rightarrow> (restart \<times> world) outcome" where
  "taskRestart me tid rc thr starter blk junk w =
     obind (taskLock me w) (\<lambda>w1.
       let self_task = my_task me w1;
           t = (if tid = 0 then self_task else task_for me tid w1)
       in if t = NULL
          then obind (finish me S_objLib_OBJ_ID_ERROR w1) (\<lambda>(r, w'). Done (Status r, w'))
          else
            let w2 = (if waiting (tcb w1 t) \<noteq> NULL
                      then unlink_susp_task (SemSusp (waiting (tcb w1 t))) t w1 else w1)
            in if t \<noteq> self_task then
                 obind (cancel_join t w2) (\<lambda>w3.
                   let w4 = start_thread me t rc thr w3;
                       error = (if rc \<noteq> 0 then S_memLib_NOT_ENOUGH_MEMORY else OK)
                   in obind (finish me error (taskUnlock me w4)) (\<lambda>(r, w'). Done (Status r, w')))
               else
                 let w3 = selfRestart me starter blk junk self_task w2
                 in Done (ThreadEnds, task_wrapper_cleanup me (w3\<lparr>threads := threads w3 - {me}\<rparr>)))"


section \<open>Lemmas: the list of watchdogs\<close>

interpretation wd_registry: registry wdog_list link_wdog unlink_wdog wdog_valid
  by unfold_locales (simp_all add: link_wdog_def unlink_wdog_def wdog_valid_def)

section \<open>Lemmas: the walk over the list\<close>

text \<open>The state of the watchdogs: the list has no duplicates and its watchdogs exist.\<close>

definition wd_wf :: "world \<Rightarrow> bool" where
  "wd_wf w \<longleftrightarrow> distinct (wdog_list w) \<and> NULL \<notin> set (wdog_list w) \<and> set (wdog_list w) \<subseteq> dom (wdogs w)"

definition dec_ticks :: "v2pt_wdog_t \<Rightarrow> v2pt_wdog_t" where
  "dec_ticks d = d\<lparr>ticks_remaining := ticks_remaining d - 1\<rparr>"

text \<open>What a tick does to one watchdog.\<close>

definition expires :: "v2pt_wdog_t \<Rightarrow> bool" where
  "expires d \<longleftrightarrow> ticks_remaining d = 1 \<and> timeout_func d \<noteq> NULL"

definition tick_one :: "(addr \<Rightarrow> int \<Rightarrow> world \<Rightarrow> world) \<Rightarrow> addr \<Rightarrow> world \<Rightarrow> world" where
  "tick_one call d w =
     (if ticks_remaining (wdcb w d) > 0 then
        let w1 = upd_wdog d dec_ticks w in
        if expires (wdcb w d) then call (timeout_func (wdcb w d)) (timeout_parm (wdcb w d)) w1 else w1
      else w)"

lemma next_wdog_split: "x \<notin> set ys \<Longrightarrow> next_wdog x (ys @ x # xs) = (case xs of [] \<Rightarrow> NULL | z # _ \<Rightarrow> z)"
proof (induction ys)
  case Nil
  then show ?case by (cases xs) simp_all
next
  case (Cons y ys)
  then show ?case by (cases "ys @ x # xs") auto
qed

lemma process_tick_for_split:
  assumes "wdog_list w = ys @ d # ds" and "d \<notin> set ys" and "d \<in> dom (wdogs w)"
  shows "process_tick_for call d w = (case ds of [] \<Rightarrow> NULL | z # _ \<Rightarrow> z, tick_one call d w)"
proof -
  let ?w1 = "upd_wdog d (\<lambda>d. d\<lparr>ticks_remaining := ticks_remaining d - 1\<rparr>) w"
  have w1: "wdcb ?w1 d = dec_ticks (wdcb w d)" using assms(3) by (simp add: dec_ticks_def del: domIff)
  have "upd_wdog d dec_ticks w = ?w1" by (simp add: dec_ticks_def [abs_def])
  then show ?thesis
    using assms(1) next_wdog_split [OF assms(2)]
    by (auto simp: process_tick_for_def wdog_valid_def tick_one_def Let_def w1 dec_ticks_def expires_def)
qed

lemma wdog_list_tick_one:
  "(\<And>f p v. wdog_list (call f p v) = wdog_list v) \<Longrightarrow> wdog_list (tick_one call d w) = wdog_list w"
  by (simp add: tick_one_def Let_def)

lemma dom_tick_one:
  "(\<And>f p v. set (wdog_list v) \<subseteq> dom (wdogs v) \<Longrightarrow> set (wdog_list (call f p v)) \<subseteq> dom (wdogs (call f p v))) \<Longrightarrow>
     set (wdog_list w) \<subseteq> dom (wdogs w) \<Longrightarrow> set (wdog_list (tick_one call d w)) \<subseteq> dom (wdogs (tick_one call d w))"
  by (simp add: tick_one_def Let_def del: domIff)

text \<open>Timeout functions that neither create nor delete watchdogs.\<close>

definition keeps_list :: "(addr \<Rightarrow> int \<Rightarrow> world \<Rightarrow> world) \<Rightarrow> bool" where
  "keeps_list call \<longleftrightarrow> (\<forall>f p v. wdog_list (call f p v) = wdog_list v
     \<and> (set (wdog_list v) \<subseteq> dom (wdogs v) \<longrightarrow> set (wdog_list v) \<subseteq> dom (wdogs (call f p v))))"

lemma keeps_list_tick_one:
  assumes "keeps_list call"
  shows "wdog_list (tick_one call d w) = wdog_list w" and "wd_wf w \<Longrightarrow> wd_wf (tick_one call d w)"
proof -
  show l: "wdog_list (tick_one call d w) = wdog_list w"
    using assms by (intro wdog_list_tick_one) (simp add: keeps_list_def)
  show "wd_wf (tick_one call d w)" if "wd_wf w"
    using that dom_tick_one [of call w d] assms l by (simp add: wd_wf_def keeps_list_def)
qed

lemma timer_loop_walks:
  assumes "keeps_list call"
  shows "wd_wf w \<Longrightarrow> wdog_list w = ys @ ds \<Longrightarrow>
     timer_loop call (case ds of [] \<Rightarrow> NULL | d # _ \<Rightarrow> d) w = Some (fold (tick_one call) ds w)"
proof (induction ds arbitrary: ys w)
  case Nil
  then show ?case by (simp add: timer_loop.simps)
next
  case (Cons d ds)
  have d: "d \<notin> set ys" "d \<in> dom (wdogs w)" "d \<noteq> NULL"
    using Cons.prems by (auto simp: wd_wf_def)
  let ?w = "tick_one call d w"
  have "timer_loop call (case ds of [] \<Rightarrow> NULL | z # _ \<Rightarrow> z) ?w = Some (fold (tick_one call) ds ?w)"
    using Cons.IH [of ?w "ys @ [d]"] keeps_list_tick_one [OF assms] Cons.prems by simp
  then show ?case
    using process_tick_for_split [OF Cons.prems(2) d(1,2)] d(3) by (subst timer_loop.simps) simp
qed

lemma process_timer_list_fold:
  "keeps_list call \<Longrightarrow> wd_wf w \<Longrightarrow> process_timer_list call w = Some (fold (tick_one call) (wdog_list w) w)"
  unfolding process_timer_list_def by (rule timer_loop_walks [where ys = "[]"]) simp_all

lemma fold_tick_one_wf:
  assumes "keeps_list call"
  shows "wdog_list (fold (tick_one call) ds w) = wdog_list w"
    and "wd_wf w \<Longrightarrow> wd_wf (fold (tick_one call) ds w)"
  using keeps_list_tick_one [OF assms] by (induction ds arbitrary: w) simp_all

text \<open>A watchdog that no timeout function touches.\<close>

definition leaves :: "(addr \<Rightarrow> int \<Rightarrow> world \<Rightarrow> world) \<Rightarrow> addr \<Rightarrow> bool" where
  "leaves call d \<longleftrightarrow> (\<forall>f p v. wdogs (call f p v) d = wdogs v d)"

lemma wdcb_tick_one:
  assumes "leaves call d" and "d \<in> dom (wdogs w)"
  shows "wdcb (tick_one call e w) d =
     (if e = d \<and> ticks_remaining (wdcb w d) > 0 then dec_ticks (wdcb w d) else wdcb w d)"
proof -
  have "wdcb (call f p v) d = wdcb v d" for f p v using assms(1) by (simp add: leaves_def wdcb_def)
  then show ?thesis using assms(2) by (cases "e = d") (simp_all add: tick_one_def Let_def del: domIff)
qed

lemma wdcb_fold_tick_one:
  assumes "keeps_list call" and "leaves call d" and "wd_wf w" and "d \<in> set (wdog_list w)" and "distinct ds"
  shows "wdcb (fold (tick_one call) ds w) d =
     (if d \<in> set ds \<and> ticks_remaining (wdcb w d) > 0 then dec_ticks (wdcb w d) else wdcb w d)"
  using assms(3-5)
proof (induction ds arbitrary: w)
  case Nil
  then show ?case by simp
next
  case (Cons e ds)
  have dom: "d \<in> dom (wdogs w)" using Cons.prems by (auto simp: wd_wf_def)
  note one = wdcb_tick_one [OF assms(2) dom, of e]
  have "wdcb (fold (tick_one call) ds (tick_one call e w)) d =
      (if d \<in> set ds \<and> ticks_remaining (wdcb (tick_one call e w) d) > 0
       then dec_ticks (wdcb (tick_one call e w) d) else wdcb (tick_one call e w) d)"
    using Cons.IH [of "tick_one call e w"] keeps_list_tick_one [OF assms(1)] Cons.prems by simp
  then show ?case using one Cons.prems(3) by auto
qed

text \<open>Calls are counted by an observation \<open>cnt\<close> of the state, which the timeout function \<open>f\<close>
  increases when it is called with \<open>p\<close>, and nothing else changes; \<open>only_user f d\<close> says that
  no watchdog but \<open>d\<close> has the function \<open>f\<close>.\<close>

definition counts :: "(world \<Rightarrow> int) \<Rightarrow> (addr \<Rightarrow> int \<Rightarrow> world \<Rightarrow> world) \<Rightarrow> addr \<Rightarrow> int \<Rightarrow> bool" where
  "counts cnt call f p \<longleftrightarrow>
     (\<forall>g q v. cnt (call g q v) = cnt v + (if g = f \<and> q = p then 1 else 0))
     \<and> (\<forall>a k v. cnt (upd_wdog a k v) = cnt v)"

definition only_user :: "addr \<Rightarrow> addr \<Rightarrow> world \<Rightarrow> bool" where
  "only_user f d w \<longleftrightarrow> (\<forall>e. e \<noteq> d \<longrightarrow> timeout_func (wdcb w e) \<noteq> f)"

definition keeps_user :: "(addr \<Rightarrow> int \<Rightarrow> world \<Rightarrow> world) \<Rightarrow> addr \<Rightarrow> addr \<Rightarrow> bool" where
  "keeps_user call f d \<longleftrightarrow> (\<forall>g q v. only_user f d v \<longrightarrow> only_user f d (call g q v))"

lemma func_dec_ticks: "timeout_func (wdcb (upd_wdog a dec_ticks w) e) = timeout_func (wdcb w e)"
  by (cases "a \<in> dom (wdogs w)") (auto simp: wdcb_def upd_wdog_def dec_ticks_def split: option.split)

lemma only_user_tick_one: "keeps_user call f d \<Longrightarrow> only_user f d w \<Longrightarrow> only_user f d (tick_one call e w)"
  by (simp add: tick_one_def Let_def keeps_user_def only_user_def func_dec_ticks)

lemma only_user_fold: "keeps_user call f d \<Longrightarrow> only_user f d w \<Longrightarrow> only_user f d (fold (tick_one call) ds w)"
  by (induction ds arbitrary: w) (simp_all add: only_user_tick_one)

lemma count_tick_one:
  assumes "counts cnt call f p" and "only_user f d w" and "timeout_func (wdcb w d) = f" and "timeout_parm (wdcb w d) = p"
  shows "cnt (tick_one call e w) = cnt w + (if e = d \<and> expires (wdcb w d) then 1 else 0)"
proof (cases "e = d")
  case True
  then show ?thesis using assms by (auto simp: tick_one_def Let_def counts_def expires_def)
next
  case False
  then have "timeout_func (wdcb w e) \<noteq> f" using assms(2) by (simp add: only_user_def)
  then show ?thesis using False assms(1) by (auto simp: tick_one_def Let_def counts_def)
qed

text \<open>What happens to a watchdog \<open>d\<close> with its own function: other calls leave it alone, and a call
  of \<open>f\<close> with \<open>p\<close> changes it by \<open>R\<close>. A walk over the list then ticks it once.\<close>

definition touches ::
  "(addr \<Rightarrow> int \<Rightarrow> world \<Rightarrow> world) \<Rightarrow> addr \<Rightarrow> addr \<Rightarrow> int \<Rightarrow> (v2pt_wdog_t \<Rightarrow> v2pt_wdog_t) \<Rightarrow> bool" where
  "touches call d f p R \<longleftrightarrow> (\<forall>g q v. d \<in> set (wdog_list v) \<longrightarrow> wdogs (call g q v) d =
     (if g = f \<and> q = p then map_option R (wdogs v d) else wdogs v d))"

lemma touches_wdcb:
  "touches call d f p R \<Longrightarrow> d \<in> set (wdog_list v) \<Longrightarrow> d \<in> dom (wdogs v) \<Longrightarrow>
     wdcb (call g q v) d = (if g = f \<and> q = p then R (wdcb v d) else wdcb v d)"
  by (auto simp: touches_def wdcb_def)

definition tick_own :: "(v2pt_wdog_t \<Rightarrow> v2pt_wdog_t) \<Rightarrow> v2pt_wdog_t \<Rightarrow> v2pt_wdog_t" where
  "tick_own R x = (if expires x then R (dec_ticks x) else if ticks_remaining x > 0 then dec_ticks x else x)"

lemma own_tick_one:
  assumes "touches call d f p R" and "d \<in> dom (wdogs w)" and "only_user f d w" and "d \<in> set (wdog_list w)"
    and "timeout_func (wdcb w d) = f" and "timeout_parm (wdcb w d) = p"
  shows "wdcb (tick_one call e w) d = (if e = d then tick_own R (wdcb w d) else wdcb w d)"
proof (cases "e = d")
  case True
  then show ?thesis using assms touches_wdcb [OF assms(1), of "upd_wdog d dec_ticks w"]
    by (auto simp: tick_one_def Let_def tick_own_def expires_def dec_ticks_def simp del: domIff)
next
  case False
  then have "timeout_func (wdcb w e) \<noteq> f" using assms(3) by (simp add: only_user_def)
  then show ?thesis using False assms(2,4) touches_wdcb [OF assms(1), of "upd_wdog e dec_ticks w"]
    by (auto simp: tick_one_def Let_def simp del: domIff)
qed

lemma own_walk:
  assumes "keeps_list call" and "touches call d f p R" and "counts cnt call f p" and "keeps_user call f d"
    and R: "\<And>x. timeout_func x = f \<Longrightarrow> timeout_func (R x) = f" "\<And>x. timeout_parm x = p \<Longrightarrow> timeout_parm (R x) = p"
  shows "wd_wf w \<Longrightarrow> d \<in> set (wdog_list w) \<Longrightarrow> only_user f d w \<Longrightarrow> timeout_func (wdcb w d) = f \<Longrightarrow>
     timeout_parm (wdcb w d) = p \<Longrightarrow> distinct ds \<Longrightarrow>
     wdcb (fold (tick_one call) ds w) d = (if d \<in> set ds then tick_own R (wdcb w d) else wdcb w d)
     \<and> cnt (fold (tick_one call) ds w) = cnt w + (if d \<in> set ds \<and> expires (wdcb w d) then 1 else 0)"
proof (induction ds arbitrary: w)
  case Nil
  then show ?case by simp
next
  case (Cons e ds)
  let ?v = "tick_one call e w"
  have dom: "d \<in> dom (wdogs w)" using Cons.prems by (auto simp: wd_wf_def)
  note one = own_tick_one [OF assms(2) dom Cons.prems(3,2,4,5), of e]
  have own: "timeout_func (tick_own R x) = f" "timeout_parm (tick_own R x) = p"
    if "timeout_func x = f" "timeout_parm x = p" for x
    using that R by (simp_all add: tick_own_def dec_ticks_def)
  have "timeout_func (wdcb ?v d) = f" "timeout_parm (wdcb ?v d) = p"
    using one own Cons.prems(4,5) by simp_all
  then show ?case
    using Cons.IH [of ?v] keeps_list_tick_one [OF assms(1)] only_user_tick_one [OF assms(4)] Cons.prems one
      count_tick_one [OF assms(3) Cons.prems(3-5), of e] by auto
qed

lemma own_tick:
  assumes "keeps_list call" and "touches call d f p R" and "counts cnt call f p" and "keeps_user call f d"
    and R: "\<And>x. timeout_func x = f \<Longrightarrow> timeout_func (R x) = f" "\<And>x. timeout_parm x = p \<Longrightarrow> timeout_parm (R x) = p"
    and w: "wd_wf w" "d \<in> set (wdog_list w)" "only_user f d w" "timeout_func (wdcb w d) = f" "timeout_parm (wdcb w d) = p"
  shows "\<exists>v. process_timer_list call w = Some v \<and> wd_wf v \<and> d \<in> set (wdog_list v) \<and> only_user f d v
     \<and> wdcb v d = tick_own R (wdcb w d) \<and> timeout_func (wdcb v d) = f \<and> timeout_parm (wdcb v d) = p
     \<and> cnt v = cnt w + (if expires (wdcb w d) then 1 else 0)"
proof -
  let ?v = "fold (tick_one call) (wdog_list w) w"
  have "distinct (wdog_list w)" using w(1) by (simp add: wd_wf_def)
  with own_walk [OF assms(1-4) R w] w(2)
  have own: "wdcb ?v d = tick_own R (wdcb w d)" "cnt ?v = cnt w + (if expires (wdcb w d) then 1 else 0)"
    by simp_all
  moreover have "timeout_func (tick_own R (wdcb w d)) = f" "timeout_parm (tick_own R (wdcb w d)) = p"
    using w(4,5) R by (simp_all add: tick_own_def dec_ticks_def)
  ultimately show ?thesis
    using process_timer_list_fold [OF assms(1) w(1)] fold_tick_one_wf [OF assms(1)]
      only_user_fold [OF assms(4) w(3)] w(1,2) by (intro exI [of _ ?v]) simp
qed

section \<open>Properties of the watchdogs\<close>

text \<open>C17. One tick: as long as the timeout functions neither create nor delete watchdogs, the
  walk of \<^verbatim>\<open>process_timer_list\<close> over the list ends, treats every watchdog once and in the
  order of the list, and counts down by one every running watchdog that no timeout
  function touches.\<close>

theorem process_timer_list_terminates:
  assumes "wd_wf w" and "keeps_list call"
  shows "\<exists>w'. process_timer_list call w = Some w' \<and> w' = fold (tick_one call) (wdog_list w) w
     \<and> wd_wf w' \<and> wdog_list w' = wdog_list w
     \<and> (\<forall>d \<in> set (wdog_list w). leaves call d \<longrightarrow> ticks_remaining (wdcb w' d)
          = (if ticks_remaining (wdcb w d) > 0 then ticks_remaining (wdcb w d) - 1
             else ticks_remaining (wdcb w d)))"
proof -
  let ?w = "fold (tick_one call) (wdog_list w) w"
  have "ticks_remaining (wdcb ?w d) = (if ticks_remaining (wdcb w d) > 0
      then ticks_remaining (wdcb w d) - 1 else ticks_remaining (wdcb w d))"
    if "d \<in> set (wdog_list w)" and "leaves call d" for d
    using wdcb_fold_tick_one [OF assms(2) that(2) assms(1) that(1), of "wdog_list w"] assms(1) that(1)
    by (simp add: wd_wf_def dec_ticks_def)
  then show ?thesis
    using process_timer_list_fold [OF assms(2,1)] fold_tick_one_wf [OF assms(2)] assms(1) by blast
qed

text \<open>Two watchdogs, one running with three ticks to go, one stopped.\<close>

definition wd_world :: world where
  "wd_world = two_tasks\<lparr>wdogs := [600 \<mapsto> \<lparr>ticks_remaining = 3, timeout_func = 40, timeout_parm = 5\<rparr>,
      700 \<mapsto> \<lparr>ticks_remaining = 0, timeout_func = 41, timeout_parm = 6\<rparr>], wdog_list := [600, 700]\<rparr>"

lemma wd_world_wf: "wd_wf wd_world" "keeps_list (\<lambda>f p w. w)" "leaves (\<lambda>f p w. w) d"
  by (simp_all add: wd_wf_def wd_world_def keeps_list_def leaves_def)

theorem process_timer_list_terminates_witness:
  "\<exists>w'. process_timer_list (\<lambda>f p w. w) wd_world = Some w' \<and> ticks_remaining (wdcb w' 600) = 2"
proof -
  have "600 \<in> set (wdog_list wd_world)" "ticks_remaining (wdcb wd_world 600) = 3"
    by (simp_all add: wd_world_def wdcb_def)
  then show ?thesis
    using process_timer_list_terminates [OF wd_world_wf(1,2)] wd_world_wf(3) [of 600] by force
qed

text \<open>The state after \<open>n\<close> ticks.\<close>

fun run_ticks :: "(addr \<Rightarrow> int \<Rightarrow> world \<Rightarrow> world) \<Rightarrow> nat \<Rightarrow> world \<Rightarrow> world option" where
  "run_ticks call 0 w = Some w"
| "run_ticks call (Suc n) w = Option.bind (process_timer_list call w) (run_ticks call n)"

lemma run_ticks_once:
  assumes "keeps_list call" and "touches call d f p id" and "counts cnt call f p" and "keeps_user call f d" and "f \<noteq> NULL"
  shows "wd_wf w \<Longrightarrow> d \<in> set (wdog_list w) \<Longrightarrow> only_user f d w \<Longrightarrow> timeout_func (wdcb w d) = f \<Longrightarrow>
     timeout_parm (wdcb w d) = p \<Longrightarrow> ticks_remaining (wdcb w d) = int n \<Longrightarrow>
     \<exists>v. run_ticks call k w = Some v \<and> cnt v = cnt w + (if 0 < n \<and> n \<le> k then 1 else 0)"
proof (induction k arbitrary: w n)
  case 0
  then show ?case by simp
next
  case (Suc k)
  obtain u where u: "process_timer_list call w = Some u" "wd_wf u" "d \<in> set (wdog_list u)" "only_user f d u"
    "wdcb u d = tick_own id (wdcb w d)" "timeout_func (wdcb u d) = f" "timeout_parm (wdcb u d) = p"
    "cnt u = cnt w + (if expires (wdcb w d) then 1 else 0)"
    by (rule exE [OF own_tick [OF assms(1-4) _ _ Suc.prems(1-5)]]) auto
  have e: "expires (wdcb w d) \<longleftrightarrow> n = 1" using Suc.prems(4,6) assms(5) by (simp add: expires_def)
  then have "ticks_remaining (wdcb u d) = int (n - 1)"
    using u(5) Suc.prems(6) by (cases n) (simp_all add: tick_own_def dec_ticks_def)
  from Suc.IH [OF u(2-4,6,7) this] show ?case
    using u(1,8) e by (auto split: if_splits)
qed

lemma run_ticks_again:
  assumes "keeps_list call" and "touches call d f p R" and "counts cnt call f p" and "keeps_user call f d" and "f \<noteq> NULL"
    and R: "R = (\<lambda>x. x\<lparr>ticks_remaining := int n, timeout_func := f, timeout_parm := p\<rparr>)"
  shows "wd_wf w \<Longrightarrow> d \<in> set (wdog_list w) \<Longrightarrow> only_user f d w \<Longrightarrow> timeout_func (wdcb w d) = f \<Longrightarrow>
     timeout_parm (wdcb w d) = p \<Longrightarrow> ticks_remaining (wdcb w d) = int m \<Longrightarrow> 0 < m \<Longrightarrow> 0 < n \<Longrightarrow>
     \<exists>v. run_ticks call k w = Some v \<and> cnt v = cnt w + int (if k < m then 0 else 1 + (k - m) div n)"
proof (induction k arbitrary: w m)
  case 0
  then show ?case by simp
next
  case (Suc k)
  obtain u where u: "process_timer_list call w = Some u" "wd_wf u" "d \<in> set (wdog_list u)" "only_user f d u"
    "wdcb u d = tick_own R (wdcb w d)" "timeout_func (wdcb u d) = f" "timeout_parm (wdcb u d) = p"
    "cnt u = cnt w + (if expires (wdcb w d) then 1 else 0)"
    by (rule exE [OF own_tick [OF assms(1-4) _ _ Suc.prems(1-5)]]) (auto simp: R)
  have e: "expires (wdcb w d) \<longleftrightarrow> m = 1" using Suc.prems(4,6) assms(5) by (simp add: expires_def)
  then have t: "ticks_remaining (wdcb u d) = int (if m = 1 then n else m - 1)"
    using u(5) Suc.prems(6,7) by (simp add: tick_own_def dec_ticks_def R)
  have "(1 + (k - n) div n) = k div n" if "n \<le> k" using that Suc.prems(8) by (simp add: le_div_geq)
  then show ?case
    using Suc.IH [OF u(2-4,6,7) t] u(1,8) e Suc.prems(7,8) by (cases "m = 1") auto
qed

text \<open>A timeout function that starts its own watchdog again, as those of \<^verbatim>\<open>test_watchdog.c\<close> do.\<close>

definition restarts :: "(addr \<Rightarrow> int \<Rightarrow> world \<Rightarrow> world) \<Rightarrow> addr \<Rightarrow> addr \<Rightarrow> int \<Rightarrow> int \<Rightarrow> bool" where
  "restarts call d f parm delay \<longleftrightarrow> (\<forall>g q v. d \<in> set (wdog_list v) \<longrightarrow>
     wdogs (call g q v) d = (if g = f \<and> q = parm then wdogs (snd (wdStart 0 d delay f parm v)) d else wdogs v d))"

lemma touches_cases:
  "leaves call d \<Longrightarrow> touches call d f p id"
  "restarts call d f p delay \<Longrightarrow>
     touches call d f p (\<lambda>x. x\<lparr>ticks_remaining := wd_ticks delay, timeout_func := f, timeout_parm := p\<rparr>)"
  by (simp_all add: leaves_def touches_def option.map_id restarts_def wdStart_def wdog_valid_def upd_wdog_def)

text \<open>C12. A started watchdog calls its timeout function at half its delay. After \<^verbatim>\<open>wdStart\<close> every
  tick is completed, and with \<open>n = max 1 (delay / 2)\<close>: if the timeout functions leave this watchdog
  alone, its function has been called with its parameter once after \<open>k\<close> ticks if \<open>k\<close> has reached
  \<open>n\<close>, and not at all before; if its function starts the watchdog again with the same delay, it has
  been called \<open>k / n\<close> times. (\<open>cnt\<close> counts the calls; the timeout functions leave the list of
  watchdogs alone, and no other watchdog has this function.) The documentation says that the delay is
  in ticks of 10 ms, so that a delay of 25 should be 25 ticks; the code takes 12.\<close>

theorem watchdog_fires_at_half_delay:
  assumes "wd_wf w" and "d \<in> set (wdog_list w)" and "only_user f d w" and "f \<noteq> NULL"
    and "keeps_list call" and "keeps_user call f d" and "counts cnt call f parm"
    and "wdStart me d delay f parm w = (r, w0)" and "n = nat (max 1 (delay sdiv 2))"
  shows "r = OK
     \<and> (leaves call d \<longrightarrow>
          (\<forall>k. \<exists>v. run_ticks call k w0 = Some v \<and> cnt v = cnt w + (if n \<le> k then 1 else 0)))
     \<and> (restarts call d f parm delay \<longrightarrow>
          (\<forall>k. \<exists>v. run_ticks call k w0 = Some v \<and> cnt v = cnt w + int (k div n)))"
proof -
  have n: "wd_ticks delay = int n" "0 < n" using assms(9) by (simp_all add: wd_ticks_def Let_def)
  have w0: "w0 = upd_wdog d (\<lambda>d. d\<lparr>ticks_remaining := wd_ticks delay, timeout_func := f, timeout_parm := parm\<rparr>) w"
    and r: "r = OK"
    using assms(2,8) by (auto simp: wdStart_def wdog_valid_def)
  have dom: "d \<in> dom (wdogs w)" using assms(1,2) by (auto simp: wd_wf_def)
  have wf0: "wd_wf w0" "d \<in> set (wdog_list w0)" using assms(1,2) by (simp_all add: w0 wd_wf_def del: domIff)
  have u0: "only_user f d w0" using assms(3) by (simp add: only_user_def w0)
  have "wdcb w0 d = wdcb w d\<lparr>ticks_remaining := int n, timeout_func := f, timeout_parm := parm\<rparr>"
    unfolding w0 using dom n(1) by (simp del: domIff)
  then have cb: "timeout_func (wdcb w0 d) = f" "timeout_parm (wdcb w0 d) = parm" "ticks_remaining (wdcb w0 d) = int n"
    by simp_all
  have cnt: "cnt w0 = cnt w" using assms(7) by (simp add: counts_def w0)
  have "\<exists>v. run_ticks call k w0 = Some v \<and> cnt v = cnt w + (if n \<le> k then 1 else 0)" if "leaves call d" for k
    using run_ticks_once [OF assms(5) touches_cases(1) [OF that] assms(7,6,4) wf0 u0 cb, of k] n(2) cnt by simp
  moreover have "\<exists>v. run_ticks call k w0 = Some v \<and> cnt v = cnt w + int (k div n)" if "restarts call d f parm delay" for k
    using run_ticks_again [OF assms(5) touches_cases(2) [OF that] assms(7,6,4) _ wf0 u0 cb n(2,2), of k] n cnt
    by (cases "k < n") (simp_all add: le_div_geq)
  ultimately show ?thesis using r by blast
qed

text \<open>A timeout function that counts its calls in a cell no watchdog uses.\<close>

definition count_call :: "addr \<Rightarrow> int \<Rightarrow> world \<Rightarrow> world" where
  "count_call f p w = (if f = 42 \<and> p = 99 then set_errno 0 (errno w 0 + 1) w else w)"

lemma count_call_hyps:
  "keeps_list count_call" "leaves count_call d" "keeps_user count_call 42 600" "counts (\<lambda>w. errno w 0) count_call 42 99"
  by (simp_all add: keeps_list_def leaves_def keeps_user_def only_user_def counts_def count_call_def)

text \<open>The same, and the watchdog is started again with a delay of 25.\<close>

definition t_250_msec :: "addr \<Rightarrow> int \<Rightarrow> world \<Rightarrow> world" where
  "t_250_msec f p w = (if f = 42 \<and> p = 99 then set_errno 0 (errno w 0 + 1) (snd (wdStart 0 600 25 42 99 w)) else w)"

lemma t_250_msec_hyps:
  "keeps_list t_250_msec" "restarts t_250_msec 600 42 99 25" "keeps_user t_250_msec 42 600"
  "counts (\<lambda>w. errno w 0) t_250_msec 42 99"
proof -
  have u: "only_user 42 600 (upd_wdog 600 k v) = only_user 42 600 v" for k v by (simp add: only_user_def)
  show "keeps_list t_250_msec" "restarts t_250_msec 600 42 99 25"
    by (auto simp: t_250_msec_def keeps_list_def restarts_def wdStart_def simp del: domIff)
  show "keeps_user t_250_msec 42 600"
    using u by (auto simp: keeps_user_def t_250_msec_def wdStart_def) (simp_all add: only_user_def)
  show "counts (\<lambda>w. errno w 0) t_250_msec 42 99" by (auto simp: counts_def t_250_msec_def wdStart_def)
qed

theorem watchdog_fires_at_half_delay_witness:
  "(\<exists>v. run_ticks count_call 4 (snd (wdStart 7 600 10 42 99 wd_world)) = Some v \<and> errno v 0 = errno wd_world 0)
   \<and> (\<exists>v. run_ticks count_call 5 (snd (wdStart 7 600 10 42 99 wd_world)) = Some v \<and> errno v 0 = errno wd_world 0 + 1)
   \<and> (\<exists>v. run_ticks t_250_msec 25 (snd (wdStart 7 600 25 42 99 wd_world)) = Some v \<and> errno v 0 = errno wd_world 0 + 2)"
proof -
  have w: "600 \<in> set (wdog_list wd_world)" "only_user 42 600 wd_world"
    by (simp_all add: wd_world_def only_user_def wdcb_def zero_wdog_def)
  have s: "(10::int) sdiv 2 = 5" "(25::int) sdiv 2 = 12" by (simp_all add: signed_divide_int_def)
  note T = watchdog_fires_at_half_delay [OF wd_world_wf(1) w _ _ _ _ surjective_pairing refl, where me = 7]
  have F: "\<exists>v. run_ticks count_call k (snd (wdStart 7 600 10 42 99 wd_world)) = Some v
      \<and> errno v 0 = errno wd_world 0 + (if 5 \<le> k then 1 else 0)" for k
    using T [OF _ count_call_hyps(1,3,4), of 10] count_call_hyps(2) [of 600] s by simp
  have G: "\<exists>v. run_ticks t_250_msec k (snd (wdStart 7 600 25 42 99 wd_world)) = Some v
      \<and> errno v 0 = errno wd_world 0 + int (k div 12)" for k
    using T [OF _ t_250_msec_hyps(1,3,4), of 25] t_250_msec_hyps(2) s by simp
  show ?thesis using F [of 4] F [of 5] G [of 25] by simp
qed

section \<open>Properties of restarting\<close>

text \<open>The tasks are the same in states that differ in the watchdogs.\<close>

lemma task_for_wdogs [simp]:
  "task_for me tid (w\<lparr>wdogs := m\<rparr>) = task_for me tid w" "task_for me tid (w\<lparr>wdog_list := l\<rparr>) = task_for me tid w"
  "task_for me tid (w\<lparr>restart_wdog := b\<rparr>) = task_for me tid w" "task_for me tid (upd_wdog d f w) = task_for me tid w"
  by (rule task_for_eqI; simp add: tcb_def)+

lemma tcb_wdogs [simp]:
  "tcb (w\<lparr>wdogs := m\<rparr>) = tcb w" "tcb (w\<lparr>wdog_list := l\<rparr>) = tcb w" "tcb (w\<lparr>restart_wdog := b\<rparr>) = tcb w"
  "tcb (w\<lparr>threads := ts\<rparr>) = tcb w"
  by (simp_all add: tcb_def fun_eq_iff)

lemma selfRestart_eq:
  assumes "blk \<noteq> NULL"
  shows "selfRestart me starter blk junk t w =
     w\<lparr>wdog_list := wdog_list w @ [blk], restart_wdog := blk,
       wdogs := (wdogs w)(blk \<mapsto> \<lparr>ticks_remaining = 1, timeout_func = starter, timeout_parm = taskid (tcb w t)\<rparr>)\<rparr>"
  using assms
  by (cases junk) (simp add: selfRestart_def wdCreate_def link_wdog_def wdStart_def wdog_valid_def upd_wdog_def
      wd_ticks_def signed_divide_int_def)

text \<open>C40. Two tasks that restart themselves between two ticks: both use the one variable
  \<open>restart_wdog\<close>. In the next tick the watchdog of the first task restarts it and deletes the
  watchdog of the second; the second task is not restarted, then or ever.\<close>

theorem second_selfRestart_is_lost:
  assumes "wdog_list w = []" and "blk1 \<noteq> NULL" and "blk2 \<noteq> NULL" and "blk1 \<noteq> blk2" and "starter \<noteq> NULL"
    and "t1 \<noteq> t2" and "t1 \<in> dom (tasks w)" and "t1 \<noteq> NULL" and "task_for exc (taskid (tcb w t1)) w = t1"
    and "\<And>p v. call starter p v = self_starter exc p 0 thr v"
    and "w2 = selfRestart th2 starter blk2 junk2 t2 (selfRestart th1 starter blk1 junk1 t1 w)"
  shows "\<exists>w3. process_timer_list call w2 = Some w3
     \<and> pthrid (tcb w3 t1) = thr \<and> state (tcb w3 t1) = READY \<and> thr \<in> threads w3
     \<and> tcb w3 t2 = tcb w t2 \<and> (\<forall>n. run_ticks call n w3 = Some w3)"
proof -
  define d1 where "d1 = \<lparr>ticks_remaining = 1, timeout_func = starter, timeout_parm = taskid (tcb w t1)\<rparr>"
  define d2 where "d2 = \<lparr>ticks_remaining = 1, timeout_func = starter, timeout_parm = taskid (tcb w t2)\<rparr>"
  have w2: "w2 = w\<lparr>wdog_list := [blk1, blk2], restart_wdog := blk2, wdogs := (wdogs w)(blk1 \<mapsto> d1, blk2 \<mapsto> d2)\<rparr>"
    using assms(1-4,11) by (simp add: selfRestart_eq d1_def d2_def)
  have l2: "wdog_list w2 = [blk1, blk2]" by (simp add: w2)
  define v1 where "v1 = upd_wdog blk1 (\<lambda>d. d\<lparr>ticks_remaining := ticks_remaining d - 1\<rparr>) w2"
  have c1: "wdcb w2 blk1 = d1" using assms(4) by (simp add: w2 wdcb_def)
  have "blk1 \<in> dom (wdogs w2)" by (simp add: w2)
  then have c1': "wdcb v1 blk1 = d1\<lparr>ticks_remaining := 0\<rparr>" unfolding v1_def using c1 by (simp add: d1_def del: domIff)
  define v2 where "v2 = snd (wdDelete exc blk2 v1)"
  have v1: "wdog_list v1 = [blk1, blk2]" "restart_wdog v1 = blk2" "tcb v1 = tcb w" "tasks v1 = tasks w"
    "task_for exc (taskid (tcb w t1)) v1 = t1"
    using assms(9) by (simp_all add: v1_def w2)
  have v2: "wdog_list v2 = [blk1]" "tcb v2 = tcb w" "tasks v2 = tasks w" "wdogs v2 = (wdogs v1)(blk2 := None)"
    "task_for exc (taskid (tcb w t1)) v2 = t1"
    using v1 assms(4) by (simp_all add: v2_def wdDelete_def wdog_valid_def unlink_wdog_def)
  define w3 where "w3 = start_thread exc t1 0 thr v2"
  have "call starter (taskid (tcb w t1)) v1 = w3"
    using assms(8,10) v1(2) v2(5) by (simp add: self_starter_def Let_def w3_def flip: v2_def)
  then have s1: "process_tick_for call blk1 w2 = (blk2, w3)"
    using c1 c1' assms(5) l2 by (simp add: process_tick_for_def wdog_valid_def Let_def d1_def flip: v1_def)
  have w3: "wdog_list w3 = [blk1]" "wdogs w3 = wdogs v2"
    using v2 by (simp_all add: w3_def start_thread_def Let_def)
  have s2: "process_tick_for call blk2 w3 = (NULL, w3)"
    using w3 assms(4) by (simp add: process_tick_for_def wdog_valid_def)
  have walk: "process_timer_list call w2 = Some w3"
    using s1 s2 assms(2,3) by (simp add: process_timer_list_def w2 timer_loop.simps)
  have "wdcb w3 blk1 = wdcb v1 blk1" using w3(2) v2(4) assms(4) by (simp add: wdcb_def)
  then have "process_tick_for call blk1 w3 = (NULL, w3)"
    using w3 c1' by (simp add: process_tick_for_def wdog_valid_def)
  then have "process_timer_list call w3 = Some w3"
    using w3(1) assms(2) by (simp add: process_timer_list_def timer_loop.simps)
  then have again: "run_ticks call n w3 = Some w3" for n by (induction n) simp_all
  have "t1 \<in> dom (tasks v2)" using assms(7) v2(3) by simp
  then have "pthrid (tcb w3 t1) = thr" "state (tcb w3 t1) = READY" "thr \<in> threads w3"
    by (simp_all add: w3_def start_thread_def Let_def del: domIff)
  moreover have "tcb w3 t2 = tcb w t2"
    using assms(6) v2(2) by (simp add: w3_def start_thread_def Let_def)
  ultimately show ?thesis using walk again by blast
qed

theorem second_selfRestart_is_lost_witness:
  "\<exists>w3. process_timer_list (\<lambda>f p. self_starter 9 p 0 77)
       (selfRestart 8 40 700 zero_wdog 200 (selfRestart 7 40 600 zero_wdog 100 two_tasks)) = Some w3
     \<and> pthrid (tcb w3 100) = 77 \<and> tcb w3 200 = tcb two_tasks 200"
proof -
  have w: "wdog_list two_tasks = []" "100 \<in> dom (tasks two_tasks)" "task_for 9 (taskid (tcb two_tasks 100)) two_tasks = 100"
    by (simp_all add: demo_simps task_for_def)
  show ?thesis
    using second_selfRestart_is_lost [OF w(1), of 600 700 40 100 200 9 "\<lambda>f p. self_starter 9 p 0 77" 77 _ 8 zero_wdog 7 zero_wdog]
      w(2,3) by (auto simp del: domIff)
qed

text \<open>\<^verbatim>\<open>taskRestart\<close> of a task that does not exist fails with \<open>OBJ_ID_ERROR\<close>, but returns
  with the scheduler locked: every other thread stops at its next \<^verbatim>\<open>taskLock\<close>, until the
  caller unlocks the scheduler once more than it has locked it.\<close>

theorem taskRestart_unknown_leaves_lock:
  assumes "tid \<noteq> 0" and "task_for me tid w = NULL" and "me \<noteq> 0" and "locker w = 0" and "taskLock_level w = 0"
  shows "\<exists>w'. taskRestart me tid rc thr starter blk junk w = Done (Status ERROR, w')
     \<and> errno w' me = S_objLib_OBJ_ID_ERROR \<and> locker w' = me
     \<and> (\<forall>other. other \<noteq> me \<longrightarrow> taskLock other w' = Blocked) \<and> locker (taskUnlock me w') = 0"
proof -
  obtain w1 where w1: "taskLock me w = Done w1" using taskLock_Done_iff [of me w] assms(4) by auto
  let ?w = "set_errno me S_objLib_OBJ_ID_ERROR w1"
  have "task_for me tid w1 = NULL" using taskLock_task_for [OF w1] assms(2) by simp
  then have "taskRestart me tid rc thr starter blk junk w = Done (Status ERROR, ?w)"
    using w1 assms(1) by (simp add: taskRestart_def finish_def)
  moreover have lk: "locker ?w = me" "taskLock_level ?w = 1"
    using taskLock_frame(1,2) [OF w1] assms(5) by (simp_all add: level_up_def)
  moreover have "taskLock other ?w = Blocked" if "other \<noteq> me" for other
    using that lk assms(3) by (auto simp: taskLock_eq)
  moreover have "locker (taskUnlock me ?w) = 0" using taskUnlock_level(2) [OF lk(1)] lk(2) by simp
  ultimately show ?thesis by (intro exI [of _ ?w]) simp
qed

theorem taskRestart_unknown_leaves_lock_witness:
  "\<exists>w'. taskRestart 7 99 0 70 40 600 zero_wdog two_tasks = Done (Status ERROR, w') \<and> locker w' = 7"
proof -
  have "task_for 7 99 two_tasks = NULL" "locker two_tasks = 0" "taskLock_level two_tasks = 0"
    by (simp_all add: demo_simps task_for_def)
  then show ?thesis
    using taskRestart_unknown_leaves_lock [of 99 7 two_tasks 0 70 40 600 zero_wdog] by auto
qed

text \<open>The operations keep the list well formed, and a deleted watchdog cannot be used.\<close>

lemma wd_wf_operations:
  assumes "wd_wf w"
  shows "blk \<notin> dom (wdogs w) \<Longrightarrow> wd_wf (snd (wdCreate blk junk w))"
    and "wd_wf (snd (wdCancel me d w))" and "wd_wf (snd (wdStart me d delay f parm w))"
    and "wd_wf (snd (wdDelete me d w))"
proof -
  show "wd_wf (snd (wdCreate blk junk w))" if "blk \<notin> dom (wdogs w)"
    using assms that by (auto simp: wdCreate_def wd_wf_def link_wdog_def)
  show "wd_wf (snd (wdCancel me d w))" "wd_wf (snd (wdStart me d delay f parm w))"
    using assms by (simp_all add: wdCancel_def wdStart_def wd_wf_def del: domIff)
  show "wd_wf (snd (wdDelete me d w))"
    using assms by (auto simp: wdDelete_def wd_wf_def unlink_wdog_def dest: notin_set_remove1)
qed

lemma wdDelete_stale:
  assumes "wd_wf w" and "wdDelete me d w = (OK, w')"
  shows "fst (wdStart th d delay f parm w') = ERROR" and "fst (wdCancel th d w') = ERROR"
    and "fst (wdDelete th d w') = ERROR" and "e \<noteq> d \<Longrightarrow> wdog_valid e w' = wdog_valid e w"
proof -
  have w': "wdog_list w' = wdog_list (unlink_wdog d w)"
    using assms(2) by (auto simp: wdDelete_def split: if_split_asm)
  then have "\<not> wdog_valid d w'"
    using wd_registry.stale_handle [of w d] assms(1) by (simp add: wdog_valid_def wd_wf_def)
  then show "fst (wdStart th d delay f parm w') = ERROR" "fst (wdCancel th d w') = ERROR"
    "fst (wdDelete th d w') = ERROR"
    by (simp_all add: wdStart_def wdCancel_def wdDelete_def)
  show "wdog_valid e w' = wdog_valid e w" if "e \<noteq> d"
    using wd_registry.other_handle [OF that, of w] w' by (simp add: wdog_valid_def)
qed

end
