(* ===== verification/Kernel_Lib.thy ===== *)
theory Kernel_Lib
  imports Wd_Lib
begin

text \<open>
  The kernel part of the library, \<^verbatim>\<open>lib/lkernelLib.c\<close> and \<^verbatim>\<open>lib/main_impl.c\<close>: round-robin
  scheduling, the exception task that drives the watchdogs, and the start of the system
  (\<^verbatim>\<open>v2lin_init\<close>, \<^verbatim>\<open>main\<close> and \<^verbatim>\<open>root_task\<close>); and the names of the error codes
  (\<^verbatim>\<open>VxWorksError\<close> of \<^verbatim>\<open>lib/ltaskLib.c\<close>).

  The static and automatic control blocks of the system tasks are given by their
  addresses, the entry points by theirs; \<open>nb\<close> is the block \<open>malloc\<close> returns for a task
  name, \<open>rc\<close> and \<open>thr\<close> are the result of \<open>pthread_create\<close> and the new thread.
\<close>


section \<open>Round-robin scheduling\<close>

definition disableRoundRobin :: "world \<Rightarrow> world" where
  "disableRoundRobin w = w\<lparr>round_robin_enabled := False\<rparr>"

definition enableRoundRobin :: "world \<Rightarrow> world" where
  "enableRoundRobin w = w\<lparr>round_robin_enabled := True\<rparr>"

definition roundRobinIsEnabled :: "world \<Rightarrow> bool" where
  "roundRobinIsEnabled w = round_robin_enabled w"

definition set_policy :: "sched_policy \<Rightarrow> addr \<Rightarrow> world \<Rightarrow> world" where
  "set_policy policy task w =
     (upd_task task (\<lambda>t. t\<lparr>attr_policy := policy\<rparr>) w)
       \<lparr>thr_sched := (thr_sched w)(pthrid (tcb w task) \<mapsto> (policy, attr_priority (tcb w task)))\<rparr>"

definition kernelTimeSlice :: "pthread \<Rightarrow> int \<Rightarrow> world \<Rightarrow> (int \<times> world) outcome" where
  "kernelTimeSlice me ticks_per_quantum w =
     obind (taskLock me w) (\<lambda>w1.
       let w2 = w1\<lparr>round_robin_enabled := (ticks_per_quantum \<noteq> 0)\<rparr>;
           policy = (if ticks_per_quantum = 0 then SCHED_FIFO else SCHED_RR);
           w3 = fold (set_policy policy) (task_list w2) w2
       in Done (OK, taskUnlock me w3))"


section \<open>The system tasks\<close>

text \<open>One round of the exception task: a walk over the watchdogs, then the start of the
  delay of a tick. \<open>None\<close> is a walk that does not end.\<close>

definition exception_task :: "(addr \<Rightarrow> int \<Rightarrow> world \<Rightarrow> world) \<Rightarrow> pthread \<Rightarrow> world \<Rightarrow> world option" where
  "exception_task call me w = map_option (taskDelay_begin me) (process_timer_list call w)"

definition set_priority :: "addr \<Rightarrow> int \<Rightarrow> world \<Rightarrow> world" where
  "set_priority task prio w = upd_task task (\<lambda>t. t\<lparr>prv_priority := prio, attr_priority := prio\<rparr>) w"

text \<open>The start of the exception task.\<close>

definition start_excp :: "pthread \<Rightarrow> addr \<Rightarrow> addr \<Rightarrow> addr \<Rightarrow> int \<Rightarrow> pthread \<Rightarrow> world \<Rightarrow> world outcome" where
  "start_excp me excp entry nb rc thr w =
     obind (taskInit me excp (Some ''tExcTask'') 0 0 entry (replicate 10 0) nb w) (\<lambda>(_, w1).
       let w2 = set_priority excp (prio_max w1 SCHED_FIFO - 1) w1
       in obind (taskActivate me (taskid (tcb w2 excp)) rc thr w2) (\<lambda>(_, w3). Done w3))"

definition v2lin_init ::
  "pthread \<Rightarrow> addr \<Rightarrow> addr \<Rightarrow> addr \<Rightarrow> addr \<Rightarrow> addr \<Rightarrow> int \<Rightarrow> pthread \<Rightarrow> world \<Rightarrow> (int \<times> world) outcome" where
  "v2lin_init me root nb excp entry nb' rc thr w =
     obind (taskInit me root (Some ''tUsrRoot'') 0 0 NULL (replicate 10 0) nb w) (\<lambda>(_, w1).
       let w2 = set_priority root (prio_max w1 SCHED_FIFO) w1;
           w3 = upd_task root (\<lambda>t. t\<lparr>state := READY, pthrid := me\<rparr>) w2
       in obind (taskActivate me (taskid (tcb w3 root)) 0 0 w3) (\<lambda>(_, w4).
            obind (start_excp me excp entry nb' rc thr w4) (\<lambda>w5. Done (0, w5))))"

text \<open>\<^verbatim>\<open>main\<close> up to the call of \<^verbatim>\<open>user_syskill\<close>, and \<^verbatim>\<open>root_task\<close>, which runs in the thread
  \<open>main\<close> creates, up to the call of \<^verbatim>\<open>user_sysinit\<close>.\<close>

definition main_start ::
  "pthread \<Rightarrow> addr \<Rightarrow> addr \<Rightarrow> addr \<Rightarrow> int \<Rightarrow> pthread \<Rightarrow> world \<Rightarrow> world outcome" where
  "main_start me rt entry nb rc thr w =
     obind (taskInit me rt (Some ''tUsrRoot'') 0 0 entry (replicate 10 0) nb w) (\<lambda>(_, w1).
       let w2 = set_priority rt (prio_max w1 SCHED_FIFO) w1
       in obind (taskActivate me (taskid (tcb w2 rt)) rc thr w2) (\<lambda>(_, w3).
            Done (set_errno me 0 w3)))"

definition root_task_start :: "pthread \<Rightarrow> addr \<Rightarrow> addr \<Rightarrow> addr \<Rightarrow> int \<Rightarrow> pthread \<Rightarrow> world \<Rightarrow> world outcome" where
  "root_task_start me excp entry nb rc thr w = start_excp me excp entry nb rc thr w"


section \<open>Error names\<close>

text \<open>\<open>strerror\<close> is the function of the C library.\<close>

definition VxWorksError :: "(int \<Rightarrow> string) \<Rightarrow> int \<Rightarrow> string" where
  "VxWorksError strerror status =
     (if status = S_memLib_NOT_ENOUGH_MEMORY then ''S_memLib_NOT_ENOUGH_MEMORY''
      else if status = S_msgQLib_INVALID_MSG_LENGTH then ''S_msgQLib_INVALID_MSG_LENGTH''
      else if status = S_objLib_OBJ_DELETED then ''S_objLib_OBJ_DELETED''
      else if status = S_objLib_OBJ_ID_ERROR then ''S_objLib_OBJ_ID_ERROR''
      else if status = S_objLib_OBJ_TIMEOUT then ''S_objLib_OBJ_TIMEOUT''
      else if status = S_objLib_OBJ_UNAVAILABLE then ''S_objLib_OBJ_UNAVAILABLE''
      else if status = S_semLib_INVALID_OPERATION then ''S_semLib_INVALID_OPERATION''
      else if status = S_smObjLib_NOT_INITIALIZED then ''S_smObjLib_NOT_INITIALIZED''
      else if status = S_taskLib_ILLEGAL_PRIORITY then ''S_taskLib_ILLEGAL_PRIORITY''
      else strerror status)"


section \<open>Lemmas\<close>

text \<open>Every code of the library has a name of its own.\<close>

lemma VxWorksError_names:
  "inj_on (VxWorksError s) {S_memLib_NOT_ENOUGH_MEMORY, S_msgQLib_INVALID_MSG_LENGTH, S_objLib_OBJ_DELETED,
     S_objLib_OBJ_ID_ERROR, S_objLib_OBJ_TIMEOUT, S_objLib_OBJ_UNAVAILABLE, S_semLib_INVALID_OPERATION,
     S_smObjLib_NOT_INITIALIZED, S_taskLib_ILLEGAL_PRIORITY}"
  by (simp add: VxWorksError_def vxw_codes)

lemma set_policy_fold_frame:
  "task_list (fold (set_policy p) ts w) = task_list w" "locker (fold (set_policy p) ts w) = locker w"
  "taskLock_level (fold (set_policy p) ts w) = taskLock_level w"
  "round_robin_enabled (fold (set_policy p) ts w) = round_robin_enabled w"
  by (induction ts arbitrary: w) (simp_all add: set_policy_def)

lemma set_policy_fold:
  "distinct ts \<Longrightarrow> set ts \<subseteq> dom (tasks w) \<Longrightarrow>
     tcb (fold (set_policy p) ts w) a = (if a \<in> set ts then tcb w a\<lparr>attr_policy := p\<rparr> else tcb w a)"
proof (induction ts arbitrary: w)
  case (Cons t ts)
  have "tcb (set_policy p t w) b = (if b = t then tcb w t\<lparr>attr_policy := p\<rparr> else tcb w b)" for b
    using Cons.prems(2) by (simp add: set_policy_def del: domIff)
  moreover have "set ts \<subseteq> dom (tasks (set_policy p t w))"
    using Cons.prems(2) by (simp add: set_policy_def del: domIff)
  ultimately show ?case using Cons.IH [of "set_policy p t w"] Cons.prems(1) by auto
qed simp

text \<open>\<^verbatim>\<open>kernelTimeSlice\<close> gives every task the policy, and every task that is created later, and
  leaves the scheduler lock as it was.\<close>

lemma kernelTimeSlice_policy:
  assumes "task_wf w" and "lock_wf w" and "me \<noteq> 0" and "locker w = 0 \<or> locker w = me"
    and "unat (taskLock_level w) + 1 < 2 ^ 64"
  shows "\<exists>w'. kernelTimeSlice me n w = Done (OK, w') \<and> roundRobinIsEnabled w' = (n \<noteq> 0)
     \<and> (\<forall>t \<in> set (task_list w). attr_policy (tcb w' t) = (if n = 0 then SCHED_FIFO else SCHED_RR))
     \<and> attr_policy (fst (init_tcb w' a nm pri opts f args nb)) = (if n = 0 then SCHED_FIFO else SCHED_RR)
     \<and> locker w' = locker w \<and> taskLock_level w' = taskLock_level w"
proof -
  obtain w1 where w1: "taskLock me w = Done w1" using taskLock_Done_iff assms(4) by blast
  note F = taskLock_frame [OF w1]
  define p where "p = (if n = 0 then SCHED_FIFO else SCHED_RR)"
  define w2 where "w2 = w1\<lparr>round_robin_enabled := (n \<noteq> 0)\<rparr>"
  let ?w3 = "fold (set_policy p) (task_list w2) w2"
  let ?w' = "taskUnlock me ?w3"
  have wf: "distinct (task_list w2)" "set (task_list w2) \<subseteq> dom (tasks w2)"
    using taskLock_wf [OF w1 assms(1)] by (simp_all add: task_wf_def w2_def)
  have "kernelTimeSlice me n w = Done (OK, ?w')"
    using w1 by (simp add: kernelTimeSlice_def Let_def w2_def p_def)
  moreover have rr: "round_robin_enabled ?w' = (n \<noteq> 0)" by (simp add: set_policy_fold_frame w2_def)
  moreover have "attr_policy (tcb ?w' t) = p" if "t \<in> set (task_list w)" for t
    using set_policy_fold [OF wf, of p t] that F(3) by (simp add: taskUnlock_field w2_def)
  moreover have "locker ?w' = locker w" "taskLock_level ?w' = taskLock_level w"
    by (rule lock_balanced [OF w1 assms(2,3,5)]; simp add: set_policy_fold_frame w2_def)+
  moreover have "attr_policy (fst (init_tcb ?w' a nm pri opts f args nb)) = p"
    using rr by (simp add: init_tcb_def Let_def p_def split: prod.split)
  ultimately show ?thesis by (intro exI [of _ ?w']) (simp add: roundRobinIsEnabled_def p_def)
qed

text \<open>A task is initialised with the priority 0.\<close>

lemma legal_priority_no_error: "0 \<le> v \<Longrightarrow> v \<le> 255 \<Longrightarrow> snd (translate_priority w v p OK) = OK"
  by (simp add: translate_priority_def Let_def vxw_codes)

lemma taskInit_zero:
  assumes "task \<noteq> NULL"
  shows "\<exists>t. taskInit me task name 0 0 f args nb w =
       Done (OK, w\<lparr>tasks := (tasks w)(task \<mapsto> t), task_list := task_list w @ [task]\<rparr>)
     \<and> taskid t = s32 (int task) \<and> state t = DEAD \<and> pthrid t = 0 \<and> entry_point t = f"
proof -
  obtain t e where te: "init_tcb w task name 0 0 f args nb = (t, e)" by fastforce
  have "e = OK"
    using te legal_priority_no_error [of 0 w "if round_robin_enabled w then SCHED_RR else SCHED_FIFO"]
    by (auto simp: init_tcb_def Let_def split: prod.split_asm)
  moreover have "taskid t = s32 (int task)" "state t = DEAD" "pthrid t = 0" "entry_point t = f"
    using te by (auto simp: init_tcb_def Let_def split: prod.split_asm)
  ultimately show ?thesis using te assms by (intro exI [of _ t]) (simp add: taskInit_def finish_def)
qed

text \<open>\<^verbatim>\<open>taskActivate\<close> from an unlocked scheduler, for a task that has its thread and for one that
  gets it.\<close>

lemma unlocked_again:
  assumes "taskLock me w = Done w1" and "locker w = 0" and "taskLock_level w = 0" and "me \<noteq> 0"
    and "locker w2 = locker w1" and "taskLock_level w2 = taskLock_level w1"
  shows "locker (taskUnlock me w2) = 0" and "taskLock_level (taskUnlock me w2) = 0"
  using lock_balanced [OF assms(1) _ assms(4) _ assms(5,6)] assms(2,3) by (simp_all add: lock_wf_def)

lemma taskActivate_ready:
  assumes "task_for me tid w = t" and "t \<noteq> NULL" and "state (tcb w t) \<noteq> DEAD"
    and "locker w = 0" and "taskLock_level w = 0" and "me \<noteq> 0"
  obtains w' where "taskActivate me tid rc thr w = Done (OK, w')" and "task_list w' = task_list w"
    and "dom (tasks w') = dom (tasks w)" and "locker w' = 0" and "taskLock_level w' = 0"
    and "prio_max w' = prio_max w"
    and "\<And>a. pthrid (tcb w' a) = pthrid (tcb w a) \<and> prv_priority (tcb w' a) = prv_priority (tcb w a)
           \<and> taskid (tcb w' a) = taskid (tcb w a)"
proof -
  obtain w1 where w1: "taskLock me w = Done w1" using taskLock_Done_iff [of me w] assms(4) by auto
  note F = taskLock_frame [OF w1] taskLock_fields [OF w1]
  have "taskActivate me tid rc thr w = Done (OK, taskUnlock me w1)"
    using w1 assms(1-3) taskLock_task_for [OF w1] F by (simp add: taskActivate_def finish_def Let_def)
  then show thesis
    using unlocked_again [OF w1 assms(4-6) refl refl] F
    by (intro that [of "taskUnlock me w1"]) (simp_all add: taskUnlock_field)
qed

lemma taskActivate_dead:
  assumes "task_for me tid w = t" and "t \<noteq> NULL" and "t \<in> dom (tasks w)" and "state (tcb w t) = DEAD"
    and "locker w = 0" and "taskLock_level w = 0" and "me \<noteq> 0"
  obtains w' where "taskActivate me tid 0 thr w = Done (OK, w')" and "task_list w' = task_list w"
    and "locker w' = 0" and "taskLock_level w' = 0" and "thr \<in> threads w'" and "pthrid (tcb w' t) = thr"
    and "\<And>a. prv_priority (tcb w' a) = prv_priority (tcb w a) \<and> entry_point (tcb w' a) = entry_point (tcb w a)"
    and "\<And>a. a \<noteq> t \<Longrightarrow> pthrid (tcb w' a) = pthrid (tcb w a)"
proof -
  obtain w1 where w1: "taskLock me w = Done w1" using taskLock_Done_iff [of me w] assms(5) by auto
  note F = taskLock_frame [OF w1] taskLock_fields [OF w1]
  let ?w2 = "upd_task t (\<lambda>t. t\<lparr>state := READY, pthrid := 0\<rparr>) w1"
  let ?w3 = "(upd_task t (\<lambda>t. t\<lparr>pthrid := thr\<rparr>) ?w2)\<lparr>threads := insert thr (threads ?w2),
     thr_sched := (thr_sched ?w2)(thr := thr_sched ?w2 me)\<rparr>"
  have "taskActivate me tid 0 thr w = Done (OK, taskUnlock me ?w3)"
    using w1 assms(1,2,4) taskLock_task_for [OF w1] F by (simp add: taskActivate_def finish_def Let_def)
  moreover have "entry_point (tcb w1 a) = entry_point (tcb w a)" for a
    using w1 by (rule taskLock_field) simp
  moreover have "t \<in> dom (tasks w1)" using assms(3) F(4) by simp
  ultimately show thesis
    using unlocked_again [OF w1 assms(5-7), of ?w3] F
    by (intro that [of "taskUnlock me ?w3"]) (simp_all add: taskUnlock_field tcb_upd_field del: domIff)
qed

section \<open>The start of the system\<close>

lemma v2lin_init_result:
  assumes "task_list w = []" and "locker w = 0" and "taskLock_level w = 0" and "me \<noteq> 0"
    and "root \<noteq> NULL" and "excp \<noteq> NULL" and "root \<noteq> excp" and "s32 (int root) \<noteq> 0" and "s32 (int excp) \<noteq> 0"
    and "s32 (int root) \<noteq> s32 (int excp)"
  shows "\<exists>w'. v2lin_init me root nb excp entry nb' 0 thr w = Done (0, w') \<and> task_list w' = [root, excp]
     \<and> pthrid (tcb w' root) = me \<and> prv_priority (tcb w' root) = prio_max w SCHED_FIFO
     \<and> pthrid (tcb w' excp) = thr \<and> prv_priority (tcb w' excp) = prio_max w SCHED_FIFO - 1
     \<and> entry_point (tcb w' excp) = entry \<and> thr \<in> threads w' \<and> locker w' = 0 \<and> taskLock_level w' = 0"
proof -
  obtain t where t: "taskInit me root (Some ''tUsrRoot'') 0 0 NULL (replicate 10 0) nb w =
      Done (OK, w\<lparr>tasks := (tasks w)(root \<mapsto> t), task_list := [root]\<rparr>)" "taskid t = s32 (int root)"
    using taskInit_zero [OF assms(5), of me "Some ''tUsrRoot''" NULL "replicate 10 0" nb w] assms(1) by auto
  let ?w1 = "w\<lparr>tasks := (tasks w)(root \<mapsto> t), task_list := [root]\<rparr>"
  define w3 where "w3 = upd_task root (\<lambda>t. t\<lparr>state := READY, pthrid := me\<rparr>)
      (set_priority root (prio_max w SCHED_FIFO) ?w1)"
  have r3: "tcb w3 root = t\<lparr>prv_priority := prio_max w SCHED_FIFO, attr_priority := prio_max w SCHED_FIFO,
      state := READY, pthrid := me\<rparr>" "task_list w3 = [root]" "locker w3 = 0" "taskLock_level w3 = 0"
    "prio_max w3 = prio_max w" "root \<in> dom (tasks w3)"
    using assms(2,3) by (simp_all add: w3_def set_priority_def tcb_def upd_task_def)
  have tf: "task_for me (taskid (tcb w3 root)) w3 = root"
    using r3 t(2) assms(8) by (simp add: task_for_def)
  have "state (tcb w3 root) \<noteq> DEAD" using r3(1) by (simp add: vxw_codes)
  from taskActivate_ready [OF tf assms(5) this r3(3,4) assms(4), of 0 0] obtain w4 where
    a4: "taskActivate me (taskid (tcb w3 root)) 0 0 w3 = Done (OK, w4)" "task_list w4 = task_list w3"
    "dom (tasks w4) = dom (tasks w3)" "locker w4 = 0" "taskLock_level w4 = 0" "prio_max w4 = prio_max w3"
    "\<And>a. pthrid (tcb w4 a) = pthrid (tcb w3 a) \<and> prv_priority (tcb w4 a) = prv_priority (tcb w3 a)
       \<and> taskid (tcb w4 a) = taskid (tcb w3 a)" by metis
  have w4: "taskActivate me (taskid (tcb w3 root)) 0 0 w3 = Done (OK, w4)"
    "task_list w4 = [root]" "dom (tasks w4) = dom (tasks w3)" "locker w4 = 0" "taskLock_level w4 = 0"
    "prio_max w4 = prio_max w" "pthrid (tcb w4 root) = me"
    "prv_priority (tcb w4 root) = prio_max w SCHED_FIFO" "taskid (tcb w4 root) = s32 (int root)"
    using a4 a4(7) [of root] r3 t(2) by (simp_all del: domIff)
  obtain u where u: "taskInit me excp (Some ''tExcTask'') 0 0 entry (replicate 10 0) nb' w4 =
      Done (OK, w4\<lparr>tasks := (tasks w4)(excp \<mapsto> u), task_list := [root, excp]\<rparr>)" "taskid u = s32 (int excp)"
    "state u = DEAD" "entry_point u = entry"
    using taskInit_zero [OF assms(6), of me "Some ''tExcTask''" entry "replicate 10 0" nb' w4] w4(2) by auto
  let ?w5 = "w4\<lparr>tasks := (tasks w4)(excp \<mapsto> u), task_list := [root, excp]\<rparr>"
  define w6 where "w6 = set_priority excp (prio_max w4 SCHED_FIFO - 1) ?w5"
  have r6: "tcb w6 excp = u\<lparr>prv_priority := prio_max w SCHED_FIFO - 1, attr_priority := prio_max w SCHED_FIFO - 1\<rparr>"
    "tcb w6 root = tcb w4 root" "task_list w6 = [root, excp]" "locker w6 = 0" "taskLock_level w6 = 0"
    "excp \<in> dom (tasks w6)"
    using assms(7) w4 by (simp_all add: w6_def set_priority_def tcb_def upd_task_def)
  have tf6: "task_for me (taskid (tcb w6 excp)) w6 = excp"
    using r6 u(2) w4(9) assms(9,10) by (simp add: task_for_def)
  have "state (tcb w6 excp) = DEAD" using r6(1) u(3) by simp
  with taskActivate_dead [OF tf6 assms(6) r6(6) _ r6(4,5) assms(4), of thr] obtain w7 where
    w7: "taskActivate me (taskid (tcb w6 excp)) 0 thr w6 = Done (OK, w7)" "task_list w7 = task_list w6"
    "locker w7 = 0" "taskLock_level w7 = 0" "thr \<in> threads w7" "pthrid (tcb w7 excp) = thr"
    "\<And>a. prv_priority (tcb w7 a) = prv_priority (tcb w6 a) \<and> entry_point (tcb w7 a) = entry_point (tcb w6 a)"
    "\<And>a. a \<noteq> excp \<Longrightarrow> pthrid (tcb w7 a) = pthrid (tcb w6 a)"
    by metis
  have "start_excp me excp entry nb' 0 thr w4 = Done w7"
    using u(1) w7(1) by (simp add: start_excp_def Let_def flip: w6_def)
  then have "v2lin_init me root nb excp entry nb' 0 thr w = Done (0, w7)"
    using t(1) w4(1) by (simp add: v2lin_init_def Let_def flip: w3_def)
  then show ?thesis
    using w7 r6 w4(7,8) u(4) assms(7) by (intro exI [of _ w7]) simp
qed

text \<open>C21. \<^verbatim>\<open>v2lin_init\<close> in a fresh process returns 0 and starts the system: the task list holds the
  root task, which is the calling thread at the highest priority, and after it the exception
  task, which has the thread created for it, its entry point and the priority below; and the
  scheduler is unlocked. (The control blocks must be at addresses whose lower 32 bits differ,
  since these are the task identifiers.)\<close>

theorem v2lin_init_starts:
  assumes "task_list w = []" and "locker w = 0" and "taskLock_level w = 0" and "me \<noteq> 0"
    and "root \<noteq> NULL" and "excp \<noteq> NULL" and "root \<noteq> excp" and "s32 (int root) \<noteq> 0" and "s32 (int excp) \<noteq> 0"
    and "s32 (int root) \<noteq> s32 (int excp)"
  shows "\<exists>w'. v2lin_init me root nb excp entry nb' 0 thr w = Done (0, w') \<and> task_list w' = [root, excp]
     \<and> pthrid (tcb w' root) = me \<and> prv_priority (tcb w' root) = prio_max w SCHED_FIFO
     \<and> pthrid (tcb w' excp) = thr \<and> prv_priority (tcb w' excp) = prio_max w SCHED_FIFO - 1
     \<and> entry_point (tcb w' excp) = entry \<and> thr \<in> threads w' \<and> locker w' = 0"
  using v2lin_init_result [OF assms] by blast

theorem v2lin_init_starts_witness:
  "\<exists>w'. v2lin_init 7 100 300 200 40 301 0 8 (two_tasks\<lparr>tasks := Map.empty, task_list := []\<rparr>) = Done (0, w')
     \<and> task_list w' = [100, 200] \<and> pthrid (tcb w' 200) = 8 \<and> entry_point (tcb w' 200) = 40"
proof -
  let ?w = "two_tasks\<lparr>tasks := Map.empty, task_list := []\<rparr>"
  have "task_list ?w = []" "locker ?w = 0" "taskLock_level ?w = 0" by (simp_all add: demo_simps)
  moreover have "s32 (int 100) = 100" "s32 (int 200) = 200" by (simp_all add: s32_def)
  ultimately show ?thesis
    using v2lin_init_starts [of ?w 7 100 200 300 40 301 8] by auto
qed

end
