(* ===== verification/Stable.thy ===== *)
theory Stable
  imports MsgQ_Lib Kernel_Lib
begin

text \<open>
  What a component leaves alone. A predicate of the state that cannot be broken by the
  elementary updates a component makes is kept by every operation of the component; this is
  proved here once per component, in a locale whose assumptions name the elementary updates,
  and is used in theory \<open>System\<close> for the invariants of the other components.
  \<^item> \<open>stable_core\<close>: scheduler lock, \<open>errno\<close> and the state bits of tasks, which all parts of
    the library touch;
  \<^item> \<open>stable_sem\<close>, \<open>stable_queue\<close>: the semaphores (\<^verbatim>\<open>lsemLib.c\<close>) and the message queues
    (\<^verbatim>\<open>lmsgQLib.c\<close>) on top of it;
  \<^item> \<open>stable_task\<close>: the task API (\<^verbatim>\<open>ltaskLib.c\<close>), for predicates that do not depend on the
    tasks at all;
  \<^item> \<open>stable_wd\<close>, \<open>stable_restart\<close>: the watchdogs (\<^verbatim>\<open>lwdLib.c\<close>) and the restart of tasks.
\<close>


section \<open>Predicates that a component cannot break\<close>

locale stable_core =
  fixes P :: "world \<Rightarrow> bool"
  assumes lock: "taskLock me w = Done w' \<Longrightarrow> me \<noteq> 0 \<Longrightarrow> P w \<Longrightarrow> P w'"
    and unlock: "me \<noteq> 0 \<Longrightarrow> P w \<Longrightarrow> P (taskUnlock me w)"
    and errno: "P w \<Longrightarrow> P (set_errno me e w)"
    and task_state: "P w \<Longrightarrow> P (upd_task a (\<lambda>t. t\<lparr>state := f (state t)\<rparr>) w)"
begin

lemma finish: "finish me e w = Done (r, w') \<Longrightarrow> P w \<Longrightarrow> P w'"
  by (auto simp: finish_Done errno)

lemma ret_status: "ret_status me e w = Done (c, w') \<Longrightarrow> P w \<Longrightarrow> P w'"
  by (auto simp: ret_status_Done errno)

lemma taskDelay:
  assumes "P w"
  shows "P (taskDelay_begin me w)" and "P (taskDelay_end t w)"
  using assms task_state [of w "my_task me w" "\<lambda>s. s OR DELAY"] task_state [of w t "\<lambda>s. s AND NOT DELAY"]
  unfolding taskDelay_begin_def taskDelay_end_def Let_def by simp_all

lemma lock_unlock: "taskLock me w = Done w' \<Longrightarrow> me \<noteq> 0 \<Longrightarrow> P w \<Longrightarrow> P (taskUnlock me w')"
  using lock [of me w w'] unlock [of me w'] by blast

end

locale stable_sem = stable_core +
  assumes waiting: "P w \<Longrightarrow> P (upd_task a (\<lambda>t. t\<lparr>waiting := x\<rparr>) w)"
    and sched: "P w \<Longrightarrow> P (set_sched a (prv_priority (tcb w b)) w)"
    and safe: "taskSafe me w = Done (r, w') \<Longrightarrow> me \<noteq> 0 \<Longrightarrow> P w \<Longrightarrow> P w'"
    and unsafe: "taskUnsafe me w = Done (c, w') \<Longrightarrow> me \<noteq> 0 \<Longrightarrow> P w \<Longrightarrow> P w'"
    and sems: "P w \<Longrightarrow> P (w\<lparr>sems := m\<rparr>)"
    and sem_list: "P w \<Longrightarrow> P (w\<lparr>sem_list := l\<rparr>)"
begin

lemma upd_sem: "P w \<Longrightarrow> P (upd_sem s f w)"
  by (simp add: upd_sem_def sems)

lemma susp:
  assumes "P w"
  shows "P (link_susp_task (SemSusp s) t w)" and "P (unlink_susp_task (SemSusp s) t w)"
  using assms task_state [OF upd_sem [OF assms], of t "\<lambda>s. s OR PEND"]
    task_state [OF upd_sem [OF assms], of t "\<lambda>s. s AND NOT PEND"]
  unfolding link_susp_task_def unlink_susp_task_def set_susp.simps by simp_all

lemma create:
  "semBCreate me opt i blk w = (a, w') \<Longrightarrow> P w \<Longrightarrow> P w'"
  "semCCreate me opt i blk w = (a, w') \<Longrightarrow> P w \<Longrightarrow> P w'"
  "semMCreate me opt blk w = (a, w') \<Longrightarrow> P w \<Longrightarrow> P w'"
  by (auto simp: semBCreate_def semCCreate_def semMCreate_def link_smcb_def Let_def
      intro!: errno sem_list sems split: if_split_asm)

lemma free_sem: "P w \<Longrightarrow> P (free_sem s w)"
  by (simp add: free_sem_def unlink_smcb_def sem_list sems)

lemma delete:
  "semDelete me s w = Done (c, w') \<Longrightarrow> me \<noteq> 0 \<Longrightarrow> P w \<Longrightarrow> P w'"
  "semDelete_resume me s w = Done (c, w') \<Longrightarrow> me \<noteq> 0 \<Longrightarrow> P w \<Longrightarrow> P w'"
  by (auto simp: semDelete_def semDelete_resume_def obind_Done_iff
      elim!: ret_status dest: lock intro!: unlock free_sem upd_sem split: if_split_asm)

lemma flush:
  "semFlush me s w = Done (c, w') \<Longrightarrow> me \<noteq> 0 \<Longrightarrow> P w \<Longrightarrow> P w'"
  "semFlush_resume me s w = Done (c, w') \<Longrightarrow> me \<noteq> 0 \<Longrightarrow> P w \<Longrightarrow> P w'"
  by (auto simp: semFlush_def semFlush_resume_def obind_Done_iff
      elim!: ret_status dest: lock intro!: unlock upd_sem split: if_split_asm)

lemma give_tail: "give_tail me s w = Done (c, w') \<Longrightarrow> me \<noteq> 0 \<Longrightarrow> P w \<Longrightarrow> P w'"
  by (auto simp: give_tail_def outcome_simps elim!: ret_status dest: unsafe lock intro!: unlock
      split: if_split_asm)

lemma give:
  assumes "semGive me s w = Done (c, w')" and "me \<noteq> 0" and "P w"
  shows "P w'"
proof -
  consider e where "ret_status me e w = Done (c, w')"
    | f where "give_tail me s (upd_sem s f w) = Done (c, w')"
    | f e where "ret_status me e (upd_sem s f w) = Done (c, w')"
    using assms(1) by (auto simp: semGive_def obind_Done_iff Let_def upd_sem_comp split: if_split_asm)
  then show ?thesis
    using assms(2,3) ret_status give_tail upd_sem by cases blast+
qed

lemma take_return: "take_return me t e w = Done (r, w') \<Longrightarrow> P w \<Longrightarrow> P w'"
  by (auto simp: take_return_def obind_Done_iff Let_def elim!: finish intro: waiting split: if_split_asm)

lemma take_exit:
  assumes "take_exit me fr w = Done (r, w')" and "me \<noteq> 0" and "P w"
  shows "P w'"
proof -
  let ?w1 = "unlink_susp_task (SemSusp (tf_sem fr)) (tf_task fr) w"
  consider e where "take_return me (tf_task fr) e ?w1 = Done (r, w')"
    | e f where "take_return me (tf_task fr) e (upd_sem (tf_sem fr) f ?w1) = Done (r, w')"
    | e f q v where "taskSafe me (upd_sem (tf_sem fr) f ?w1) = Done (q, v)"
      "take_return me (tf_task fr) e v = Done (r, w')"
    using assms(1) unfolding take_exit_def Let_def upd_sem_comp
    by (auto simp: obind_Done_iff split: if_split_asm)
  then show ?thesis
    using assms(2) susp(2) [OF assms(3)] take_return upd_sem safe by cases blast+
qed

lemma token: 
  "token_loop me s w = (p, w') \<Longrightarrow> P w \<Longrightarrow> P w'" "waiting_on_sem me s w = (p, w') \<Longrightarrow> P w \<Longrightarrow> P w'"
  by (auto simp: waiting_on_sem_def token_loop_def intro: upd_sem split: if_split_asm)

lemma take_poll: "take_poll me fr (p, w) = Done (r, w') \<Longrightarrow> me \<noteq> 0 \<Longrightarrow> P w \<Longrightarrow> P w'"
  by (cases p) (auto simp: take_poll_def elim!: take_exit intro: taskDelay split: if_split_asm)

lemma inversion: "priority_inversion me s t w = Done w' \<Longrightarrow> me \<noteq> 0 \<Longrightarrow> P w \<Longrightarrow> P w'"
  by (auto simp: priority_inversion_def obind_Done_iff Let_def dest: lock intro!: unlock sched
      split: if_split_asm)

lemma wait_for_token:
  assumes "wait_for_token me s n t now w = Done (r, w')" and "me \<noteq> 0" and "P w"
  shows "P w'"
proof -
  from wait_for_token_polls [OF assms(1)] obtain fr w3 where
    w3: "w3 = link_susp_task (SemSusp s) t w \<or> priority_inversion me s t (link_susp_task (SemSusp s) t w) = Done w3"
    and p: "take_poll me fr (waiting_on_sem me s w3) = Done (r, w')"
    by metis
  have "P w3" using w3 assms(2,3) inversion susp(1) by blast
  then show ?thesis using p assms(2) token(2) take_poll by (cases "waiting_on_sem me s w3") metis
qed

lemma take:
  assumes "semTake me s n now w = Done (r, w')" and "me \<noteq> 0" and "P w"
  shows "P w'"
proof -
  have w1: "P (if my_task me w \<noteq> NULL then upd_task (my_task me w) (\<lambda>t. t\<lparr>waiting := s\<rparr>) w else w)"
    using assms(3) by (simp add: waiting)
  show ?thesis
    using assms(1) w1 assms(2,3) unfolding semTake_def Let_def
    by (auto simp: obind_Done_iff elim!: finish take_return wait_for_token intro: upd_sem split: if_split_asm)
qed

lemma take_resume:
  assumes "semTake_wake me rc fr w = Done (r, w') \<or> semTake_tick me now fr w = Done (r, w')"
    and "me \<noteq> 0" and "P w"
  shows "P w'"
proof -
  obtain f p v where "take_poll me f (p, v) = Done (r, w')" and "P v"
  proof (cases "semTake_wake me rc fr w = Done (r, w')")
    case True
    then show ?thesis
      using that token(2) [of me "tf_sem fr" w] assms(3)
      by (cases "waiting_on_sem me (tf_sem fr) w") (auto simp: semTake_wake_def Let_def split: if_split_asm)
  next
    case False
    let ?w = "taskDelay_end (my_task me w) w"
    obtain q v where q: "token_loop me (tf_sem fr) ?w = (q, v)" by fastforce
    have "take_poll me fr (Still, ?w) = Done (r, w') \<or> take_poll me fr (q, v) = Done (r, w')"
      using False assms(1) q by (auto simp: semTake_tick_def Let_def split: if_split_asm)
    then show ?thesis using that taskDelay(2) token(1) [OF q] assms(3) by blast
  qed
  then show ?thesis using assms(2) take_poll by blast
qed

end

locale stable_queue = stable_core +
  assumes queues: "P w \<Longrightarrow> P (w\<lparr>queues := m\<rparr>)"
    and mqueue_list: "P w \<Longrightarrow> P (w\<lparr>mqueue_list := l\<rparr>)"
begin

lemma upd_queue: "P w \<Longrightarrow> P (upd_queue q f w)"
  by (simp add: upd_queue_def queues)

lemma susp:
  assumes "P w"
  shows "P (link_susp_task (QueueSusp q) t w)" and "P (unlink_susp_task (QueueSusp q) t w)"
    and "P (link_susp_task (QueueWriteSusp q) t w)" and "P (unlink_susp_task (QueueWriteSusp q) t w)"
  using assms task_state [OF upd_queue [OF assms], of t "\<lambda>s. s OR PEND"]
    task_state [OF upd_queue [OF assms], of t "\<lambda>s. s AND NOT PEND"]
  unfolding link_susp_task_def unlink_susp_task_def set_susp.simps by simp_all

lemma create: "msgQCreate me n len opt blk data w = Done (a, w') \<Longrightarrow> P w \<Longrightarrow> P w'"
  by (auto simp: msgQCreate_def obind_Done_iff Let_def link_qcb_def intro!: errno mqueue_list queues
      split: if_split_asm option.split_asm)

lemma send_return: "send_return me e w = Done (s, w') \<Longrightarrow> P w \<Longrightarrow> P w'"
  by (auto simp: send_return_def obind_Done_iff elim!: finish)

lemma post:
  "obind (post_msg a msg n pri w) (send_return me e) = Done (s, w') \<Longrightarrow> P w \<Longrightarrow> P w'"
  by (auto simp: post_msg_def obind_Done_iff elim!: send_return intro!: upd_queue)

lemma send_poll: "send_poll me fr p w = (s, w') \<Longrightarrow> P w \<Longrightarrow> P w'"
  by (auto simp: send_poll_def intro!: upd_queue taskDelay split: poll.split_asm if_split_asm)

lemma waitToSend: "waitToSend me a msg n wait pri now w = Done (s, w') \<Longrightarrow> P w \<Longrightarrow> P w'"
  by (auto simp: waitToSend_def Let_def elim!: send_return intro!: susp split: if_split_asm)

lemma send: "msgQSend me a msg n wait pri now w = Done (s, w') \<Longrightarrow> P w \<Longrightarrow> P w'"
  by (auto simp: msgQSend_def obind_Done_iff [of "mqueue_find_lock a w"] Let_def
      elim!: send_return waitToSend post split: if_split_asm)

lemma send_rest:
  "msgQSend_poll me fr w = Done (s, w') \<Longrightarrow> P w \<Longrightarrow> P w'"
  "msgQSend_wake me rc fr w = Done (s, w') \<Longrightarrow> P w \<Longrightarrow> P w'"
  "msgQSend_tick me now fr w = Done (s, w') \<Longrightarrow> P w \<Longrightarrow> P w'"
  "msgQSend_killed me fr w = Done (s, w') \<Longrightarrow> P w \<Longrightarrow> P w'"
  by (auto simp: msgQSend_poll_def msgQSend_wake_def msgQSend_tick_def msgQSend_killed_def Let_def
      obind_Done_iff elim!: send_poll send_return intro!: upd_queue taskDelay split: if_split_asm)

lemma send_relock: "msgQSend_relock me fr w = Done (s, w') \<Longrightarrow> P w \<Longrightarrow> P w'"
  by (auto simp: msgQSend_relock_def Let_def elim!: post send_return intro!: upd_queue susp
      split: if_split_asm)

lemma recv_return: "recv_return me e w = Done (r, w') \<Longrightarrow> P w \<Longrightarrow> P w'"
  by (auto simp: recv_return_def errno)

lemma recv_exit: "recv_exit me fr w = Done (r, w') \<Longrightarrow> P w \<Longrightarrow> P w'"
  by (auto simp: recv_exit_def Let_def obind_Done_iff elim!: recv_return intro!: upd_queue susp
      split: if_split_asm)

lemma recv_poll: "recv_poll me fr p w = Done (r, w') \<Longrightarrow> P w \<Longrightarrow> P w'"
  by (auto simp: recv_poll_def elim!: recv_exit intro!: taskDelay split: poll.split_asm if_split_asm)

lemma recv_start: "recv_start me now fr w = Done (r, w') \<Longrightarrow> P w \<Longrightarrow> P w'"
  by (simp add: recv_start_def recv_poll)

lemma receive: "msgQReceive me a buf n wait now w = Done (r, w') \<Longrightarrow> P w \<Longrightarrow> P w'"
  by (auto simp: msgQReceive_def obind_Done_iff Let_def elim!: recv_return recv_start
      intro!: upd_queue susp split: if_split_asm)

lemma receive_rest:
  "msgQReceive_space me now fr w = Done (r, w') \<Longrightarrow> P w \<Longrightarrow> P w'"
  "msgQReceive_wake me rc fr w = Done (r, w') \<Longrightarrow> P w \<Longrightarrow> P w'"
  "msgQReceive_tick me now fr w = Done (r, w') \<Longrightarrow> P w \<Longrightarrow> P w'"
  "msgQReceive_killed me fr w = Done (r, w') \<Longrightarrow> P w \<Longrightarrow> P w'"
  "msgQReceive_full me fr n bs w = Done (r, w') \<Longrightarrow> P w \<Longrightarrow> P w'"
  by (auto simp: msgQReceive_space_def msgQReceive_wake_def msgQReceive_tick_def msgQReceive_killed_def
      msgQReceive_full_def Let_def obind_Done_iff elim!: recv_start recv_poll recv_return
      intro!: upd_queue taskDelay split: if_split_asm)

lemma free: "msgQDelete_free me q w = Done (d, w') \<Longrightarrow> me \<noteq> 0 \<Longrightarrow> P w \<Longrightarrow> P w'"
  by (auto simp: msgQDelete_free_def delete_mqueue_def unlink_qcb_def intro!: unlock queues mqueue_list)

lemma delete_wait: "msgQDelete_wait me q w = Done (d, w') \<Longrightarrow> me \<noteq> 0 \<Longrightarrow> P w \<Longrightarrow> P w'"
  by (auto simp: msgQDelete_wait_def elim!: free intro!: upd_queue split: if_split_asm)

lemma delete_space: "msgQDelete_space me q w = Done (d, w') \<Longrightarrow> me \<noteq> 0 \<Longrightarrow> P w \<Longrightarrow> P w'"
  by (auto simp: msgQDelete_space_def elim!: delete_wait split: if_split_asm)

lemma delete_lock: "msgQDelete_lock me q w = Done (d, w') \<Longrightarrow> me \<noteq> 0 \<Longrightarrow> P w \<Longrightarrow> P w'"
  by (auto simp: msgQDelete_lock_def elim!: free delete_space dest: lock intro!: upd_queue
      split: if_split_asm outcome.split_asm)

lemma delete: "msgQDelete me q w = Done (d, w') \<Longrightarrow> me \<noteq> 0 \<Longrightarrow> P w \<Longrightarrow> P w'"
  by (auto simp: msgQDelete_def obind_Done_iff elim!: delete_lock finish intro!: upd_queue
      split: if_split_asm)

end

locale stable_task =
  fixes P :: "world \<Rightarrow> bool"
  assumes indep: "P (w\<lparr>tasks := ts\<rparr>) = P w" "P (w\<lparr>task_list := ks\<rparr>) = P w" "P (w\<lparr>locker := lk\<rparr>) = P w"
      "P (w\<lparr>taskLock_level := lv\<rparr>) = P w" "P (w\<lparr>threads := th\<rparr>) = P w" "P (w\<lparr>thr_sched := sc\<rparr>) = P w"
      "P (w\<lparr>round_robin_enabled := rr\<rparr>) = P w" "P (w\<lparr>errno := er\<rparr>) = P w"
    and sem_susp: "P (upd_sem s (\<lambda>x. x\<lparr>sem_first_susp := xs\<rparr>) w) = P w"
begin

lemma basic [simp]:
  "P (upd_task a f w) = P w" "P (set_sched a p w) = P w" "P (set_errno me e w) = P w"
  "P (taskUnlock me w) = P w" "P (taskDelay_begin me w) = P w" "P (taskDelay_end a w) = P w"
  "P (link_susp_task (SemSusp s) a w) = P w" "P (unlink_susp_task (SemSusp s) a w) = P w"
  "P (link_susp_task (TaskSusp b) a w) = P w" "P (unlink_susp_task (TaskSusp b) a w) = P w"
proof -
  show u: "P (upd_task a f w) = P w" for a f w by (simp add: upd_task_def indep)
  show s: "P (set_sched a p w) = P w" for a p w by (simp add: set_sched_def indep u)
  show "P (set_errno me e w) = P w" by (simp add: set_errno_def indep)
  show "P (taskUnlock me w) = P w" by (simp add: taskUnlock_def Let_def indep s)
  show "P (taskDelay_begin me w) = P w" "P (taskDelay_end a w) = P w"
    by (simp_all add: taskDelay_begin_def taskDelay_end_def Let_def u)
  show "P (link_susp_task (SemSusp s) a w) = P w" "P (unlink_susp_task (SemSusp s) a w) = P w"
    "P (link_susp_task (TaskSusp b) a w) = P w" "P (unlink_susp_task (TaskSusp b) a w) = P w"
    by (simp_all add: link_susp_task_def unlink_susp_task_def u sem_susp)
qed

lemma lock: "taskLock me w = Done w' \<Longrightarrow> P w' = P w"
  by (auto simp: taskLock_def Let_def indep split: if_split_asm)

lemma finish: "finish me e w = Done (r, w') \<Longrightarrow> P w' = P w"
  by (auto simp: finish_Done)

lemma ret_status: "ret_status me e w = Done (c, w') \<Longrightarrow> P w' = P w"
  by (auto simp: ret_status_Done)

lemma safe: "taskSafe me w = Done (r, w') \<Longrightarrow> P w' = P w"
  by (auto simp: taskSafe_def obind_Done_iff Let_def dest: lock split: if_split_asm)

lemma unsafe: "taskUnsafe me w = Done (r, w') \<Longrightarrow> P w' = P w"
  by (auto simp: taskUnsafe_def outcome_simps Let_def dest: lock split: if_split_asm)

lemma task_delete [simp]: "P (task_delete t w) = P w"
  by (simp add: task_delete_def Let_def indep)

lemma cancel_join: "cancel_join t w = Done w' \<Longrightarrow> P w' = P w"
  by (auto simp: cancel_join_def indep split: if_split_asm)

lemma deleteForce: "taskDeleteForce me tid w = Done (c, w') \<Longrightarrow> P w' = P w"
  by (auto simp: taskDeleteForce_def outcome_simps Let_def task_delete_unlock_def
      dest!: ret_status lock cancel_join split: if_split_asm)

lemma delete: "taskDelete me tid w = Done (c, w') \<Longrightarrow> P w' = P w"
  by (auto simp: taskDelete_def outcome_simps Let_def task_pend_delete_def
      dest!: ret_status lock deleteForce split: if_split_asm)

lemma delete_resume: "taskDelete_resume me self t w = Done (c, w') \<Longrightarrow> P w' = P w"
  by (auto simp: taskDelete_resume_def task_pend_delete_resume_def outcome_simps
      dest!: ret_status lock split: if_split_asm)

lemma init: "taskInit me a name pri opts f args nb w = Done (r, w') \<Longrightarrow> P w' = P w"
  by (erule taskInit_cases) (simp_all add: indep)

lemma activate: "taskActivate me tid rc thr w = Done (r, w') \<Longrightarrow> P w' = P w"
  by (erule taskActivate_cases) (simp_all add: lock indep)

lemma spawn:
  assumes "taskSpawn me name pri opts f args blk nb rc thr w = Done (r, w')"
  shows "P w' = P w"
  using assms
proof (cases rule: taskSpawn_Done)
  case (1 nm e w1 w2 e' w3)
  have "P w1 = P w" using init [OF 1(2)] by (simp add: indep)
  moreover have "P w2 = P w1" using 1(3) by (simp add: indep)
  moreover have "P w3 = P w2" using 1(4) by (rule activate)
  ultimately show ?thesis using 1(5) by auto
qed

lemma prioritySet: "taskPrioritySet me tid pri w = Done (r, w') \<Longrightarrow> P w' = P w"
  by (auto simp: taskPrioritySet_def obind_Done_iff Let_def dest!: finish lock
      split: if_split_asm prod.split_asm)

lemma queries:
  "taskPriorityGet me tid w = Done (r, q, w') \<Longrightarrow> P w' = P w"
  "taskIdListGet me n w = Done (ids, w') \<Longrightarrow> P w' = P w"
  by (auto simp: taskPriorityGet_def taskIdListGet_def obind_Done_iff Let_def dest!: lock split: if_split_asm)

lemma cleanup: "P (task_wrapper_cleanup me w) = P w"
  by (simp add: task_wrapper_cleanup_def indep)

lemma wrapper_begin: "P (snd (task_wrapper_begin me t w)) = P w"
  by (simp add: task_wrapper_begin_def Let_def)

lemma wrapper_end: "task_wrapper_end me t w = Done (c, w') \<Longrightarrow> P w' = P w"
  by (auto simp: task_wrapper_end_def Let_def cleanup dest: deleteForce split: if_split_asm)

lemma step: "task_step w w' \<Longrightarrow> P w' = P w"
  by (induction rule: task_step.induct)
    (auto dest: lock safe unsafe init activate spawn deleteForce delete delete_resume prioritySet queries
      wrapper_end simp: cleanup wrapper_begin)

text \<open>Round-robin scheduling and the start of a thread touch the tasks only.\<close>

lemma timeSlice: "kernelTimeSlice me n w = Done (r, w') \<Longrightarrow> P w' = P w"
proof -
  have fold: "P (fold (set_policy p) ts v) = P v" for p ts v
    by (induction ts arbitrary: v) (simp_all add: set_policy_def indep)
  show "kernelTimeSlice me n w = Done (r, w') \<Longrightarrow> P w' = P w"
    by (auto simp: kernelTimeSlice_def obind_Done_iff Let_def indep fold dest: lock)
qed

lemma start_thread: "P (start_thread me t rc thr w) = P w"
  by (simp add: start_thread_def Let_def indep)

end

sublocale stable_task \<subseteq> core: stable_core
  by unfold_locales (simp_all add: lock)

locale stable_wd =
  fixes P :: "world \<Rightarrow> bool"
  assumes wd_indep: "P (w\<lparr>wdogs := ds\<rparr>) = P w" "P (w\<lparr>wdog_list := ks\<rparr>) = P w"
      "P (w\<lparr>restart_wdog := b\<rparr>) = P w" "P (w\<lparr>errno := er\<rparr>) = P w"
begin

lemma wd_operations:
  "P (snd (wdCreate blk junk w)) = P w" "P (snd (wdCancel me d w)) = P w" "P (snd (wdDelete me d w)) = P w"
  "P (snd (wdStart me d delay f parm w)) = P w"
  by (simp_all add: wdCreate_def link_wdog_def wdCancel_def wdDelete_def unlink_wdog_def wdStart_def
      upd_wdog_def set_errno_def wd_indep)

lemma tick: "P (snd (process_tick_for (\<lambda>f p v. v) d w)) = P w"
  by (simp add: process_tick_for_def Let_def upd_wdog_def wd_indep)

lemma selfRestart: "P (selfRestart me starter blk junk t w) = P w"
proof -
  have "P (snd (wdStart me e n f q (v\<lparr>restart_wdog := e\<rparr>))) = P v" for e n f q v
    by (simp add: wd_operations wd_indep)
  moreover have "P (snd (wdCreate blk junk w)) = P w" by (rule wd_operations)
  ultimately show ?thesis
    by (cases "wdCreate blk junk w") (simp add: selfRestart_def Let_def wd_indep)
qed

end

locale stable_restart = stable_task + stable_wd
begin

lemma starter: "P (self_starter me tid rc thr w) = P w"
  by (simp add: self_starter_def Let_def start_thread wd_operations)

lemma restart: "taskRestart me tid rc thr starter blk junk w = Done (r, w') \<Longrightarrow> P w' = P w"
  by (auto simp: taskRestart_def obind_Done_iff Let_def selfRestart cleanup indep start_thread
      dest!: lock cancel_join finish split: if_split_asm prod.split_asm)

end

end
