(* ===== verification/System.thy ===== *)
theory System
  imports Stable
begin

text \<open>
  The library as one transition system: the steps of the task API, the semaphores, the
  message queues, the watchdogs and the kernel, by any threads in any order, and the
  invariants of the components in every state the system can reach. A component's own steps
  keep its invariant by the lemmas of its theory; the steps of the others keep it by the
  interpretations of the locales of theory \<open>Stable\<close>.
\<close>


section \<open>The steps of the system\<close>

text \<open>The code relies on three conditions that it does not test. A \<open>usage\<close> says which of them a
  program keeps: \<open>queue_limits\<close>, the limits of \<open>mq_step\<close> (sensible parameters of
  \<^verbatim>\<open>msgQCreate\<close>, and a sender that goes on after its wait still finds a free element);
  \<open>task_callers\<close>, \<^verbatim>\<open>semTake\<close> and \<^verbatim>\<open>semGive\<close> are called by threads that have a task, and no mutex
  is nested deeper than an \<^verbatim>\<open>int\<close> can count; and \<open>no_self_restart\<close>, no task restarts itself
  (such a task leaves its control block with the identifier of a thread that has ended until
  the watchdog restarts it). A condition that is not kept excludes no step.\<close>

record usage =
  queue_limits :: bool
  task_callers :: bool
  no_self_restart :: bool

text \<open>Calls of the semaphore functions, with the frames of the sleeping calls given: a frame
  names the task of the caller.\<close>

inductive sem_op :: "bool \<Rightarrow> world \<Rightarrow> world \<Rightarrow> bool" for tasks_only where
  BCreate: "blk \<notin> dom (sems w) \<Longrightarrow> semBCreate me opt i blk w = (a, w') \<Longrightarrow> sem_op tasks_only w w'"
| CCreate: "blk \<notin> dom (sems w) \<Longrightarrow> in_s32 i \<Longrightarrow> semCCreate me opt i blk w = (a, w') \<Longrightarrow> sem_op tasks_only w w'"
| MCreate: "blk \<notin> dom (sems w) \<Longrightarrow> semMCreate me opt blk w = (a, w') \<Longrightarrow> sem_op tasks_only w w'"
| Give: "me \<noteq> 0 \<Longrightarrow> (tasks_only \<longrightarrow> my_task me w \<noteq> NULL) \<Longrightarrow> semGive me s w = Done (c, w') \<Longrightarrow> sem_op tasks_only w w'"
| Take: "me \<noteq> 0 \<Longrightarrow> (tasks_only \<longrightarrow> my_task me w \<noteq> NULL \<and> recursion_level (smcb w s) < 2147483647) \<Longrightarrow>
    semTake me s n now w = Done (r, w') \<Longrightarrow> sem_op tasks_only w w'"
| Wake: "me \<noteq> 0 \<Longrightarrow> (tasks_only \<longrightarrow> tf_task fr \<noteq> NULL) \<Longrightarrow> semTake_wake me rc fr w = Done (r, w') \<Longrightarrow> sem_op tasks_only w w'"
| TickOver: "me \<noteq> 0 \<Longrightarrow> (tasks_only \<longrightarrow> tf_task fr \<noteq> NULL) \<Longrightarrow> semTake_tick me now fr w = Done (r, w') \<Longrightarrow> sem_op tasks_only w w'"
| Delete: "me \<noteq> 0 \<Longrightarrow> semDelete me s w = Done (c, w') \<Longrightarrow> sem_op tasks_only w w'"
| DeleteResume: "me \<noteq> 0 \<Longrightarrow> semDelete_resume me s w = Done (c, w') \<Longrightarrow> sem_op tasks_only w w'"
| Flush: "me \<noteq> 0 \<Longrightarrow> semFlush me s w = Done (c, w') \<Longrightarrow> sem_op tasks_only w w'"
| FlushResume: "me \<noteq> 0 \<Longrightarrow> semFlush_resume me s w = Done (c, w') \<Longrightarrow> sem_op tasks_only w w'"

text \<open>The watchdogs. A tick of one watchdog is a step up to the call of its timeout function;
  what that function does is steps of its own, \<^verbatim>\<open>self_starter\<close> among them. A task that
  restarts another one, or itself, is a step too.\<close>

inductive wd_op :: "world \<Rightarrow> world \<Rightarrow> bool" where
  Create: "blk \<notin> dom (wdogs w) \<Longrightarrow> wdCreate blk junk w = (a, w') \<Longrightarrow> wd_op w w'"
| Cancel: "wdCancel me d w = (r, w') \<Longrightarrow> wd_op w w'"
| Delete: "wdDelete me d w = (r, w') \<Longrightarrow> wd_op w w'"
| Start: "in_s32 delay \<Longrightarrow> wdStart me d delay f parm w = (r, w') \<Longrightarrow> wd_op w w'"
| Tick: "process_tick_for (\<lambda>f p v. v) d w = (n, w') \<Longrightarrow> wd_op w w'"

inductive restart_op :: "bool \<Rightarrow> world \<Rightarrow> world \<Rightarrow> bool" for others_only where
  Starter: "thr \<noteq> 0 \<Longrightarrow> thr \<notin> threads w \<Longrightarrow> restart_op others_only w (self_starter me tid rc thr w)"
| Restart: "me \<noteq> 0 \<Longrightarrow> thr \<noteq> 0 \<Longrightarrow> thr \<notin> threads w \<Longrightarrow> blk \<notin> dom (wdogs w) \<Longrightarrow>
    (others_only \<longrightarrow> r \<noteq> ThreadEnds) \<Longrightarrow>
    taskRestart me tid rc thr starter blk junk w = Done (r, w') \<Longrightarrow> restart_op others_only w w'"

text \<open>The kernel: round-robin scheduling, and the start of the system tasks. The thread that
  calls \<^verbatim>\<open>v2lin_init\<close> exists, the control blocks are the two static variables, and
  \<^verbatim>\<open>main_impl.c\<close> calls it before there is a task.\<close>

inductive kernel_op :: "world \<Rightarrow> world \<Rightarrow> bool" where
  TimeSlice: "me \<noteq> 0 \<Longrightarrow> kernelTimeSlice me n w = Done (r, w') \<Longrightarrow> kernel_op w w'"
| RoundRobin: "w' = enableRoundRobin w \<or> w' = disableRoundRobin w \<Longrightarrow> kernel_op w w'"
| Init: "me \<noteq> 0 \<Longrightarrow> me \<in> threads w \<Longrightarrow> task_list w = [] \<Longrightarrow> root \<noteq> NULL \<Longrightarrow> root \<noteq> excp \<Longrightarrow>
    thr \<noteq> 0 \<Longrightarrow> thr \<notin> threads w \<Longrightarrow>
    v2lin_init me root nb excp entry nb' rc thr w = Done (r, w') \<Longrightarrow> kernel_op w w'"
| Main: "me \<noteq> 0 \<Longrightarrow> rt \<notin> set (task_list w) \<Longrightarrow> thr \<noteq> 0 \<Longrightarrow> thr \<notin> threads w \<Longrightarrow>
    main_start me rt entry nb rc thr w = Done w' \<Longrightarrow> kernel_op w w'"
| RootTask: "me \<noteq> 0 \<Longrightarrow> excp \<notin> set (task_list w) \<Longrightarrow> thr \<noteq> 0 \<Longrightarrow> thr \<notin> threads w \<Longrightarrow>
    root_task_start me excp entry nb rc thr w = Done w' \<Longrightarrow> kernel_op w w'"

inductive sys_step :: "usage \<Rightarrow> world \<Rightarrow> world \<Rightarrow> bool" for u where
  Task: "task_step w w' \<Longrightarrow> sys_step u w w'"
| Sem: "sem_op (task_callers u) w w' \<Longrightarrow> sys_step u w w'"
| Queue: "mq_step (queue_limits u) w w' \<Longrightarrow> sys_step u w w'"
| Watchdog: "wd_op w w' \<Longrightarrow> sys_step u w w'"
| Restart: "restart_op (no_self_restart u) w w' \<Longrightarrow> sys_step u w w'"
| Kernel: "kernel_op w w' \<Longrightarrow> sys_step u w w'"

text \<open>The process starts with its main thread. \<open>lo\<close> and \<open>hi\<close> are the ranges of the priorities of
  the operating system.\<close>

inductive sys_reach :: "usage \<Rightarrow> world \<Rightarrow> bool" for u where
  Start: "main \<noteq> 0 \<Longrightarrow> (\<And>p. 0 \<le> lo p \<and> lo p \<le> hi p \<and> in_s32 (hi p)) \<Longrightarrow>
    sys_reach u ((boot_world lo hi)\<lparr>threads := {main}\<rparr>)"
| Step: "sys_reach u w \<Longrightarrow> sys_step u w w' \<Longrightarrow> sys_reach u w'"


section \<open>What each component leaves alone\<close>


context stable_sem
begin

lemma op: "sem_op b w w' \<Longrightarrow> P w \<Longrightarrow> P w'"
  by (induction rule: sem_op.induct)
    (blast dest: create give take take_resume [OF disjI1] take_resume [OF disjI2] delete flush)+

end

context stable_queue
begin

lemma op: "mq_step b w w' \<Longrightarrow> P w \<Longrightarrow> P w'"
  by (induction rule: mq_step.induct)
    (blast dest: create send send_rest send_relock receive receive_rest delete delete_lock delete_space delete_wait)+

end

context stable_wd
begin

lemma op: "wd_op w w' \<Longrightarrow> P w' = P w"
  by (induction rule: wd_op.induct) (metis wd_operations tick snd_conv)+

end

context stable_task
begin

lemma restart_other: "taskRestart me tid rc thr starter blk junk w = Done (Status r, w') \<Longrightarrow> P w' = P w"
  by (auto simp: taskRestart_def obind_Done_iff Let_def indep start_thread
      dest!: lock cancel_join finish split: if_split_asm prod.split_asm)

lemma start: "start_excp me a entry nb rc thr w = Done w' \<Longrightarrow> P w' = P w"
  by (auto simp: start_excp_def obind_Done_iff Let_def set_priority_def dest!: init activate)

lemma kernel: "kernel_op w w' \<Longrightarrow> P w' = P w"
  by (induction rule: kernel_op.induct)
    (auto simp: timeSlice enableRoundRobin_def disableRoundRobin_def indep v2lin_init_def main_start_def
      root_task_start_def obind_Done_iff Let_def set_priority_def dest!: init activate start)

end

context stable_restart
begin

lemma op_restart: "restart_op b w w' \<Longrightarrow> P w' = P w"
  by (induction rule: restart_op.induct) (simp_all add: starter restart)

end

section \<open>The semaphores\<close>

text \<open>The integers fit an \<open>int\<close>, and no semaphore has one of the options that
  \<^verbatim>\<open>semBCreate\<close>, \<^verbatim>\<open>semCCreate\<close> and \<^verbatim>\<open>semMCreate\<close> refuse.\<close>

definition sem_typed :: "v2lsem_t \<Rightarrow> bool" where
  "sem_typed v \<longleftrightarrow> in_s32 (token_count v) \<and> in_s32 (recursion_level v)
     \<and> sem_flags v AND SEM_Q_PRIORITY = 0 \<and> sem_flags v AND SEM_DELETE_SAFE = 0
     \<and> sem_flags v AND SEM_INVERSION_SAFE = 0"

definition sems_typed :: "world \<Rightarrow> bool" where
  "sems_typed w \<longleftrightarrow> (\<forall>s. sem_typed (smcb w s)) \<and> distinct (sem_list w) \<and> set (sem_list w) = dom (sems w)"

lemma sems_typed_cong:
  assumes "sems w' = sems w" and "sem_list w' = sem_list w"
  shows "sems_typed w' = sems_typed w"
  using assms smcb_cong [OF assms(1)] by (simp add: sems_typed_def)

lemma sem_typed_susp [simp]: "sem_typed (v\<lparr>sem_first_susp := xs\<rparr>) = sem_typed v"
  by (simp add: sem_typed_def)

lemma sems_typed_upd:
  "sem_typed (f (smcb w s)) \<Longrightarrow> sems_typed w \<Longrightarrow> sems_typed (upd_sem s f w)"
  unfolding sems_typed_def
  by (cases "s \<in> dom (sems w)") (metis dom_upd_sem smcb_upd_other smcb_upd_same upd_sem_frame(6),
    metis dom_upd_sem smcb_upd_other upd_sem_frame(6) smcb_def domIff option.case(1))

interpretation sems_by_task: stable_task sems_typed
proof
  show "sems_typed (upd_sem s (\<lambda>x. x\<lparr>sem_first_susp := xs\<rparr>) w) = sems_typed w" for s xs w
  proof
    assume "sems_typed (upd_sem s (\<lambda>x. x\<lparr>sem_first_susp := xs\<rparr>) w)"
    then show "sems_typed w"
      using smcb_upd_field [where F = sem_typed and f = "\<lambda>x. x\<lparr>sem_first_susp := xs\<rparr>"]
      by (simp add: sems_typed_def del: domIff)
  next
    assume w: "sems_typed w"
    then have "sem_typed (smcb w s)" by (simp add: sems_typed_def)
    with w show "sems_typed (upd_sem s (\<lambda>x. x\<lparr>sem_first_susp := xs\<rparr>) w)"
      by (intro sems_typed_upd) simp_all
  qed
qed (intro sems_typed_cong; simp)+

lemma sems_typed_sem: "sems_typed w \<Longrightarrow> sem_typed (smcb w s)"
  by (simp add: sems_typed_def)

lemma sems_typed_upd_all: "(\<And>v. sem_typed v \<Longrightarrow> sem_typed (f v)) \<Longrightarrow> sems_typed w \<Longrightarrow> sems_typed (upd_sem s f w)"
  by (rule sems_typed_upd) (simp_all add: sems_typed_sem)

lemma sem_typed_fields [simp]:
  "sem_typed v \<Longrightarrow> sem_typed (v\<lparr>send_type := k\<rparr>)" "sem_typed v \<Longrightarrow> sem_typed (v\<lparr>sem_lock := l\<rparr>)"
  "sem_typed v \<Longrightarrow> sem_typed (v\<lparr>current_owner := t\<rparr>)"
  "sem_typed v \<Longrightarrow> sem_typed (v\<lparr>token_count := s32 n\<rparr>)"
  "sem_typed v \<Longrightarrow> sem_typed (v\<lparr>recursion_level := s32 n\<rparr>)"
  "sem_typed v \<Longrightarrow> sem_typed (v\<lparr>current_owner := t, recursion_level := s32 n\<rparr>)"
  "sem_typed v \<Longrightarrow> sem_typed (v\<lparr>token_count := s32 n, current_owner := t\<rparr>)"
  by (simp_all add: sem_typed_def s32_in_range)

lemma refused_options:
  assumes "\<not> unsupported opt"
  shows "opt AND SEM_Q_PRIORITY = 0" "opt AND SEM_DELETE_SAFE = 0" "opt AND SEM_INVERSION_SAFE = 0"
  using assms by (simp_all add: unsupported_def)

lemma sem_typed_new:
  "in_s32 n \<Longrightarrow> sem_typed ((new_sem n)\<lparr>sem_flags := BINARY_SEMA4\<rparr>)"
  "in_s32 n \<Longrightarrow> sem_typed ((new_sem n)\<lparr>sem_flags := COUNTING_SEMA4\<rparr>)"
  by (simp_all add: sem_typed_def new_sem_def zero_sem_def vxw_codes in_s32_def)

lemma and_and_0:
  assumes "(a :: 32 word) AND m = 0"
  shows "(a AND k) AND m = 0"
proof -
  have "(a AND k) AND m = (a AND m) AND k" by (simp only: ac_simps)
  then show ?thesis using assms by simp
qed

lemma sem_typed_mutex:
  assumes "\<not> unsupported opt"
  shows "sem_typed ((new_sem 1)\<lparr>sem_flags := (opt AND SEM_OPT_MASK) OR MUTEX_SEMA4\<rparr>)"
proof -
  have "(opt AND SEM_OPT_MASK) AND m = 0" if "m = SEM_Q_PRIORITY \<or> m = SEM_DELETE_SAFE \<or> m = SEM_INVERSION_SAFE" for m
    using that refused_options [OF assms] and_and_0 by blast
  then show ?thesis
    by (simp add: sem_typed_def new_sem_def zero_sem_def bit.conj_disj_distrib2 in_s32_def)
      (simp add: vxw_codes)
qed

lemma sems_typed_create:
  assumes "sems_typed w" and "blk \<notin> dom (sems w)" and "sem_typed v"
  shows "sems_typed (link_smcb blk (w\<lparr>sems := (sems w)(blk \<mapsto> v)\<rparr>))"
proof -
  have "smcb (link_smcb blk (w\<lparr>sems := (sems w)(blk \<mapsto> v)\<rparr>)) s = (if s = blk then v else smcb w s)" for s
    by (simp add: link_smcb_def smcb_def)
  then show ?thesis using assms by (simp add: sems_typed_def link_smcb_def del: domIff)
qed

lemma sems_typed_free:
  assumes "sems_typed w"
  shows "sems_typed (free_sem s w)"
proof -
  have "smcb (free_sem s w) a = (if a = s then zero_sem else smcb w a)" for a
    by (simp add: free_sem_def unlink_smcb_def smcb_def)
  moreover have "sem_typed zero_sem" by (simp add: sem_typed_def zero_sem_def in_s32_def)
  ultimately show ?thesis using assms by (simp add: sems_typed_def free_sem_def unlink_smcb_def)
qed

lemma sems_typed_semCreate:
  assumes "sems_typed w" and "blk \<notin> dom (sems w)"
  shows "semBCreate me opt i blk w = (a, w') \<Longrightarrow> sems_typed w'"
    and "in_s32 i \<Longrightarrow> semCCreate me opt i blk w = (a, w') \<Longrightarrow> sems_typed w'"
    and "semMCreate me opt blk w = (a, w') \<Longrightarrow> sems_typed w'"
  using assms sem_typed_mutex
  by (auto simp: semBCreate_def semCCreate_def semMCreate_def refused_options Let_def in_s32_def
      intro!: sems_typed_create sem_typed_new split: if_split_asm)

lemma sems_typed_delete:
  "semDelete me s w = Done (c, w') \<Longrightarrow> sems_typed w \<Longrightarrow> sems_typed w'"
  "semDelete_resume me s w = Done (c, w') \<Longrightarrow> sems_typed w \<Longrightarrow> sems_typed w'"
  "semFlush me s w = Done (c, w') \<Longrightarrow> sems_typed w \<Longrightarrow> sems_typed w'"
  "semFlush_resume me s w = Done (c, w') \<Longrightarrow> sems_typed w \<Longrightarrow> sems_typed w'"
  by (auto simp: semDelete_def semDelete_resume_def semFlush_def semFlush_resume_def obind_Done_iff
      dest!: sems_by_task.ret_status sems_by_task.lock intro!: sems_typed_upd_all sems_typed_free
      split: if_split_asm)

text \<open>Giving and taking.\<close>

lemma give_tail_typed: "give_tail me s w = Done (c, w') \<Longrightarrow> sems_typed w' = sems_typed w"
  by (auto simp: give_tail_def outcome_simps
      dest!: sems_by_task.ret_status sems_by_task.unsafe sems_by_task.lock split: if_split_asm)

lemma sems_typed_give:
  assumes "semGive me s w = Done (c, w')" and "sems_typed w"
  shows "sems_typed w'"
proof -
  have v: "sem_typed (smcb w s)" using assms(2) by (rule sems_typed_sem)
  let ?f = "\<lambda>s. s\<lparr>recursion_level := recursion_level s - 1\<rparr>"
  let ?g = "\<lambda>s. s\<lparr>token_count := s32 (token_count s + 1), current_owner := NULL\<rparr>"
  have w1: "sems_typed (upd_sem s ?f w)" if "0 < recursion_level (smcb w s)"
    using that v assms(2) by (intro sems_typed_upd) (simp_all add: sem_typed_def in_s32_def)
  consider e where "ret_status me e w = Done (c, w')"
    | e where "0 < recursion_level (smcb w s)" "ret_status me e (upd_sem s ?f w) = Done (c, w')"
    | "0 < recursion_level (smcb w s)" "give_tail me s (upd_sem s ?g (upd_sem s ?f w)) = Done (c, w')"
    | e where "ret_status me e (upd_sem s (\<lambda>s. s\<lparr>token_count := s32 (token_count s + 1)\<rparr>) w) = Done (c, w')"
    using assms(1) by (auto simp: semGive_def obind_Done_iff Let_def split: if_split_asm)
  then show ?thesis
  proof cases
    case 3
    have "sems_typed (upd_sem s ?g (upd_sem s ?f w))" by (rule sems_typed_upd_all [OF _ w1 [OF 3(1)]]) simp
    with 3(2) show ?thesis by (simp add: give_tail_typed)
  next
    case 4
    with assms(2) show ?thesis
      by (auto dest!: sems_by_task.ret_status intro!: sems_typed_upd_all)
  qed (use w1 assms(2) in \<open>auto dest!: sems_by_task.ret_status\<close>)
qed

lemma take_return_typed: "take_return me t e w = Done (r, w') \<Longrightarrow> sems_typed w' = sems_typed w"
  by (auto simp: take_return_def obind_Done_iff Let_def dest!: sems_by_task.finish split: if_split_asm)

lemma sems_typed_take_exit:
  assumes "take_exit me fr w = Done (r, w')" and "sems_typed w"
  shows "sems_typed w'"
proof -
  let ?s = "tf_sem fr" and ?t = "tf_task fr"
  let ?w1 = "unlink_susp_task (SemSusp ?s) ?t w"
  let ?f = "\<lambda>x. x\<lparr>current_owner := ?t, recursion_level := s32 (recursion_level x + 1)\<rparr>"
  have w1: "sems_typed ?w1" using assms(2) by simp
  then have w2: "sems_typed (upd_sem ?s ?f ?w1)" by (intro sems_typed_upd_all) simp_all
  consider e where "take_return me ?t e ?w1 = Done (r, w')"
    | e where "take_return me ?t e (upd_sem ?s (\<lambda>x. x\<lparr>send_type := SEND\<rparr>) ?w1) = Done (r, w')"
    | e where "take_return me ?t e (upd_sem ?s (\<lambda>x. x\<lparr>current_owner := ?t\<rparr>) ?w1) = Done (r, w')"
    | e where "take_return me ?t e (upd_sem ?s ?f ?w1) = Done (r, w')"
    | e q v where "taskSafe me (upd_sem ?s ?f ?w1) = Done (q, v)" "take_return me ?t e v = Done (r, w')"
    using assms(1) by (auto simp: take_exit_def Let_def upd_sem_comp obind_Done_iff split: if_split_asm)
  then show ?thesis
  proof cases
    case (5 e q v)
    with w2 show ?thesis by (simp add: take_return_typed sems_by_task.safe)
  qed (use w1 w2 in \<open>auto simp: take_return_typed intro!: sems_typed_upd_all\<close>)
qed

lemma token_typed:
  "token_loop me s w = (p, w') \<Longrightarrow> sems_typed w \<Longrightarrow> sems_typed w'"
  "waiting_on_sem me s w = (p, w') \<Longrightarrow> sems_typed w \<Longrightarrow> sems_typed w'"
proof -
  have "sems_typed (upd_sem s (\<lambda>s. s\<lparr>token_count := token_count s - 1\<rparr>) w)"
    if "sems_typed w" "0 < token_count (smcb w s)" for w
    using that sems_typed_sem [OF that(1), of s] by (intro sems_typed_upd) (simp_all add: sem_typed_def in_s32_def)
  then show 1: "token_loop me s w = (p, w') \<Longrightarrow> sems_typed w \<Longrightarrow> sems_typed w'" for w
    by (auto simp: token_loop_def split: if_split_asm)
  show "waiting_on_sem me s w = (p, w') \<Longrightarrow> sems_typed w \<Longrightarrow> sems_typed w'"
    by (auto simp: waiting_on_sem_def dest: 1 split: if_split_asm)
qed

lemma sems_typed_take_poll: "take_poll me fr (p, w) = Done (r, w') \<Longrightarrow> sems_typed w \<Longrightarrow> sems_typed w'"
  by (cases p) (auto simp: take_poll_def dest: sems_typed_take_exit split: if_split_asm)

lemma inversion_typed: "priority_inversion me s t w = Done w' \<Longrightarrow> sems_typed w' = sems_typed w"
  by (auto simp: priority_inversion_def obind_Done_iff Let_def dest!: sems_by_task.lock split: if_split_asm)

lemma sems_typed_wait:
  assumes "wait_for_token me s n t now w = Done (r, w')" and "sems_typed w"
  shows "sems_typed w'"
proof -
  from wait_for_token_polls [OF assms(1)] obtain fr w3 where
    w3: "w3 = link_susp_task (SemSusp s) t w \<or> priority_inversion me s t (link_susp_task (SemSusp s) t w) = Done w3"
    and p: "take_poll me fr (waiting_on_sem me s w3) = Done (r, w')"
    by metis
  have "sems_typed w3" using w3 assms(2) inversion_typed [of me s t] by fastforce
  then show ?thesis using p token_typed(2) sems_typed_take_poll by (cases "waiting_on_sem me s w3") metis
qed

lemma sems_typed_take:
  assumes "semTake me s n now w = Done (r, w')" and "sems_typed w"
  shows "sems_typed w'"
  using assms
  by (auto simp: semTake_def obind_Done_iff Let_def take_return_typed dest!: sems_by_task.finish
      elim!: sems_typed_wait intro!: sems_typed_upd_all split: if_split_asm)

lemma sems_typed_take_resume:
  assumes "semTake_wake me rc fr w = Done (r, w') \<or> semTake_tick me now fr w = Done (r, w')" and "sems_typed w"
  shows "sems_typed w'"
proof (cases "semTake_wake me rc fr w = Done (r, w')")
  case True
  then obtain f where "take_poll me f (waiting_on_sem me (tf_sem fr) w) = Done (r, w')"
    by (auto simp: semTake_wake_def Let_def split: if_split_asm)
  then show ?thesis
    using token_typed(2) assms(2) sems_typed_take_poll by (cases "waiting_on_sem me (tf_sem fr) w") metis
next
  case False
  let ?w = "taskDelay_end (my_task me w) w"
  obtain q v where q: "token_loop me (tf_sem fr) ?w = (q, v)" by fastforce
  have "take_poll me fr (Still, ?w) = Done (r, w') \<or> take_poll me fr (q, v) = Done (r, w')"
    using False assms(1) q by (auto simp: semTake_tick_def Let_def split: if_split_asm)
  moreover have "sems_typed ?w" using assms(2) by simp
  ultimately show ?thesis using token_typed(1) [OF q] sems_typed_take_poll by blast
qed

lemma sems_typed_op: "sem_op b w w' \<Longrightarrow> sems_typed w \<Longrightarrow> sems_typed w'"
  by (induction rule: sem_op.induct)
    (blast dest: sems_typed_semCreate sems_typed_give sems_typed_take sems_typed_take_resume [OF disjI1]
      sems_typed_take_resume [OF disjI2] sems_typed_delete)+

text \<open>The mutexes, by the guarantees of theory \<open>Sem_Lib\<close>.\<close>

definition mutexes_ok :: "world \<Rightarrow> bool" where
  "mutexes_ok w \<longleftrightarrow> (\<forall>s. mutex_ok (smcb w s))"

lemma mutexes_ok_op: "sem_op True w w' \<Longrightarrow> mutexes_ok w \<Longrightarrow> mutexes_ok w'"
proof -
  assume op: "sem_op True w w'" and ok: "mutexes_ok w"
  have m: "mutex_ok (smcb w s)" for s using ok by (simp add: mutexes_ok_def)
  have "\<exists>m. step_guar m w w'"
    using op
  proof cases
    case (Give me s c)
    then show ?thesis using semGive_guar m step_guarI by blast
  next
    case (Take me s n now r)
    then show ?thesis using semTake_guar m step_guarI by blast
  next
    case (Wake me fr rc r)
    then show ?thesis using semTake_wake_guar m step_guarI by blast
  next
    case (TickOver me fr now r)
    then show ?thesis using semTake_tick_guar m step_guarI by blast
  qed (blast intro: semCreate_guar semDelete_guar semFlush_guar)+
  then show ?thesis using step_guar_ok m unfolding mutexes_ok_def by blast
qed

text \<open>What every step keeps, and what the steps of tasks keep.\<close>

definition sems_under :: "bool \<Rightarrow> world \<Rightarrow> bool" where
  "sems_under b w \<longleftrightarrow> sems_typed w \<and> (b \<longrightarrow> mutexes_ok w)"

definition sems_inv :: "world \<Rightarrow> bool" where
  "sems_inv w \<longleftrightarrow> mutexes_ok w \<and> sems_typed w"

lemma sems_under_True: "sems_under True = sems_inv"
  by (auto simp: sems_under_def sems_inv_def fun_eq_iff)

lemma sems_under_op: "sem_op b w w' \<Longrightarrow> sems_under b w \<Longrightarrow> sems_under b w'"
  by (cases b) (auto simp: sems_under_def intro: mutexes_ok_op sems_typed_op)

lemma mutexes_ok_cong: "sems w' = sems w \<Longrightarrow> mutexes_ok w' = mutexes_ok w"
  by (simp add: mutexes_ok_def smcb_def)

lemma mutexes_ok_susp: "mutexes_ok (upd_sem s (\<lambda>x. x\<lparr>sem_first_susp := xs\<rparr>) w) = mutexes_ok w"
proof -
  have "mutex_ok (v\<lparr>sem_first_susp := xs\<rparr>) = mutex_ok v" for v by (simp add: mutex_ok_def is_mutex_def)
  then show ?thesis by (simp add: mutexes_ok_def smcb_upd_field)
qed

lemma sems_under_cong: "sems w' = sems w \<Longrightarrow> sem_list w' = sem_list w \<Longrightarrow> sems_under b w' = sems_under b w"
  unfolding sems_under_def using mutexes_ok_cong sems_typed_cong by blast

lemma sems_under_susp: "sems_under b (upd_sem s (\<lambda>x. x\<lparr>sem_first_susp := xs\<rparr>) w) = sems_under b w"
  by (simp add: sems_under_def mutexes_ok_susp sems_by_task.sem_susp)

lemma sems_under_queues:
  "sems_under b (w\<lparr>queues := m\<rparr>) = sems_under b w" "sems_under b (w\<lparr>mqueue_list := l\<rparr>) = sems_under b w"
  by (rule sems_under_cong; simp)+

interpretation sems_elsewhere: stable_restart "sems_under b" for b
  by unfold_locales ((rule sems_under_susp | rule sems_under_cong; simp)+)

interpretation sems_in_queues: stable_queue "sems_under b" for b
  by unfold_locales (simp_all add: sems_elsewhere.lock sems_under_queues)


section \<open>The message queues\<close>

lemma mq_under_cong:
  assumes "queues w' = queues w" and "mqueue_list w' = mqueue_list w"
  shows "mq_under b w' = mq_under b w"
  using assms rings_ok_cong [OF assms(1)] by (simp add: mq_under_def qlist_ok_def)

lemma mq_under_sems:
  "mq_under b (w\<lparr>sems := m\<rparr>) = mq_under b w" "mq_under b (w\<lparr>sem_list := l\<rparr>) = mq_under b w"
  by (rule mq_under_cong; simp)+

interpretation queues_elsewhere: stable_restart "mq_under b" for b
  by unfold_locales (rule mq_under_cong; simp)+

interpretation queues_in_sems: stable_sem "mq_under b" for b
  by unfold_locales
    (simp_all add: queues_elsewhere.lock queues_elsewhere.safe queues_elsewhere.unsafe mq_under_sems)


section \<open>The watchdogs\<close>

definition wd_inv :: "world \<Rightarrow> bool" where
  "wd_inv w \<longleftrightarrow> wd_wf w \<and> (\<forall>d. 0 \<le> ticks_remaining (wdcb w d) \<and> in_s32 (ticks_remaining (wdcb w d)))"

lemma wd_inv_cong:
  assumes "wdogs w' = wdogs w" and "wdog_list w' = wdog_list w"
  shows "wd_inv w' = wd_inv w"
  using assms by (simp add: wd_inv_def wd_wf_def wdcb_def)

lemma wd_inv_others:
  "wd_inv (w\<lparr>sems := m\<rparr>) = wd_inv w" "wd_inv (w\<lparr>sem_list := l\<rparr>) = wd_inv w"
  "wd_inv (w\<lparr>queues := m'\<rparr>) = wd_inv w" "wd_inv (w\<lparr>mqueue_list := l\<rparr>) = wd_inv w"
  by (rule wd_inv_cong; simp)+

interpretation wdogs_in_tasks: stable_task wd_inv
  by unfold_locales (rule wd_inv_cong; simp)+

interpretation wdogs_in_sems: stable_sem wd_inv
  by unfold_locales
    (simp_all add: wdogs_in_tasks.lock wdogs_in_tasks.safe wdogs_in_tasks.unsafe wd_inv_others)

interpretation wdogs_in_queues: stable_queue wd_inv
  by unfold_locales (simp_all add: wd_inv_others)

lemma wd_ticks_range:
  assumes "in_s32 n"
  shows "0 \<le> wd_ticks n \<and> in_s32 (wd_ticks n)"
proof -
  have "n sdiv 2 \<le> max 0 n"
  proof (cases "0 \<le> n")
    case True
    then show ?thesis by (cases "n = 0") (simp_all add: signed_divide_int_def)
  next
    case False
    then show ?thesis by (simp add: signed_divide_int_def)
  qed
  then show ?thesis using assms by (auto simp: wd_ticks_def Let_def in_s32_def)
qed

lemma wdcb_upd: "wdcb (upd_wdog d f w) e = (if e = d \<and> d \<in> dom (wdogs w) then f (wdcb w d) else wdcb w e)"
  by (auto simp: wdcb_def upd_wdog_def split: option.split)

lemma wd_inv_upd:
  assumes "wd_inv w" and "0 \<le> ticks_remaining (f (wdcb w d))" and "in_s32 (ticks_remaining (f (wdcb w d)))"
  shows "wd_inv (upd_wdog d f w)"
  using assms by (simp add: wd_inv_def wd_wf_def wdcb_upd del: domIff)

lemma wd_inv_op:
  assumes "wd_op w w'" and i: "wd_inv w"
  shows "wd_inv w'"
proof -
  have tick: "0 \<le> ticks_remaining (wdcb w d)" "in_s32 (ticks_remaining (wdcb w d))" for d
    using i by (simp_all add: wd_inv_def)
  show ?thesis
    using assms(1)
  proof cases
    case (Create blk junk a)
    have "wdcb w' e = (if blk \<noteq> NULL \<and> e = blk then junk\<lparr>ticks_remaining := 0\<rparr> else wdcb w e)" for e
      using Create(2) by (auto simp: wdCreate_def link_wdog_def wdcb_def split: if_split_asm)
    moreover have "wd_wf w'" using wd_wf_operations(1) [OF _ Create(1), of junk] i Create(2) by (simp add: wd_inv_def)
    ultimately show ?thesis using tick by (simp add: wd_inv_def in_s32_def)
  next
    case (Cancel me d r)
    then show ?thesis using i
      by (auto simp: wdCancel_def in_s32_def wdogs_in_tasks.basic intro!: wd_inv_upd split: if_split_asm)
  next
    case (Delete me d r)
    have "wdcb w' e = wdcb w e \<or> wdcb w' e = zero_wdog" for e
      using Delete by (auto simp: wdDelete_def unlink_wdog_def wdcb_def split: if_split_asm)
    moreover have "wd_wf w'" using wd_wf_operations(4) [of w me d] i Delete by (simp add: wd_inv_def)
    moreover have "0 \<le> ticks_remaining zero_wdog \<and> in_s32 (ticks_remaining zero_wdog)"
      by (simp add: zero_wdog_def in_s32_def)
    ultimately show ?thesis using tick unfolding wd_inv_def by metis
  next
    case (Start delay me d f parm r)
    then show ?thesis using i wd_ticks_range
      by (auto simp: wdStart_def wdogs_in_tasks.basic intro!: wd_inv_upd split: if_split_asm)
  next
    case (Tick d n)
    let ?w1 = "upd_wdog d (\<lambda>d. d\<lparr>ticks_remaining := ticks_remaining d - 1\<rparr>) w"
    have "w' = w \<or> 0 < ticks_remaining (wdcb w d) \<and> w' = ?w1"
      using Tick by (auto simp: process_tick_for_def Let_def split: if_split_asm)
    moreover have "wd_inv ?w1" if "0 < ticks_remaining (wdcb w d)"
      using that tick [of d] i by (intro wd_inv_upd) (simp_all add: in_s32_def)
    ultimately show ?thesis using i by auto
  qed
qed

section \<open>The tasks\<close>

text \<open>The integers that the library computes for a control block fit an \<open>int\<close>, and deletion
  safety is never negative.\<close>

definition tcb_typed :: "task_t \<Rightarrow> bool" where
  "tcb_typed t \<longleftrightarrow> in_s32 (taskid t) \<and> 0 \<le> delete_safe_count t \<and> in_s32 (delete_safe_count t)
     \<and> in_s32 (prv_priority t) \<and> in_s32 (attr_priority t)"

definition task_typed :: "world \<Rightarrow> bool" where
  "task_typed w \<longleftrightarrow> (\<forall>p. 0 \<le> prio_min w p \<and> prio_min w p \<le> prio_max w p \<and> in_s32 (prio_max w p))
     \<and> (\<forall>a. tcb_typed (tcb w a))"

lemma task_typed_cong:
  assumes "tasks w' = tasks w" and "prio_min w' = prio_min w" and "prio_max w' = prio_max w"
  shows "task_typed w' = task_typed w"
  using assms tcb_cong [OF assms(1)] by (simp add: task_typed_def)

lemma task_typed_indep [simp]:
  "task_typed (w\<lparr>task_list := ks\<rparr>) = task_typed w" "task_typed (w\<lparr>locker := lk\<rparr>) = task_typed w"
  "task_typed (w\<lparr>taskLock_level := lv\<rparr>) = task_typed w" "task_typed (w\<lparr>threads := th\<rparr>) = task_typed w"
  "task_typed (w\<lparr>thr_sched := sc\<rparr>) = task_typed w" "task_typed (w\<lparr>round_robin_enabled := rr\<rparr>) = task_typed w"
  "task_typed (w\<lparr>sems := ss\<rparr>) = task_typed w" "task_typed (w\<lparr>sem_list := ks\<rparr>) = task_typed w"
  "task_typed (w\<lparr>queues := qs\<rparr>) = task_typed w" "task_typed (w\<lparr>mqueue_list := ks\<rparr>) = task_typed w"
  "task_typed (w\<lparr>wdogs := ds\<rparr>) = task_typed w" "task_typed (w\<lparr>wdog_list := ks\<rparr>) = task_typed w"
  "task_typed (w\<lparr>restart_wdog := a\<rparr>) = task_typed w" "task_typed (w\<lparr>errno := er\<rparr>) = task_typed w"
  "task_typed (upd_sem s f w) = task_typed w" "task_typed (upd_queue q g w) = task_typed w"
  "task_typed (upd_wdog d h w) = task_typed w" "task_typed (set_errno me e w) = task_typed w"
  by (rule task_typed_cong; simp)+

lemma task_typed_tcb:
  assumes "task_typed w"
  shows "tcb_typed (tcb w a)" and "in_s32 (prio_max w p)" and "in_s32 (prio_max w p - 1)" and "in_s32 (prio_min w p)"
proof -
  have "0 \<le> prio_min w p \<and> prio_min w p \<le> prio_max w p \<and> in_s32 (prio_max w p)"
    using assms by (simp add: task_typed_def)
  then show "in_s32 (prio_max w p)" "in_s32 (prio_max w p - 1)" "in_s32 (prio_min w p)"
    by (simp_all add: in_s32_def)
  show "tcb_typed (tcb w a)" using assms by (simp add: task_typed_def)
qed

lemma tcb_typed_zero: "tcb_typed zero_task"
  by (simp add: tcb_typed_def zero_task_def in_s32_def)

lemma task_typed_poke: "task_typed w \<Longrightarrow> (\<And>t. x = Some t \<Longrightarrow> tcb_typed t) \<Longrightarrow> task_typed (w\<lparr>tasks := (tasks w)(a := x)\<rparr>)"
  by (cases x) (auto simp: task_typed_def tcb_def tcb_typed_zero)

lemma task_typed_upd:
  assumes "task_typed w" and "tcb_typed (f (tcb w a))"
  shows "task_typed (upd_task a f w)"
  using assms by (cases "tasks w a") (auto simp: upd_task_def tcb_def intro!: task_typed_poke)

lemma tcb_typed_fields [simp]:
  "tcb_typed (t\<lparr>state := s\<rparr>) = tcb_typed t" "tcb_typed (t\<lparr>t_first_susp := xs\<rparr>) = tcb_typed t"
  "tcb_typed (t\<lparr>waiting := x\<rparr>) = tcb_typed t" "tcb_typed (t\<lparr>pthrid := th\<rparr>) = tcb_typed t"
  "tcb_typed (t\<lparr>attr_policy := p\<rparr>) = tcb_typed t" "tcb_typed (t\<lparr>state := s, pthrid := th\<rparr>) = tcb_typed t"
  by (simp_all add: tcb_typed_def)

lemma task_typed_upd_same [simp]:
  assumes "task_typed w" and "\<And>t. tcb_typed (f t) = tcb_typed t"
  shows "task_typed (upd_task a f w)"
  by (rule task_typed_upd [OF assms(1)]) (simp add: assms(2) task_typed_tcb [OF assms(1)])

lemma task_typed_sched: "task_typed w \<Longrightarrow> in_s32 p \<Longrightarrow> task_typed (set_sched a p w)"
  using task_typed_tcb(1) [of w a]
  by (simp add: set_sched_def) (rule task_typed_upd, simp_all add: tcb_typed_def)

lemma task_typed_lock [simp]:
  "taskLock me w = Done w' \<Longrightarrow> task_typed w \<Longrightarrow> task_typed w'"
  "task_typed w \<Longrightarrow> task_typed (taskUnlock me w)"
proof -
  show "taskLock me w = Done w' \<Longrightarrow> task_typed w \<Longrightarrow> task_typed w'"
    by (auto simp: taskLock_def Let_def task_typed_tcb intro!: task_typed_sched split: if_split_asm)
  assume w: "task_typed w"
  then have "in_s32 (prv_priority (tcb w a))" for a using task_typed_tcb(1) [OF w] by (simp add: tcb_typed_def)
  with w show "task_typed (taskUnlock me w)" by (simp add: taskUnlock_def Let_def task_typed_sched)
qed

lemma task_typed_susp [simp]:
  assumes "task_typed w"
  shows "task_typed (link_susp_task h t w)" and "task_typed (unlink_susp_task h t w)"
proof -
  have "task_typed (set_susp h xs w)" for xs using assms by (cases h) simp_all
  then show "task_typed (link_susp_task h t w)" "task_typed (unlink_susp_task h t w)"
    using assms by (simp_all add: link_susp_task_def unlink_susp_task_def)
qed

lemma task_typed_delay [simp]:
  "task_typed w \<Longrightarrow> task_typed (taskDelay_begin me w)" "task_typed w \<Longrightarrow> task_typed (taskDelay_end t w)"
  by (simp_all add: taskDelay_begin_def taskDelay_end_def Let_def)

lemma task_typed_finish:
  "finish me e w = Done (r, w') \<Longrightarrow> task_typed w \<Longrightarrow> task_typed w'"
  "ret_status me e w = Done (c, w') \<Longrightarrow> task_typed w \<Longrightarrow> task_typed w'"
  by (auto simp: finish_Done ret_status_Done)

text \<open>The translation of priorities stays in the range of an \<open>int\<close>, whatever the priority.\<close>

lemma abs_smod_le: "\<bar>(x::int) smod m\<bar> \<le> \<bar>x\<bar>"
proof -
  have "\<bar>x\<bar> mod \<bar>m\<bar> \<le> \<bar>x\<bar>" by (simp add: zmod_le_nonneg_dividend)
  moreover have "0 \<le> \<bar>x\<bar> mod \<bar>m\<bar>" by (cases "m = 0") simp_all
  ultimately show ?thesis by (auto simp: signed_modulo_int_def abs_mult abs_sgn_eq)
qed

lemma translate_typed:
  assumes "task_typed w"
  shows "in_s32 (fst (translate_priority w v p e))"
proof -
  let ?x = "s32 (s32 (MIN_V2PT_PRIORITY - v) * prio_max w p)"
  let ?q = "?x sdiv (MIN_V2PT_PRIORITY + 1)"
  have "in_s32 ?x" by (rule s32_in_range)
  then have "\<bar>?q\<bar> \<le> 2147483647"
    by (auto simp: in_s32_def signed_divide_int_def abs_mult vxw_codes abs_sgn_eq)
  then have "in_s32 (?q smod (prio_max w p - 1))"
    using abs_smod_le [of ?q "prio_max w p - 1"] by (simp add: in_s32_def) linarith
  then show ?thesis using task_typed_tcb(4) [OF assms] by (simp add: translate_priority_def Let_def)
qed

text \<open>The operations of the task API.\<close>

lemma typed_count_up:
  "tcb_typed t \<Longrightarrow> tcb_typed (t\<lparr>delete_safe_count :=
     (let c = s32 (delete_safe_count t + 1) in if c \<le> 0 then s32 (c - 1) else c)\<rparr>)"
proof -
  assume t: "tcb_typed t"
  then have "delete_safe_count t = 2147483647 \<or> in_s32 (delete_safe_count t + 1)"
    by (auto simp: tcb_typed_def in_s32_def)
  then show ?thesis
  proof
    assume "delete_safe_count t = 2147483647"
    then show ?thesis using t by (simp add: tcb_typed_def s32_def in_s32_def)
  next
    assume "in_s32 (delete_safe_count t + 1)"
    then show ?thesis using t by (simp add: tcb_typed_def s32_id)
  qed
qed

lemma task_typed_taskSafe:
  assumes "taskSafe me w = Done (r, w')" and "task_typed w"
  shows "task_typed w'"
proof -
  obtain w1 where w1: "taskLock me w = Done w1" and w': "w' = taskUnlock me (upd_task (my_task me w1)
      (\<lambda>x. x\<lparr>delete_safe_count := (let c = s32 (delete_safe_count (tcb w1 (my_task me w1)) + 1)
         in if c \<le> 0 then s32 (c - 1) else c)\<rparr>) w1)"
    using assms(1) by (auto simp: taskSafe_def obind_Done_iff Let_def split: if_split_asm)
  have i: "task_typed w1" using w1 assms(2) by (rule task_typed_lock)
  show ?thesis unfolding w'
    by (intro task_typed_lock(2) task_typed_upd i typed_count_up task_typed_tcb(1))
qed

lemma task_typed_taskUnsafe:
  assumes "taskUnsafe me w = Done (c, w')" and "task_typed w"
  shows "task_typed w'"
proof -
  obtain w1 k where w1: "taskLock me w = Done w1"
    and w': "w' = taskUnlock me (upd_task (my_task me w1) (\<lambda>x. x\<lparr>delete_safe_count := k\<rparr>) w1)"
    and k: "k = (if delete_safe_count (tcb w1 (my_task me w1)) > 0
      then delete_safe_count (tcb w1 (my_task me w1)) - 1 else delete_safe_count (tcb w1 (my_task me w1)))"
    using assms(1) by (auto simp: taskUnsafe_def outcome_simps Let_def split: if_split_asm)
  have i: "task_typed w1" using w1 assms(2) by (rule task_typed_lock)
  then have "tcb_typed (tcb w1 (my_task me w1)\<lparr>delete_safe_count := k\<rparr>)"
    using task_typed_tcb(1) [OF i, of "my_task me w1"] by (auto simp: tcb_typed_def k in_s32_def)
  then show ?thesis unfolding w' by (intro task_typed_lock(2) task_typed_upd i)
qed

lemma task_typed_list_poke [simp]:
  "task_typed (w\<lparr>task_list := ks, tasks := m\<rparr>) = task_typed (w\<lparr>tasks := m\<rparr>)"
  by (rule task_typed_cong) simp_all

lemma task_typed_task_delete [simp]: "task_typed w \<Longrightarrow> task_typed (task_delete t w)"
  by (auto simp: task_delete_def Let_def intro!: task_typed_poke)

lemma task_typed_cancel: "cancel_join t w = Done w' \<Longrightarrow> task_typed w \<Longrightarrow> task_typed w'"
  by (auto simp: cancel_join_def split: if_split_asm)

lemma task_typed_deleteForce: "taskDeleteForce me tid w = Done (c, w') \<Longrightarrow> task_typed w \<Longrightarrow> task_typed w'"
  by (auto simp: taskDeleteForce_def outcome_simps Let_def task_delete_unlock_def
      elim!: task_typed_finish dest: task_typed_lock(1) task_typed_cancel split: if_split_asm)

lemma task_typed_taskDelete:
  assumes "taskDelete me tid w = Done (c, w')" and "task_typed w"
  shows "task_typed w'"
proof -
  obtain w1 where w1: "taskLock me w = Done w1"
    using assms(1) by (auto simp: taskDelete_def obind_Done_iff Let_def)
  have i1: "task_typed w1" using w1 assms(2) by (rule task_typed_lock)
  consider e where "ret_status me e (taskUnlock me w1) = Done (c, w')"
    | w2 where "taskDeleteForce me tid w1 = Done (Parked, w2)" "w' = w2"
    | e w2 where "taskDeleteForce me tid w1 = Done (Ret e, w2)" "ret_status me e (taskUnlock me w2) = Done (c, w')"
    | t where "w' = task_pend_delete me (my_task me w) t w1"
    using assms(1) w1 by (auto simp: taskDelete_def outcome_simps Let_def split: if_split_asm)
  then show ?thesis
    using i1 task_typed_deleteForce task_typed_finish(2) task_typed_lock(2)
    by cases (blast | simp add: task_pend_delete_def)+
qed

lemma task_typed_delete_resume: "taskDelete_resume me self t w = Done (c, w') \<Longrightarrow> task_typed w \<Longrightarrow> task_typed w'"
  by (auto simp: taskDelete_resume_def task_pend_delete_resume_def outcome_simps
      elim!: task_typed_finish dest: task_typed_lock(1) split: if_split_asm)

lemma tcb_typed_init: "task_typed w \<Longrightarrow> tcb_typed (fst (init_tcb w a name pri opts f args nb))"
  using translate_typed [of w pri "if round_robin_enabled w then SCHED_RR else SCHED_FIFO" OK]
  by (auto simp: init_tcb_def Let_def tcb_typed_def zero_task_def s32_in_range in_s32_def [of 0]
      split: prod.split)

lemma task_typed_init:
  assumes "taskInit me a name pri opts f args nb w = Done (r, w')" and "task_typed w"
  shows "task_typed w'"
  using assms(1)
  by (cases rule: taskInit_cases)
    (use assms(2) tcb_typed_init [OF assms(2), of a name pri opts f args nb] in \<open>auto intro!: task_typed_poke\<close>)

lemma task_typed_activate: "taskActivate me tid rc thr w = Done (r, w') \<Longrightarrow> task_typed w \<Longrightarrow> task_typed w'"
  by (erule taskActivate_cases) (auto dest: task_typed_lock(1))

lemma new_tid_typed: "in_s32 (new_tid w)"
proof -
  have "new_tid w \<le> 65536" unfolding new_tid_def by (rule new_tid_from_le) simp
  moreover have "n \<le> new_tid_from f ts n" for f ts n by (induction f ts n rule: new_tid_from.induct) auto
  then have "1 \<le> new_tid w" by (simp add: new_tid_def)
  ultimately show ?thesis by (simp add: in_s32_def)
qed

lemma task_typed_spawn:
  assumes "taskSpawn me name pri opts f args blk nb rc thr w = Done (r, w')" and "task_typed w"
  shows "task_typed w'"
  using assms(1)
proof (cases rule: taskSpawn_Done)
  case (1 nm e w1 w2 e' w3)
  let ?n = "new_tid (w\<lparr>tasks := (tasks w)(blk \<mapsto> zero_task)\<rparr>)"
  have "task_typed (w\<lparr>tasks := (tasks w)(blk \<mapsto> zero_task)\<rparr>)"
    using assms(2) by (rule task_typed_poke) (simp add: tcb_typed_zero)
  with 1(2) have i1: "task_typed w1" by (rule task_typed_init)
  have "tcb_typed (tcb w1 blk\<lparr>taskid := ?n, static_task := False\<rparr>)"
    using task_typed_tcb(1) [OF i1, of blk] new_tid_typed by (simp add: tcb_typed_def)
  then have "task_typed w2" unfolding 1(3) using i1 by (auto intro!: task_typed_poke task_typed_upd)
  with 1(4) have "task_typed w3" by (rule task_typed_activate)
  with 1(5) show ?thesis by auto
qed

lemma task_typed_prioritySet:
  assumes "taskPrioritySet me tid pri w = Done (r, w')" and "task_typed w"
  shows "task_typed w'"
proof -
  obtain w1 where w1: "taskLock me w = Done w1"
    using assms(1) by (auto simp: taskPrioritySet_def obind_Done_iff)
  have i1: "task_typed w1" using w1 assms(2) by (rule task_typed_lock)
  let ?t = "task_for me tid w1"
  let ?p = "fst (translate_priority w1 pri (attr_policy (tcb w1 ?t)) OK)"
  let ?w2 = "upd_task ?t (\<lambda>t. t\<lparr>vxw_priority := pri, prv_priority := ?p\<rparr>) w1"
  have p: "in_s32 ?p" using i1 by (rule translate_typed)
  have i2: "task_typed ?w2"
    using i1 p task_typed_tcb(1) [OF i1, of ?t] by (intro task_typed_upd) (simp_all add: tcb_typed_def)
  consider e where "finish me e (taskUnlock me w1) = Done (r, w')"
    | e where "finish me e (taskUnlock me ?w2) = Done (r, w')"
    | e where "finish me e (taskUnlock me (set_sched ?t ?p ?w2)) = Done (r, w')"
    using assms(1) w1
    by (auto simp: taskPrioritySet_def Let_def split: if_split_asm prod.split_asm)
  then show ?thesis
    using i1 i2 p task_typed_sched task_typed_finish(1) task_typed_lock(2) by cases blast+
qed

lemma task_typed_queries:
  "taskPriorityGet me tid w = Done (r, q, w') \<Longrightarrow> task_typed w \<Longrightarrow> task_typed w'"
  "taskIdListGet me n w = Done (ids, w') \<Longrightarrow> task_typed w \<Longrightarrow> task_typed w'"
  by (auto simp: taskPriorityGet_def taskIdListGet_def obind_Done_iff Let_def dest: task_typed_lock(1)
      split: if_split_asm)

lemma task_typed_wrapper:
  "task_typed w \<Longrightarrow> task_typed (snd (task_wrapper_begin me t w))"
  "task_typed w \<Longrightarrow> task_typed (task_wrapper_cleanup me w)"
  "task_wrapper_end me t w = Done (c, w') \<Longrightarrow> task_typed w \<Longrightarrow> task_typed w'"
proof -
  show "task_typed w \<Longrightarrow> task_typed (snd (task_wrapper_begin me t w))" by (simp add: task_wrapper_begin_def Let_def)
  show 1: "task_typed w \<Longrightarrow> task_typed (task_wrapper_cleanup me w)" by (simp add: task_wrapper_cleanup_def)
  show "task_wrapper_end me t w = Done (c, w') \<Longrightarrow> task_typed w \<Longrightarrow> task_typed w'"
    by (auto simp: task_wrapper_end_def Let_def dest: task_typed_deleteForce [OF _ 1] split: if_split_asm)
qed

lemma task_typed_step: "task_step w w' \<Longrightarrow> task_typed w \<Longrightarrow> task_typed w'"
  by (induction rule: task_step.induct)
    (auto intro: task_typed_lock(1) task_typed_taskSafe task_typed_taskUnsafe task_typed_init task_typed_activate
      task_typed_spawn task_typed_deleteForce task_typed_taskDelete task_typed_delete_resume
      task_typed_prioritySet task_typed_queries task_typed_wrapper)

definition task_ok :: "world \<Rightarrow> bool" where
  "task_ok w \<longleftrightarrow> task_inv w \<and> task_typed w"

lemma task_ok_step: "task_step w w' \<Longrightarrow> task_ok w \<Longrightarrow> task_ok w'"
  by (simp add: task_ok_def task_step_inv task_typed_step)

lemma task_inv_others [simp]:
  "task_inv (w\<lparr>sems := ss\<rparr>) = task_inv w" "task_inv (w\<lparr>sem_list := ks\<rparr>) = task_inv w"
  "task_inv (w\<lparr>queues := qs\<rparr>) = task_inv w" "task_inv (w\<lparr>mqueue_list := ks\<rparr>) = task_inv w"
  "task_inv (w\<lparr>wdogs := ds\<rparr>) = task_inv w" "task_inv (w\<lparr>wdog_list := ks\<rparr>) = task_inv w"
  "task_inv (w\<lparr>restart_wdog := a\<rparr>) = task_inv w" "task_inv (w\<lparr>errno := er\<rparr>) = task_inv w"
  "task_inv (w\<lparr>round_robin_enabled := rr\<rparr>) = task_inv w"
  by (intro task_inv_cong lock_wf_cong; simp add: tcb_def)+

lemma task_inv_sched [simp]: "task_inv (set_sched a p w) = task_inv w"
  by (simp add: set_sched_def)

interpretation tasks_in_sems: stable_sem task_ok
proof
  show "task_ok (set_sched a (prv_priority (tcb w b)) w)" if "task_ok w" for a b w
    using that task_typed_tcb(1) [of w b] by (simp add: task_ok_def task_typed_sched tcb_typed_def)
qed (auto simp: task_ok_def intro: task_inv_taskLock task_typed_lock(1) task_inv_taskUnlock task_inv_taskSafe
      task_typed_taskSafe task_inv_taskUnsafe task_typed_taskUnsafe)

interpretation tasks_in_queues: stable_queue task_ok
  by unfold_locales (simp_all add: task_ok_def)

interpretation tasks_in_wdogs: stable_wd task_ok
  by unfold_locales (simp_all add: task_ok_def)

text \<open>The start of a thread for a task that has none.\<close>

lemma task_typed_start [simp]: "task_typed w \<Longrightarrow> task_typed (start_thread me t rc thr w)"
  by (simp add: start_thread_def Let_def)

lemma task_inv_start:
  assumes "task_inv w" and "t \<in> set (task_list w)" and "thr \<noteq> 0" and "thr \<notin> threads w"
  shows "task_inv (start_thread me t rc thr w)"
proof -
  let ?f = "\<lambda>x. x\<lparr>state := READY, pthrid := 0\<rparr>"
  let ?w1 = "upd_task t ?f w"
  have lw: "lock_wf ?w1" using assms(1) by (simp add: task_inv_def lock_wf_def)
  have i1: "task_inv ?w1"
    by (rule task_inv_set_thread [OF assms(1,2), of 0 ?w1 ?f]) (use lw in simp_all)
  let ?w2 = "(upd_task t (\<lambda>x. x\<lparr>pthrid := thr\<rparr>) ?w1)
      \<lparr>threads := insert thr (threads ?w1), thr_sched := (thr_sched ?w1)(thr := thr_sched ?w1 me)\<rparr>"
  have "task_inv ?w2"
  proof (rule task_inv_set_thread [OF i1, of t thr ?w2 "\<lambda>x. x\<lparr>pthrid := thr\<rparr>"])
    show "lock_wf ?w2" using lw by (simp add: lock_wf_def)
  qed (use assms in auto)
  with i1 show ?thesis by (simp add: start_thread_def Let_def)
qed

text \<open>The thread of the task is cancelled first: the new one may have the identifier of the old.\<close>

lemma task_inv_restart:
  assumes "task_inv w" and "t \<in> set (task_list w)" and "cancel_join t w = Done v" and "thr \<noteq> 0" and "thr \<notin> threads w"
  shows "task_inv (start_thread me t rc thr v)"
proof -
  let ?f = "\<lambda>x. x\<lparr>state := READY, pthrid := 0\<rparr>"
  have v: "v = w\<lparr>threads := threads w - {pthrid (tcb w t)}\<rparr>"
    using assms(3) by (simp add: cancel_join_def split: if_split_asm)
  have w0: "task_inv (upd_task t ?f w)"
    by (rule task_inv_set_thread [OF assms(1,2), of 0 _ ?f]) (use assms(1) in \<open>simp_all add: task_inv_def lock_wf_def\<close>)
  let ?x = "upd_task t ?f v"
  have p: "pthrid (tcb ?x b) = pthrid (tcb (upd_task t ?f w) b)" for b
    by (simp add: pthrid_upd v)
  have in_v: "pthrid (tcb ?x b) \<in> threads ?x" if b: "b \<in> set (task_list w)" "pthrid (tcb ?x b) \<noteq> 0" for b
  proof -
    have "b \<noteq> t"
    proof
      assume "b = t"
      have "t \<in> dom (tasks v)" using assms(1,2) by (auto simp: v task_inv_def task_wf_def)
      with b(2) \<open>b = t\<close> show False by (simp del: domIff)
    qed
    then have e: "pthrid (tcb ?x b) = pthrid (tcb w b)" by (simp add: v)
    have "pthrid (tcb w b) \<noteq> pthrid (tcb w t)"
      using assms(1,2) b \<open>b \<noteq> t\<close> unfolding e task_inv_def by blast
    moreover have "pthrid (tcb w b) \<in> threads w" using assms(1) b unfolding e task_inv_def by blast
    ultimately show ?thesis using e by (simp add: v)
  qed
  have "task_inv ?x"
    using w0 in_v unfolding task_inv_def p by (simp add: task_wf_def lock_wf_def v del: domIff)
  moreover have "start_thread me t rc thr v = start_thread me t rc thr ?x"
    by (simp add: start_thread_def Let_def upd_task_def option.map_comp o_def)
  moreover have "t \<in> set (task_list ?x)" "thr \<notin> threads ?x" using assms(2,5) by (simp_all add: v)
  ultimately show ?thesis using task_inv_start assms(4) by metis
qed

lemma task_ok_restart_op:
  assumes "restart_op True w w'" and ok: "task_ok w"
  shows "task_ok w'"
  using assms(1)
proof cases
  case (Starter thr me tid rc)
  let ?v = "snd (wdDelete me (restart_wdog w) w)"
  have v: "task_ok ?v" using ok by (simp add: tasks_in_wdogs.wd_operations)
  have "threads ?v = threads w" by (simp add: wdDelete_def unlink_wdog_def)
  then have "task_ok (start_thread me (task_for me tid ?v) rc thr ?v)" if "task_for me tid ?v \<noteq> NULL"
    using v task_for_in [OF that] Starter(2,3) by (simp add: task_ok_def task_inv_start)
  with v show ?thesis unfolding Starter(1) self_starter_def Let_def by simp
next
  case (Restart me thr blk q tid rc starter junk)
  then obtain r where r: "taskRestart me tid rc thr starter blk junk w = Done (Status r, w')" by (cases q) auto
  obtain w1 where w1: "taskLock me w = Done w1"
    using r by (auto simp: taskRestart_def obind_Done_iff)
  have i1: "task_inv w1" "task_typed w1"
    using w1 ok Restart(1) task_inv_taskLock task_typed_lock(1) by (auto simp: task_ok_def)
  show ?thesis
  proof (cases "(if tid = 0 then my_task me w1 else task_for me tid w1) = NULL")
    case True
    then show ?thesis using r w1 i1
      by (auto simp: taskRestart_def Let_def task_ok_def obind_Done_iff finish_Done split: if_split_asm)
  next
    case False
    define t where "t = (if tid = 0 then my_task me w1 else task_for me tid w1)"
    define w2 where "w2 = (if waiting (tcb w1 t) \<noteq> NULL then unlink_susp_task (SemSusp (waiting (tcb w1 t))) t w1 else w1)"
    have t: "t \<noteq> NULL" using False by (simp add: t_def)
    then have other: "t \<noteq> my_task me w1"
      using r w1 by (auto simp: taskRestart_def Let_def simp flip: t_def split: if_split_asm)
    then have "t = task_for me tid w1" by (auto simp: t_def split: if_split_asm)
    with t have tin: "t \<in> set (task_list w2)" using task_for_in [of me tid w1] by (simp add: w2_def)
    obtain w3 e where w3: "cancel_join t w2 = Done w3"
      and w': "finish me e (taskUnlock me (start_thread me t rc thr w3)) = Done (r, w')"
      using r w1 t other
      by (auto simp: taskRestart_def Let_def obind_Done_iff w2_def simp flip: t_def split: if_split_asm)
    have i2: "task_inv w2" "task_typed w2" using i1 by (simp_all add: w2_def)
    have "thr \<notin> threads w2" using Restart(3) w1 by (simp add: w2_def taskLock_frame)
    with i2(1) tin w3 Restart(2) have "task_inv (start_thread me t rc thr w3)" by (intro task_inv_restart)
    moreover have "task_typed w3" using w3 i2(2) by (rule task_typed_cancel)
    ultimately show ?thesis
      using w' Restart(1) task_inv_finish(1) task_typed_finish(1) task_inv_taskUnlock
      by (auto simp: task_ok_def)
  qed
qed

lemma task_ok_set_priority [simp]:
  assumes "task_ok w"
  shows "task_ok (set_priority t (prio_max w p) w)" and "task_ok (set_priority t (prio_max w p - 1) w)"
proof -
  have "task_ok (set_priority t q w)" if "in_s32 q" for q
    using assms that task_typed_tcb(1) [of w t]
    by (auto simp: task_ok_def set_priority_def tcb_typed_def intro!: task_typed_upd)
  then show "task_ok (set_priority t (prio_max w p) w)" "task_ok (set_priority t (prio_max w p - 1) w)"
    using assms task_typed_tcb by (simp_all add: task_ok_def)
qed

lemma set_priority_frame [simp]:
  "task_list (set_priority t q w) = task_list w" "threads (set_priority t q w) = threads w"
  by (simp_all add: set_priority_def)

text \<open>A task that is initialised, given a priority and activated.\<close>

lemma task_ok_init:
  assumes "taskInit me a name pri opts f args nb w = Done (r, w')" and "task_ok w" and "a \<notin> set (task_list w)"
  shows "task_ok w'" and "threads w' = threads w" and "prio_max w' = prio_max w"
  using assms task_inv_taskInit task_typed_init
  by (auto simp: task_ok_def elim!: taskInit_cases)

lemma task_ok_activate:
  assumes "taskActivate me tid rc thr w = Done (r, w')" and "task_ok w" and "me \<noteq> 0" and "thr \<noteq> 0" and "thr \<notin> threads w"
  shows "task_ok w'"
  using assms task_inv_taskActivate task_typed_activate unfolding task_ok_def by blast

lemma task_ok_start_excp:
  assumes "start_excp me a entry nb rc thr w = Done w'" and "task_ok w" and "a \<notin> set (task_list w)"
    and "me \<noteq> 0" and "thr \<noteq> 0" and "thr \<notin> threads w"
  shows "task_ok w'"
proof -
  obtain e w1 e' where w1: "taskInit me a (Some ''tExcTask'') 0 0 entry (replicate 10 0) nb w = Done (e, w1)"
    and w': "taskActivate me (taskid (tcb (set_priority a (prio_max w1 SCHED_FIFO - 1) w1) a)) rc thr
      (set_priority a (prio_max w1 SCHED_FIFO - 1) w1) = Done (e', w')"
    using assms(1) by (auto simp: start_excp_def obind_Done_iff Let_def)
  note i = task_ok_init [OF w1 assms(2,3)]
  show ?thesis using w' by (rule task_ok_activate) (use i(1,2) assms(4-6) in simp_all)
qed

lemma task_ok_main_start:
  assumes "main_start me a entry nb rc thr w = Done w'" and "task_ok w" and "a \<notin> set (task_list w)"
    and "me \<noteq> 0" and "thr \<noteq> 0" and "thr \<notin> threads w"
  shows "task_ok w'"
proof -
  obtain e w1 e' w2 where w1: "taskInit me a (Some ''tUsrRoot'') 0 0 entry (replicate 10 0) nb w = Done (e, w1)"
    and w2: "taskActivate me (taskid (tcb (set_priority a (prio_max w1 SCHED_FIFO) w1) a)) rc thr
      (set_priority a (prio_max w1 SCHED_FIFO) w1) = Done (e', w2)" and w': "w' = set_errno me 0 w2"
    using assms(1) by (auto simp: main_start_def obind_Done_iff Let_def)
  note i = task_ok_init [OF w1 assms(2,3)]
  have "task_ok w2" using w2 by (rule task_ok_activate) (use i(1,2) assms(4-6) in simp_all)
  then show ?thesis unfolding w' by (rule tasks_in_sems.errno)
qed

lemma task_ok_v2lin_init:
  assumes init: "v2lin_init me root nb excp entry nb' rc thr w = Done (r, w')" and ok: "task_ok w"
    and me: "me \<noteq> 0" "me \<in> threads w" and fresh: "task_list w = []" "root \<noteq> NULL" "root \<noteq> excp"
    and thr: "thr \<noteq> 0" "thr \<notin> threads w"
  shows "task_ok w'"
proof -
  obtain t where t: "taskInit me root (Some ''tUsrRoot'') 0 0 NULL (replicate 10 0) nb w =
      Done (OK, w\<lparr>tasks := (tasks w)(root \<mapsto> t), task_list := task_list w @ [root]\<rparr>)"
    using taskInit_zero [OF fresh(2), of me "Some ''tUsrRoot''" NULL "replicate 10 0" nb w] by blast
  define w1 where "w1 = w\<lparr>tasks := (tasks w)(root \<mapsto> t), task_list := task_list w @ [root]\<rparr>"
  have i1: "task_ok w1" "threads w1 = threads w" "task_list w1 = [root]"
    using task_ok_init [OF t ok] fresh(1) by (simp_all add: w1_def)
  define w2 where "w2 = set_priority root (prio_max w1 SCHED_FIFO) w1"
  have i2: "task_ok w2" "threads w2 = threads w" "task_list w2 = [root]" using i1 by (simp_all add: w2_def)
  define w3 where "w3 = upd_task root (\<lambda>t. t\<lparr>state := READY, pthrid := me\<rparr>) w2"
  have root: "root \<in> dom (tasks w2)" using i2(1,3) by (simp add: task_ok_def task_inv_def task_wf_def del: domIff)
  then have r3: "tcb w3 root = tcb w2 root\<lparr>state := READY, pthrid := me\<rparr>" by (simp add: w3_def del: domIff)
  have i3: "task_ok w3"
  proof -
    have "task_typed w3" using i2(1) by (simp add: w3_def task_ok_def)
    moreover have "task_wf w3" "lock_wf w3"
      using i2(1) by (simp_all add: w3_def task_ok_def task_inv_def task_wf_def lock_wf_def del: domIff)
    moreover have "task_list w3 = [root]" "threads w3 = threads w" by (simp_all add: w3_def i2)
    ultimately show ?thesis using r3 me(2) by (simp add: task_ok_def task_inv_def)
  qed
  obtain e w4 where w4: "taskActivate me (taskid (tcb w3 root)) 0 0 w3 = Done (e, w4)"
    and w5: "start_excp me excp entry nb' rc thr w4 = Done w'"
    using init t by (auto simp: v2lin_init_def Let_def obind_Done_iff simp flip: w1_def w2_def w3_def)
  have "task_ok w4 \<and> threads w4 = threads w3 \<and> task_list w4 = task_list w3"
    using w4
  proof (cases rule: taskActivate_cases)
    case (4 v v')
    then have "task_for me (taskid (tcb w3 root)) v = root"
      using task_for_in [OF 4(2)] i2(3) by (simp add: taskLock_frame w3_def)
    then have "state (tcb w3 root) = DEAD" using 4(1,5) by (simp add: taskLock_fields)
    then show ?thesis using r3 by (simp add: vxw_codes)
  qed (use i3 me(1) in \<open>auto simp: taskLock_frame dest: tasks_in_sems.lock intro!: tasks_in_sems.unlock tasks_in_sems.errno\<close>)
  with w5 show ?thesis
    by (intro task_ok_start_excp [OF w5]) (use fresh(3) i2 me(1) thr in \<open>simp_all add: w3_def\<close>)
qed

lemma task_ok_timeSlice:
  assumes "kernelTimeSlice me n w = Done (r, w')" and "task_ok w" and "me \<noteq> 0"
  shows "task_ok w'"
proof -
  have one: "task_ok (set_policy p t v)" if "task_ok v" for p t v
    using that by (simp add: task_ok_def set_policy_def)
  have fold: "task_ok (fold (set_policy p) ts v)" if "task_ok v" for p ts v
    using that by (induction ts arbitrary: v) (simp_all add: one)
  obtain w1 p where w1: "taskLock me w = Done w1"
    and w': "w' = taskUnlock me (fold (set_policy p) (task_list w1) (w1\<lparr>round_robin_enabled := (n \<noteq> 0)\<rparr>))"
    using assms(1) by (auto simp: kernelTimeSlice_def obind_Done_iff Let_def)
  have "task_ok (w1\<lparr>round_robin_enabled := (n \<noteq> 0)\<rparr>)"
    using tasks_in_sems.lock [OF w1 assms(3,2)] by (simp add: task_ok_def)
  then show ?thesis unfolding w' by (rule tasks_in_sems.unlock [OF assms(3) fold])
qed

lemma task_ok_kernel_op:
  assumes op: "kernel_op w w'" and ok: "task_ok w"
  shows "task_ok w'"
  using op
proof cases
  case (TimeSlice me n r)
  show ?thesis by (rule task_ok_timeSlice [OF TimeSlice(2) ok TimeSlice(1)])
next
  case RoundRobin
  then show ?thesis using ok by (elim disjE) (simp_all add: enableRoundRobin_def disableRoundRobin_def task_ok_def)
next
  case (Init me root excp thr nb entry nb' rc r)
  show ?thesis by (rule task_ok_v2lin_init [OF Init(8) ok Init(1-7)])
next
  case (Main me rt thr entry nb rc)
  show ?thesis by (rule task_ok_main_start [OF Main(5) ok Main(2,1,3,4)])
next
  case (RootTask me excp thr entry nb rc)
  have "start_excp me excp entry nb rc thr w = Done w'" using RootTask(5) by (simp add: root_task_start_def)
  then show ?thesis by (rule task_ok_start_excp [OF _ ok RootTask(2,1,3,4)])
qed


section \<open>The invariant of the system\<close>

text \<open>Each part of the invariant rests on one of the conditions of a \<open>usage\<close>, or on none.\<close>

definition sys_under :: "usage \<Rightarrow> world \<Rightarrow> bool" where
  "sys_under u w \<longleftrightarrow> (no_self_restart u \<longrightarrow> task_ok w) \<and> sems_under (task_callers u) w
     \<and> mq_under (queue_limits u) w \<and> wd_inv w"

definition sys_inv :: "world \<Rightarrow> bool" where
  "sys_inv w \<longleftrightarrow> task_ok w \<and> sems_inv w \<and> mq_inv w \<and> wd_inv w"

lemma sys_inv_under: "sys_inv w \<Longrightarrow> sys_under u w"
  by (simp add: sys_inv_def sys_under_def sems_inv_def sems_under_def mq_inv_def mq_under_def)

lemma sys_inv_start:
  assumes "main \<noteq> 0" and "\<And>p. 0 \<le> lo p \<and> lo p \<le> hi p \<and> in_s32 (hi p)"
  shows "sys_inv ((boot_world lo hi)\<lparr>threads := {main}\<rparr>)"
proof -
  have "sem_typed zero_sem" by (simp add: sem_typed_def zero_sem_def in_s32_def)
  moreover have "in_s32 0" by (simp add: in_s32_def)
  ultimately show ?thesis
    using assms(2) tcb_typed_zero
    by (simp add: sys_inv_def task_ok_def task_inv_def task_wf_def lock_wf_def boot_world_def task_typed_def
        tcb_def sems_inv_def mutexes_ok_def sems_typed_def smcb_def mq_inv_def rings_ok_def qlist_ok_def
        wd_inv_def wd_wf_def wdcb_def zero_wdog_def)
qed

text \<open>A task that restarts itself makes and starts a watchdog.\<close>

lemma wd_inv_selfRestart:
  assumes "wd_inv w" and "blk \<notin> dom (wdogs w)"
  shows "wd_inv (selfRestart me starter blk junk t w)"
proof -
  obtain d v where d: "wdCreate blk junk w = (d, v)" by fastforce
  have "wd_inv v" by (rule wd_inv_op [OF wd_op.Create [OF assms(2) d] assms(1)])
  then have i: "wd_inv (v\<lparr>restart_wdog := d\<rparr>)" by (simp add: wd_inv_def wd_wf_def wdcb_def)
  have "wd_inv (snd (wdStart me d 1 starter q (v\<lparr>restart_wdog := d\<rparr>)))" for q
    by (rule wd_inv_op [OF wd_op.Start [OF _ surjective_pairing] i]) (simp add: in_s32_def)
  with i show ?thesis by (auto simp: selfRestart_def d Let_def)
qed

lemma wd_inv_restart:
  assumes r: "taskRestart me tid rc thr starter blk junk w = Done (r, w')" and i: "wd_inv w"
    and blk: "blk \<notin> dom (wdogs w)"
  shows "wd_inv w'"
proof (cases r)
  case (Status e)
  with r i show ?thesis using wdogs_in_tasks.restart_other by blast
next
  case ThreadEnds
  obtain w1 where w1: "taskLock me w = Done w1" using r by (auto simp: taskRestart_def obind_Done_iff)
  have l1: "wd_inv w1" "wdogs w1 = wdogs w" using w1 i by (simp_all add: wdogs_in_tasks.lock taskLock_frame)
  obtain w2 where w2: "wd_inv w2" "wdogs w2 = wdogs w" and w': "w' = task_wrapper_cleanup me
      ((selfRestart me starter blk junk (my_task me w1) w2)\<lparr>threads := threads (selfRestart me starter blk junk (my_task me w1) w2) - {me}\<rparr>)"
  proof -
    let ?t = "my_task me w1"
    let ?w2 = "if waiting (tcb w1 ?t) \<noteq> NULL then unlink_susp_task (SemSusp (waiting (tcb w1 ?t))) ?t w1 else w1"
    have "wdogs (unlink_susp_task (SemSusp a) b v) = wdogs v" for a b v by (simp add: unlink_susp_task_def)
    then have "wd_inv ?w2" "wdogs ?w2 = wdogs w" using l1 by simp_all
    moreover have "w' = task_wrapper_cleanup me
      ((selfRestart me starter blk junk ?t ?w2)\<lparr>threads := threads (selfRestart me starter blk junk ?t ?w2) - {me}\<rparr>)"
      using r w1 ThreadEnds
      by (auto simp: taskRestart_def Let_def obind_Done_iff simp del: wdogs_in_tasks.basic split: if_split_asm)
    ultimately show thesis by (rule that)
  qed
  have "wd_inv (selfRestart me starter blk junk (my_task me w1) w2)"
    by (rule wd_inv_selfRestart) (use w2 blk in simp_all)
  then show ?thesis unfolding w' by (simp add: wdogs_in_tasks.cleanup wdogs_in_tasks.indep)
qed

lemma wd_inv_restart_op:
  assumes op: "restart_op b w w'" and wd: "wd_inv w"
  shows "wd_inv w'"
  using op
proof cases
  case (Starter thr me tid rc)
  have "wd_inv (snd (wdDelete me (restart_wdog v) v))" if "wd_inv v" for v
    by (rule wd_inv_op [OF wd_op.Delete [OF surjective_pairing] that])
  then show ?thesis using wd by (simp add: Starter(1) self_starter_def Let_def wdogs_in_tasks.start_thread)
qed (use wd wd_inv_restart in blast)

lemma task_ok_sys_step:
  assumes "sys_step u w w'" and "no_self_restart u" and "task_ok w"
  shows "task_ok w'"
  using assms(1)
proof cases
  case Restart
  then show ?thesis using assms(2,3) task_ok_restart_op by simp
qed (use assms(3) task_ok_step tasks_in_sems.op tasks_in_queues.op tasks_in_wdogs.op task_ok_kernel_op in blast)+

lemma sems_under_sys_step:
  assumes "sys_step u w w'" and "sems_under (task_callers u) w"
  shows "sems_under (task_callers u) w'"
  using assms
  by cases (auto simp: sems_elsewhere.step sems_elsewhere.op sems_elsewhere.op_restart sems_elsewhere.kernel
      intro: sems_under_op sems_in_queues.op)

lemma mq_under_sys_step:
  assumes "sys_step u w w'" and "mq_under (queue_limits u) w"
  shows "mq_under (queue_limits u) w'"
  using assms
  by cases (auto simp: queues_elsewhere.step queues_elsewhere.op queues_elsewhere.op_restart queues_elsewhere.kernel
      intro: mq_under_step queues_in_sems.op)

lemma wd_inv_sys_step:
  assumes "sys_step u w w'" and "wd_inv w"
  shows "wd_inv w'"
  using assms
  by cases (auto simp: wdogs_in_tasks.step wdogs_in_tasks.kernel
      intro: wdogs_in_sems.op wdogs_in_queues.op wd_inv_op wd_inv_restart_op)

lemma sys_under_step: "sys_step u w w' \<Longrightarrow> sys_under u w \<Longrightarrow> sys_under u w'"
  using task_ok_sys_step sems_under_sys_step mq_under_sys_step wd_inv_sys_step
  unfolding sys_under_def by blast

lemma sys_reach_under: "sys_reach u w \<Longrightarrow> sys_under u w"
proof (induction rule: sys_reach.induct)
  case (Start main lo hi)
  then show ?case by (intro sys_inv_under sys_inv_start)
next
  case (Step w w')
  then show ?case by (blast intro: sys_under_step)
qed


section \<open>The options that creation refuses\<close>

text \<open>\<^verbatim>\<open>semTake\<close> and \<^verbatim>\<open>semGive\<close> have code for deletion-safe mutexes and for priority
  inversion. A semaphore with these options cannot exist, so that this code is dead.\<close>

definition safe_counts :: "world \<Rightarrow> addr \<Rightarrow> int" where
  "safe_counts w t = delete_safe_count (tcb w t)"

lemma safe_counts_upd:
  "(\<And>x. delete_safe_count (f x) = delete_safe_count x) \<Longrightarrow> safe_counts (upd_task a f w) = safe_counts w"
  by (simp add: safe_counts_def fun_eq_iff tcb_upd_field)

lemma safe_counts_cong: "tasks w' = tasks w \<Longrightarrow> safe_counts w' = safe_counts w"
  by (simp add: safe_counts_def tcb_def fun_eq_iff)

lemma safe_counts_frame [simp]:
  "safe_counts (upd_sem s g w) = safe_counts w" "safe_counts (set_errno me e w) = safe_counts w"
  "safe_counts (w\<lparr>sems := ss\<rparr>) = safe_counts w" "safe_counts (w\<lparr>sem_list := ks\<rparr>) = safe_counts w"
  "safe_counts (free_sem s w) = safe_counts w" "safe_counts (link_smcb s w) = safe_counts w"
  by (rule safe_counts_cong; simp add: free_sem_def unlink_smcb_def link_smcb_def)+

lemma safe_counts_tasks [simp]:
  "safe_counts (set_sched a p w) = safe_counts w" "safe_counts (taskUnlock me w) = safe_counts w"
  "safe_counts (upd_task a (\<lambda>t. t\<lparr>waiting := x\<rparr>) w) = safe_counts w"
  "safe_counts (upd_task a (\<lambda>t. t\<lparr>state := g t\<rparr>) w) = safe_counts w"
  by (simp_all add: safe_counts_def fun_eq_iff tcb_set_sched_field taskUnlock_field tcb_upd_field)

lemma safe_counts_susp [simp]:
  "safe_counts (link_susp_task (SemSusp s) t w) = safe_counts w"
  "safe_counts (unlink_susp_task (SemSusp s) t w) = safe_counts w"
  by (simp_all add: link_susp_task_def unlink_susp_task_def)

lemma safe_counts_lock: "taskLock me w = Done w' \<Longrightarrow> safe_counts w' = safe_counts w"
  by (simp add: safe_counts_def fun_eq_iff taskLock_field)

lemma safe_counts_delay [simp]:
  "safe_counts (taskDelay_begin me w) = safe_counts w" "safe_counts (taskDelay_end a w) = safe_counts w"
  by (simp_all add: taskDelay_begin_def taskDelay_end_def Let_def safe_counts_upd)

lemma safe_counts_finish:
  "finish me e w = Done (r, w') \<Longrightarrow> safe_counts w' = safe_counts w"
  "ret_status me e w = Done (c, w') \<Longrightarrow> safe_counts w' = safe_counts w"
  "take_return me t e w = Done (q, w') \<Longrightarrow> safe_counts w' = safe_counts w"
  by (auto simp: finish_Done ret_status_Done take_return_def obind_Done_iff Let_def)

lemma safe_counts_exit:
  assumes "take_exit me fr w = Done (r, w')" and "sems_typed w"
  shows "safe_counts w' = safe_counts w"
proof -
  let ?w1 = "unlink_susp_task (SemSusp (tf_sem fr)) (tf_task fr) w"
  have "sem_typed (smcb (upd_sem (tf_sem fr) (\<lambda>x. x\<lparr>current_owner := tf_task fr,
      recursion_level := s32 (recursion_level x + 1)\<rparr>) ?w1) (tf_sem fr))"
    using assms(2) by (intro sems_typed_sem sems_typed_upd_all) simp_all
  then show ?thesis
    using assms(1)
    by (auto simp: take_exit_def Let_def upd_sem_comp obind_Done_iff sem_typed_def dest!: safe_counts_finish(3)
        split: if_split_asm)
qed

lemma safe_counts_token:
  "token_loop me s w = (p, w') \<Longrightarrow> safe_counts w' = safe_counts w"
  "waiting_on_sem me s w = (p, w') \<Longrightarrow> safe_counts w' = safe_counts w"
proof -
  show 1: "token_loop me s w = (p, w') \<Longrightarrow> safe_counts w' = safe_counts w" for w
    by (auto simp: token_loop_def split: if_split_asm)
  show "waiting_on_sem me s w = (p, w') \<Longrightarrow> safe_counts w' = safe_counts w"
    by (auto simp: waiting_on_sem_def dest: 1 split: if_split_asm)
qed

lemma safe_counts_poll:
  "take_poll me fr (p, w) = Done (r, w') \<Longrightarrow> sems_typed w \<Longrightarrow> safe_counts w' = safe_counts w"
  by (cases p) (auto simp: take_poll_def dest: safe_counts_exit split: if_split_asm)

lemma safe_counts_polled:
  assumes "sems_typed w"
  shows "take_poll me fr (waiting_on_sem me s w) = Done (r, w') \<Longrightarrow> safe_counts w' = safe_counts w"
    and "take_poll me fr (token_loop me s w) = Done (r, w') \<Longrightarrow> safe_counts w' = safe_counts w"
  by (cases "waiting_on_sem me s w"; metis assms token_typed(2) safe_counts_token(2) safe_counts_poll)
    (cases "token_loop me s w"; metis assms token_typed(1) safe_counts_token(1) safe_counts_poll)

lemma safe_counts_inversion: "priority_inversion me s t w = Done w' \<Longrightarrow> safe_counts w' = safe_counts w"
  by (auto simp: priority_inversion_def obind_Done_iff Let_def dest!: safe_counts_lock split: if_split_asm)

lemma safe_counts_take:
  assumes "semTake me s n now w = Done (r, w')" and "sems_typed w"
  shows "safe_counts w' = safe_counts w"
proof -
  have wait: "safe_counts w' = safe_counts v"
    if "wait_for_token me s n t now v = Done (r, w')" "sems_typed v" for t v
  proof -
    from wait_for_token_polls [OF that(1)] obtain fr w3 where
      w3: "w3 = link_susp_task (SemSusp s) t v \<or> priority_inversion me s t (link_susp_task (SemSusp s) t v) = Done w3"
      and p: "take_poll me fr (waiting_on_sem me s w3) = Done (r, w')"
      by metis
    have "sems_typed w3" "safe_counts w3 = safe_counts v"
      using w3 that(2) inversion_typed [of me s t] safe_counts_inversion [of me s t] by fastforce+
    then show ?thesis using safe_counts_polled(1) [OF _ p] by simp
  qed
  show ?thesis
    using assms
    by (auto simp: semTake_def obind_Done_iff Let_def dest!: safe_counts_finish wait split: if_split_asm)
qed

lemma safe_counts_give:
  assumes "semGive me s w = Done (c, w')" and "sems_typed w"
  shows "safe_counts w' = safe_counts w"
proof -
  have tail: "safe_counts w' = safe_counts v" if "give_tail me s v = Done (c, w')"
    "sem_flags (smcb v s) AND SEM_DELETE_SAFE = 0" for v
    using that by (auto simp: give_tail_def outcome_simps dest!: safe_counts_finish safe_counts_lock split: if_split_asm)
  have "sem_flags (smcb (upd_sem s f w) s) AND SEM_DELETE_SAFE = 0"
    if "\<And>x. sem_flags (f x) = sem_flags x" for f
    using sems_typed_sem [OF assms(2), of s] smcb_upd_field [of sem_flags f s w s, OF that]
    by (simp add: sem_typed_def)
  then show ?thesis
    using assms(1)
    by (auto simp: semGive_def obind_Done_iff Let_def upd_sem_comp dest!: safe_counts_finish tail split: if_split_asm)
qed

lemma safe_counts_op:
  assumes op: "sem_op b w w'" and ty: "sems_typed w"
  shows "safe_counts w' = safe_counts w"
  using op
proof cases
  case (Give me s c)
  show ?thesis by (rule safe_counts_give [OF Give(3) ty])
next
  case (Take me s n now r)
  show ?thesis by (rule safe_counts_take [OF Take(3) ty])
next
  case (Wake me fr rc r)
  then obtain f where f: "take_poll me f (waiting_on_sem me (tf_sem fr) w) = Done (r, w')"
    by (auto simp: semTake_wake_def Let_def split: if_split_asm)
  show ?thesis by (rule safe_counts_polled(1) [OF ty f])
next
  case (TickOver me fr now r)
  let ?w = "taskDelay_end (my_task me w) w"
  have "take_poll me fr (Pair Still ?w) = Done (r, w') \<or> take_poll me fr (token_loop me (tf_sem fr) ?w) = Done (r, w')"
    using TickOver(3) by (auto simp: semTake_tick_def Let_def split: if_split_asm)
  moreover have "sems_typed ?w" using ty by simp
  ultimately have "safe_counts w' = safe_counts ?w" using safe_counts_polled(2) safe_counts_poll by blast
  then show ?thesis by simp
qed (auto simp: semBCreate_def semCCreate_def semMCreate_def semDelete_def semDelete_resume_def semFlush_def
    semFlush_resume_def obind_Done_iff Let_def dest!: safe_counts_finish safe_counts_lock split: if_split_asm)

text \<open>The operations of the tasks and the kernel leave the lists of objects alone.\<close>

interpretation registries: stable_task "\<lambda>w. sem_list w = ss \<and> mqueue_list w = qs \<and> wdog_list w = ds" for ss qs ds
  by unfold_locales simp_all

end
