(* ===== verification/Show_Lib.thy ===== *)
theory Show_Lib
  imports Kernel_Lib MsgQ_Lib
begin

text \<open>
  The functions that print the state: \<^verbatim>\<open>display_task\<close>, \<^verbatim>\<open>taskShow\<close> and \<^verbatim>\<open>taskList\<close> of
  \<^verbatim>\<open>lib/ltaskLib.c\<close>, \<^verbatim>\<open>semShow\<close> and \<^verbatim>\<open>semList\<close> of \<^verbatim>\<open>lib/lsemLib.c\<close>, \<^verbatim>\<open>msgQShow\<close> and
  \<^verbatim>\<open>msgQList\<close> of \<^verbatim>\<open>lib/lmsgQLib.c\<close>, \<^verbatim>\<open>wdogShow\<close> of \<^verbatim>\<open>lib/lwdLib.c\<close>. They follow the
  pointers between the control blocks, so that what matters is which block they read: reading
  one that was freed is \<open>Crashed\<close>.
\<close>


section \<open>What is printed\<close>

text \<open>The output is the list of the calls of \<^verbatim>\<open>fprintf\<close>: the format and the arguments.
  \<open>words a\<close> are the \<^verbatim>\<open>int\<close> words of the control block at \<open>a\<close>, whose layout is not
  modelled, and \<open>waiting_m a\<close> is the field of that name, the scheduler lock while the
  task stands in \<^verbatim>\<open>taskLock\<close> and \<open>NULL\<close> otherwise.\<close>

datatype parg = PPtr addr | PThread pthread | PInt int | PWord "32 word" | PLevel "64 word" | PStr "string option"

text \<open>The character that ends a line.\<close>

definition newline :: string where
  "newline = [CHR 0x0A]"

type_synonym printed = "(string \<times> parg list) list"

definition dump_words :: "(addr \<Rightarrow> int list) \<Rightarrow> int \<Rightarrow> addr \<Rightarrow> printed" where
  "dump_words words mem a = (if mem \<noteq> 0 then map (\<lambda>x. (''%x '', [PInt x])) (words a) else [])"

text \<open>\<^verbatim>\<open>t->taskname\<close> through a pointer.\<close>

definition name_of :: "addr \<Rightarrow> world \<Rightarrow> string option outcome" where
  "name_of t w = (case tasks w t of None \<Rightarrow> Crashed | Some x \<Rightarrow> Done (taskname x))"


section \<open>Tasks\<close>

fun policy_name :: "sched_policy \<Rightarrow> string" where
  "policy_name SCHED_FIFO = ''SCHED_FIFO ''"
| "policy_name SCHED_RR = ''SCHED_RR ''"
| "policy_name SCHED_OTHER = ''SCHED_OTHER ''"

text \<open>The detach state of the attributes of a task is the argument \<open>detached\<close>.\<close>

definition display_task :: "(addr \<Rightarrow> int) \<Rightarrow> pthread \<Rightarrow> int \<Rightarrow> world \<Rightarrow> printed" where
  "display_task detached me tid w =
     (let cur_task = task_for me (s32 tid) w in
      if cur_task = NULL then []
      else
        let t = tcb w cur_task in
        [(''Task %x Name: %s  Task ID: %d  Thread ID: %lx  Vxworks priority: %d'',
            [PPtr cur_task, PStr (taskname t), PInt (taskid t), PThread (pthrid t), PInt (vxw_priority t)]),
         (''schedpolicy: '' @ policy_name (attr_policy t), []),
         ('' priority %d '', [PInt (attr_priority t)]),
         ('' prv_priority %d '', [PInt (prv_priority t)]),
         ('' detachstate %d '', [PInt (detached cur_task)]),
         (newline, [])])"

text \<open>The owner of the semaphore a task waits for, as \<^verbatim>\<open>taskShow\<close> finds it: nothing is printed
  without one.\<close>

definition owner_of_waited :: "addr \<Rightarrow> world \<Rightarrow> printed outcome" where
  "owner_of_waited s w =
     (if s = NULL then Done []
      else case sems w s of
        None \<Rightarrow> Crashed
      | Some v \<Rightarrow>
          if current_owner v = NULL then Done []
          else obind (name_of (current_owner v) w) (\<lambda>n. Done [(''%s '', [PStr n])]))"

definition first_of :: "addr list \<Rightarrow> addr" where
  "first_of xs = (case xs of [] \<Rightarrow> NULL | x # _ \<Rightarrow> x)"

definition taskShow :: "(addr \<Rightarrow> addr) \<Rightarrow> addr \<Rightarrow> world \<Rightarrow> printed outcome" where
  "taskShow waiting_m a w =
     (case tasks w a of
        None \<Rightarrow> Crashed
      | Some t \<Rightarrow>
          obind (owner_of_waited (waiting t) w) (\<lambda>owner.
            Done ([(''%#10x %10x %10s '', [PInt (taskid t), PPtr a, PStr (taskname t)]),
                   (''th:%x '', [PThread (pthrid t)]),
                   (''s:%#x '', [PWord (state t)])]
                  @ (if state t AND PEND \<noteq> 0 then [(''P '', [])] else [])
                  @ (if state t AND DELAY \<noteq> 0 then [(''D '', [])] else [])
                  @ [(''w:%x '', [PPtr (waiting t)])]
                  @ owner
                  @ [(''w:%x '', [PPtr (waiting_m a)]),
                     (''s:%x '', [PPtr (first_of (t_first_susp t))]),
                     (policy_name (attr_policy t), []),
                     ('' pri %d '', [PInt (attr_priority t)]),
                     ('' prv_pri %d '', [PInt (prv_priority t)]),
                     (newline, [])])))"

text \<open>The loop over the list, with the number of tasks shown so far.\<close>

fun taskList_from ::
  "(addr \<Rightarrow> int list) \<Rightarrow> (addr \<Rightarrow> addr) \<Rightarrow> int \<Rightarrow> world \<Rightarrow> int \<Rightarrow> addr list \<Rightarrow> (printed \<times> int) outcome" where
  "taskList_from words waiting_m mem w c [] = Done ([], c)"
| "taskList_from words waiting_m mem w c (t # ts) =
     obind (taskShow waiting_m t w) (\<lambda>shown.
       obind (taskList_from words waiting_m mem w (s32 (c + 1)) ts) (\<lambda>(rest, n).
         Done (shown @ dump_words words mem t @ (if mem \<noteq> 0 then [(newline, [])] else []) @ rest, n)))"

definition taskList :: "(addr \<Rightarrow> int list) \<Rightarrow> (addr \<Rightarrow> addr) \<Rightarrow> int \<Rightarrow> world \<Rightarrow> (printed \<times> int) outcome" where
  "taskList words waiting_m mem w =
     obind (taskList_from words waiting_m mem w 0 (task_list w)) (\<lambda>(out, c).
       Done ([(''locker=%x'' @ newline, [PThread (locker w)]),
              (''taskLock_level=%x'' @ newline, [PLevel (taskLock_level w)])] @ out, c))"


section \<open>Semaphores\<close>

text \<open>The waiting tasks with their names.\<close>

fun show_waiters :: "world \<Rightarrow> addr list \<Rightarrow> printed outcome" where
  "show_waiters w [] = Done []"
| "show_waiters w (t # ts) =
     obind (name_of t w) (\<lambda>n. obind (show_waiters w ts) (\<lambda>rest.
       Done ([(''%x '', [PPtr t]), (''%s '', [PStr n])] @ rest)))"

definition semShow :: "(addr \<Rightarrow> int list) \<Rightarrow> addr \<Rightarrow> int \<Rightarrow> world \<Rightarrow> printed outcome" where
  "semShow words s mem w =
     (case sems w s of
        None \<Rightarrow> Crashed
      | Some v \<Rightarrow>
          obind (if current_owner v = NULL then Done []
                 else if current_owner v \<notin> set (task_list w) then Done [(''<deleted> '', [])]
                 else obind (name_of (current_owner v) w) (\<lambda>n. Done [(''%s '', [PStr n])])) (\<lambda>owner.
            obind (show_waiters w (sem_first_susp v)) (\<lambda>waiters.
              Done ([(''o:%x '', [PPtr (current_owner v)])] @ owner
                    @ [(''rl:%i '', [PInt (recursion_level v)]), (''tc:%i '', [PInt (token_count v)]), (''('', [])]
                    @ waiters @ [('') '', []), (''%x '', [PWord (send_type v)])]
                    @ dump_words words mem s @ [(newline, [])]))))"

fun semList_from ::
  "(addr \<Rightarrow> int list) \<Rightarrow> int \<Rightarrow> world \<Rightarrow> int \<Rightarrow> addr list \<Rightarrow> (printed \<times> int) outcome" where
  "semList_from words mem w c [] = Done ([], c)"
| "semList_from words mem w c (s # ss) =
     obind (semShow words s mem w) (\<lambda>shown.
       obind (semList_from words mem w (s32 (c + 1)) ss) (\<lambda>(rest, n).
         Done ([(''%i %x: '', [PInt (s32 (c + 1)), PPtr s])] @ shown @ rest, n)))"

definition semList :: "(addr \<Rightarrow> int list) \<Rightarrow> int \<Rightarrow> world \<Rightarrow> (printed \<times> int) outcome" where
  "semList words mem w = semList_from words mem w 0 (sem_list w)"


section \<open>Message queues\<close>

text \<open>At most eleven waiting tasks are shown: the loop ends when \<^verbatim>\<open>i > 10\<close>.\<close>

fun show_susp :: "world \<Rightarrow> int \<Rightarrow> addr list \<Rightarrow> printed outcome" where
  "show_susp w i [] = Done []"
| "show_susp w i (t # ts) =
     obind (name_of t w) (\<lambda>n.
       obind (if i + 1 > 10 then Done [] else show_susp w (i + 1) ts) (\<lambda>rest.
         Done ((''%x %s '', [PPtr t, PStr n]) # rest)))"

definition msgQShow :: "(addr \<Rightarrow> int list) \<Rightarrow> addr \<Rightarrow> int \<Rightarrow> world \<Rightarrow> (printed \<times> int) outcome" where
  "msgQShow words a mem w =
     (case queues w a of
        None \<Rightarrow> Crashed
      | Some q \<Rightarrow>
          obind (show_susp w 0 (q_first_susp q)) (\<lambda>readers.
            obind (show_susp w 0 (q_first_write_susp q)) (\<lambda>writers.
              Done ([(''%x num=%i len=%i: '', [PPtr a, PInt (msgs_per_queue q), PInt (s32 (msg_len q))]),
                     (''readers: '', [])] @ readers @ [(''writers: '', [])] @ writers
                    @ dump_words words mem a @ [(newline, [])], 0))))"

fun msgQList_from ::
  "(addr \<Rightarrow> int list) \<Rightarrow> int \<Rightarrow> world \<Rightarrow> int \<Rightarrow> addr list \<Rightarrow> (printed \<times> int) outcome" where
  "msgQList_from words mem w c [] = Done ([], c)"
| "msgQList_from words mem w c (q # qs) =
     obind (msgQShow words q mem w) (\<lambda>(shown, _).
       obind (msgQList_from words mem w (s32 (c + 1)) qs) (\<lambda>(rest, n).
         Done ([(''%i '', [PInt (s32 (c + 1))])] @ shown @ rest, n)))"

definition msgQList :: "(addr \<Rightarrow> int list) \<Rightarrow> int \<Rightarrow> world \<Rightarrow> (printed \<times> int) outcome" where
  "msgQList words mem w = msgQList_from words mem w 0 (mqueue_list w)"


section \<open>Watchdogs\<close>

fun wdogShow_from :: "world \<Rightarrow> int \<Rightarrow> addr list \<Rightarrow> (printed \<times> int) outcome" where
  "wdogShow_from w i [] = Done ([], i)"
| "wdogShow_from w i (d # ds) =
     (case wdogs w d of
        None \<Rightarrow> Crashed
      | Some wd \<Rightarrow>
          obind (wdogShow_from w (s32 (i + 1)) ds) (\<lambda>(rest, n).
            Done ((''%x %i %i'' @ newline,
                   [PPtr (timeout_func wd), PInt (ticks_remaining wd), PInt (timeout_parm wd)]) # rest, n)))"

definition wdogShow :: "world \<Rightarrow> (printed \<times> int) outcome" where
  "wdogShow w = wdogShow_from w 0 (wdog_list w)"

section \<open>Lemmas: what the lists show\<close>

text \<open>No pointer is bad when every waiting task exists.\<close>

lemma name_of_Done: "t \<in> dom (tasks w) \<Longrightarrow> name_of t w = Done (taskname (tcb w t))"
  by (auto simp: name_of_def tcb_def)

lemma name_of_freed: "t \<notin> dom (tasks w) \<Longrightarrow> name_of t w = Crashed"
  by (simp add: name_of_def domIff)

lemma show_waiters_Done:
  "set ts \<subseteq> dom (tasks w) \<Longrightarrow>
     show_waiters w ts = Done (concat (map (\<lambda>t. [(''%x '', [PPtr t]), (''%s '', [PStr (taskname (tcb w t))])]) ts))"
  by (induction ts) (simp_all add: name_of_Done del: domIff)

definition owner_shown :: "addr \<Rightarrow> world \<Rightarrow> printed" where
  "owner_shown t w = (if t = NULL then [] else if t \<notin> set (task_list w) then [(''<deleted> '', [])]
     else [(''%s '', [PStr (taskname (tcb w t))])])"

lemma semShow_Done:
  assumes "s \<in> dom (sems w)" and "set (sem_first_susp (smcb w s)) \<subseteq> dom (tasks w)" and "set (task_list w) \<subseteq> dom (tasks w)"
  obtains rest where "semShow words s mem w = Done ((''o:%x '', [PPtr (current_owner (smcb w s))])
      # owner_shown (current_owner (smcb w s)) w @ rest)"
    and "\<And>args. (''%i %x: '', args) \<notin> set rest" and "(''<deleted> '', []) \<notin> set rest"
proof -
  obtain v where v: "sems w s = Some v" "smcb w s = v" using assms(1) by (auto simp: smcb_def)
  have "(if current_owner v = NULL then Done []
         else if current_owner v \<notin> set (task_list w) then Done [(''<deleted> '', [])]
         else obind (name_of (current_owner v) w) (\<lambda>n. Done [(''%s '', [PStr n])])) = Done (owner_shown (current_owner v) w)"
    using name_of_Done [OF subsetD [OF assms(3)]] by (simp add: owner_shown_def)
  then show thesis
    using v assms(2)
    by (intro that) (auto simp: semShow_def show_waiters_Done dump_words_def newline_def simp del: domIff)
qed

lemma semList_from_Done:
  assumes "set ss \<subseteq> dom (sems w)" and "\<And>s. s \<in> set ss \<Longrightarrow> set (sem_first_susp (smcb w s)) \<subseteq> dom (tasks w)"
    and "set (task_list w) \<subseteq> dom (tasks w)" and "0 \<le> c" and "c + int (length ss) < 2147483648"
  shows "\<exists>out. semList_from words mem w c ss = Done (out, c + int (length ss))
     \<and> filter (\<lambda>(f, _). f = ''%i %x: '') out
         = map (\<lambda>i. (''%i %x: '', [PInt (c + int i + 1), PPtr (ss ! i)])) [0..<length ss]"
  using assms
proof (induction ss arbitrary: c)
  case Nil
  then show ?case by simp
next
  case (Cons s ss)
  obtain rest where rest: "semShow words s mem w = Done ((''o:%x '', [PPtr (current_owner (smcb w s))])
      # owner_shown (current_owner (smcb w s)) w @ rest)" "\<And>args. (''%i %x: '', args) \<notin> set rest"
    by (rule semShow_Done [of s w words mem]) (use Cons.prems(1-3) in \<open>simp_all del: domIff\<close>)
  have none: "filter (\<lambda>(f, _). f = ''%i %x: '') (owner_shown t w @ rest) = []" for t
    using rest(2) by (auto simp: owner_shown_def filter_empty_conv)
  define d where "d = c + 1"
  have c: "s32 (c + 1) = d" "c + int (length (s # ss)) = d + int (length ss)" "c + int 0 + 1 = d"
    "\<And>i. c + int (Suc i) + 1 = d + int i + 1"
    using Cons.prems(4,5) by (simp_all add: s32_id in_s32_def d_def)
  obtain out where out: "semList_from words mem w d ss = Done (out, d + int (length ss))"
    "filter (\<lambda>(f, _). f = ''%i %x: '') out = map (\<lambda>i. (''%i %x: '', [PInt (d + int i + 1), PPtr (ss ! i)])) [0..<length ss]"
    using Cons.IH [of d] Cons.prems by (simp add: d_def del: domIff) blast
  have upt: "map f [0..<length (s # ss)] = f 0 # map (\<lambda>i. f (Suc i)) [0..<length ss]" for f :: "nat \<Rightarrow> string \<times> parg list"
    by (simp add: upt_conv_Cons map_Suc_upt [symmetric] o_def del: upt_Suc)
  have "semList_from words mem w c (s # ss) = Done ([(''%i %x: '', [PInt d, PPtr s])]
      @ ((''o:%x '', [PPtr (current_owner (smcb w s))]) # owner_shown (current_owner (smcb w s)) w @ rest) @ out, d + int (length ss))"
    using rest(1) out(1) by (simp add: c(1))
  then show ?case
    unfolding c(2) upt c(3,4) by (intro exI conjI, assumption) (use none out(2) in simp)
qed

text \<open>\<^verbatim>\<open>msgQShow\<close> shows the first eleven waiting tasks.\<close>

lemma show_susp_Done:
  assumes "set ts \<subseteq> dom (tasks w)" and "i \<le> 10"
  shows "show_susp w i ts = Done (map (\<lambda>t. (''%x %s '', [PPtr t, PStr (taskname (tcb w t))])) (take (nat (11 - i)) ts))"
  using assms
proof (induction ts arbitrary: i)
  case Nil
  then show ?case by simp
next
  case (Cons t ts)
  have n: "name_of t w = Done (taskname (tcb w t))" using Cons.prems(1) by (intro name_of_Done) simp
  show ?case
  proof (cases "i = 10")
    case False
    then have "nat (11 - i) = Suc (nat (11 - (i + 1)))" using Cons.prems(2) by simp
    then show ?thesis using Cons False n by simp
  qed (use n in simp)
qed

lemma wdogShow_Done:
  assumes "wd_wf w" and "length (wdog_list w) < 2147483648"
  shows "wdogShow w = Done (map (\<lambda>d. (''%x %i %i'' @ newline, [PPtr (timeout_func (wdcb w d)),
      PInt (ticks_remaining (wdcb w d)), PInt (timeout_parm (wdcb w d))])) (wdog_list w), int (length (wdog_list w)))"
proof -
  have "wdogShow_from w i ds = Done (map (\<lambda>d. (''%x %i %i'' @ newline, [PPtr (timeout_func (wdcb w d)),
      PInt (ticks_remaining (wdcb w d)), PInt (timeout_parm (wdcb w d))])) ds, i + int (length ds))"
    if "set ds \<subseteq> dom (wdogs w)" "0 \<le> i" "i + int (length ds) < 2147483648" for i ds
    using that
  proof (induction ds arbitrary: i)
    case (Cons d ds)
    obtain wd where wd: "wdogs w d = Some wd" using Cons.prems(1) by auto
    have "s32 (i + 1) = i + 1" using Cons.prems(2,3) by (simp add: s32_id in_s32_def)
    then show ?case using Cons.IH [of "i + 1"] Cons.prems wd by (simp add: wdcb_def)
  qed simp
  then show ?thesis using assms by (simp add: wdogShow_def wd_wf_def)
qed

text \<open>\<^verbatim>\<open>taskShow\<close> does not look for the owner in the list of tasks before it reads its name.\<close>

lemma taskShow_freed_owner:
  assumes "u \<in> dom (tasks w)" and "waiting (tcb w u) = s" and "s \<noteq> NULL" and "s \<in> dom (sems w)"
    and "current_owner (smcb w s) = t" and "t \<noteq> NULL" and "t \<notin> dom (tasks w)"
  shows "taskShow waiting_m u w = Crashed"
proof -
  obtain x v where "tasks w u = Some x" "sems w s = Some v" using assms(1,4) by auto
  then show ?thesis
    using assms by (simp add: taskShow_def tcb_def owner_of_waited_def smcb_def name_of_freed del: domIff)
qed

lemma taskShow_not_blocked: "taskShow waiting_m u w \<noteq> Blocked"
  by (auto simp: taskShow_def owner_of_waited_def name_of_def split: option.split)

lemma taskList_crashes:
  assumes "u \<in> set (task_list w)" and "taskShow waiting_m u w = Crashed"
  shows "taskList words waiting_m mem w = Crashed"
proof -
  have "taskList_from words waiting_m mem w c ts = Crashed" if "u \<in> set ts" for c ts
    using that
  proof (induction ts arbitrary: c)
    case (Cons t ts)
    then show ?case
      using assms(2) taskShow_not_blocked [of waiting_m t w] by (cases "taskShow waiting_m t w") auto
  qed simp
  then show ?thesis using assms(1) by (simp add: taskList_def)
qed

end
