(* ===== verification/Deletion.thy ===== *)
theory Deletion
  imports System Show_Lib
begin

text \<open>
  What the deletion of a task leaves behind in the other components: the mutexes it owns,
  and the message queues it waits at. The task is out of the task list, no thread runs it
  any more, and its address is still in the control blocks of the other components.
\<close>


section \<open>The state after a deletion\<close>

lemma tcb_task_delete: "a \<noteq> t \<Longrightarrow> tcb (task_delete t w) a = tcb w a"
  by (simp add: task_delete_def Let_def unlink_susp_task_def tcb_def upd_task_def)

lemma smcb_task_delete:
  assumes "\<And>x xs. F (x\<lparr>sem_first_susp := xs\<rparr>) = F x"
  shows "F (smcb (task_delete t w) s) = F (smcb w s)"
proof -
  have "sems (task_delete t w) = sems (if waiting (tcb w t) \<noteq> NULL
      then unlink_susp_task (SemSusp (waiting (tcb w t))) t w else w)"
    by (simp add: task_delete_def Let_def)
  then have "smcb (task_delete t w) = smcb (if waiting (tcb w t) \<noteq> NULL
      then unlink_susp_task (SemSusp (waiting (tcb w t))) t w else w)"
    by (rule smcb_cong)
  then show ?thesis using smcb_susp_field(2) [of F, OF assms] by simp
qed

lemma task_delete_susp:
  "set (sem_first_susp (smcb (task_delete t w) s)) \<subseteq> set (sem_first_susp (smcb w s))"
proof -
  let ?u = "if waiting (tcb w t) \<noteq> NULL then unlink_susp_task (SemSusp (waiting (tcb w t))) t w else w"
  have "smcb (task_delete t w) = smcb ?u" by (rule smcb_cong) (simp add: task_delete_def Let_def)
  moreover have "set (sem_first_susp (smcb (upd_sem b (\<lambda>x. x\<lparr>sem_first_susp := remove1 t (sem_first_susp (smcb w b))\<rparr>) w) s))
      \<subseteq> set (sem_first_susp (smcb w s))" for b
    by (cases "b \<in> dom (sems w)"; cases "s = b")
      (auto dest: set_remove1_subset [THEN subsetD] simp: smcb_def upd_sem_def split: option.splits)
  ultimately show ?thesis by (simp add: unlink_susp_task_def)
qed

lemma task_delete_others [simp]:
  "queues (task_delete t w) = queues w" "dom (sems (task_delete t w)) = dom (sems w)"
  by (simp_all add: task_delete_def Let_def unlink_susp_task_def del: domIff)

lemma find_remove1:
  assumes "distinct xs" and "\<not> P t"
  shows "find P (remove1 t xs) = find P xs"
  using assms by (induction xs) auto

lemma my_task_own:
  assumes "task_inv w" and "t \<in> set (task_list w)" and "pthrid (tcb w t) \<noteq> 0"
  shows "my_task (pthrid (tcb w t)) w = t"
proof -
  obtain u where u: "find (\<lambda>a. pthrid (tcb w t) = pthrid (tcb w a)) (task_list w) = Some u"
    using assms(2) by (cases "find (\<lambda>a. pthrid (tcb w t) = pthrid (tcb w a)) (task_list w)") (auto simp: find_None_iff)
  then have "u \<in> set (task_list w)" "pthrid (tcb w t) = pthrid (tcb w u)" by (auto dest: find_Some_in)
  then have "u = t" using assms by (auto simp: task_inv_def)
  with u show ?thesis by (simp add: my_task_def)
qed

text \<open>The state after \<^verbatim>\<open>taskDelete\<close> of another task: no thread runs the task any more, the
  queues are untouched, and a semaphore can only lose the task from its waiter list.\<close>

lemma deleted_task:
  assumes "task_inv w" and "me \<noteq> 0" and "locker w = 0 \<or> locker w = me"
    and "task_for me tid w = t" and "t \<noteq> NULL" and "t \<noteq> my_task me w"
    and "pthrid (tcb w t) \<noteq> 0" and "t_first_susp (tcb w t) = []" and "delete_safe_count (tcb w t) \<le> 0"
  obtains w' where "taskDelete me tid w = Done (Ret OK, w')" and "task_list w' = remove1 t (task_list w)"
    and "\<And>th. my_task th w' = (if th = pthrid (tcb w t) then NULL else my_task th w)"
    and "queues w' = queues w" and "dom (sems w') = dom (sems w)"
    and "\<And>s. (smcb w' s)\<lparr>sem_first_susp := []\<rparr> = (smcb w s)\<lparr>sem_first_susp := []\<rparr>"
    and "\<And>s. set (sem_first_susp (smcb w' s)) \<subseteq> set (sem_first_susp (smcb w s))"
    and "\<And>a. a \<noteq> t \<Longrightarrow> waiting (tcb w' a) = waiting (tcb w a)"
    and "dom (tasks w) - {t} \<subseteq> dom (tasks w')" and "\<not> static_task (tcb w t) \<Longrightarrow> t \<notin> dom (tasks w')"
proof -
  obtain w1 w2 where w1: "taskLock me w = Done w1" and w2: "taskLock me w1 = Done w2"
    and del: "taskDelete me tid w = Done (Ret OK, taskUnlock me (taskUnlock me
           (task_delete t (w2\<lparr>threads := threads w - {pthrid (tcb w t)}\<rparr>))))"
    by (rule taskDelete_other [OF assms])
  note F = taskLock_frame [OF w1] and G = taskLock_frame [OF w2]
  let ?v = "w2\<lparr>threads := threads w - {pthrid (tcb w t)}\<rparr>"
  define w' where "w' = taskUnlock me (taskUnlock me (task_delete t ?v))"
  have tl: "t \<in> set (task_list w)" using assms(4,5) task_for_in [of me tid w] by simp
  have dist: "distinct (task_list w)" and inj: "\<And>u. u \<in> set (task_list w) \<Longrightarrow> pthrid (tcb w u) = pthrid (tcb w t) \<Longrightarrow> u = t"
    and nn: "NULL \<notin> set (task_list w)"
    using assms(1,7) tl by (auto simp: task_inv_def task_wf_def)
  have pth: "pthrid (tcb w' a) = pthrid (tcb w a)" if "a \<noteq> t" for a
  proof -
    have "pthrid (tcb w' a) = pthrid (tcb (task_delete t ?v) a)" by (simp add: w'_def taskUnlock_field)
    also have "\<dots> = pthrid (tcb w2 a)" using that tcb_cong [of ?v w2] by (simp add: tcb_task_delete)
    also have "\<dots> = pthrid (tcb w a)" using taskLock_field [OF w2, of pthrid a] taskLock_field [OF w1, of pthrid a] by simp
    finally show ?thesis .
  qed
  have task_list: "task_list w' = remove1 t (task_list w)" by (simp add: w'_def F G)
  have my: "my_task th w' = (if th = pthrid (tcb w t) then NULL else my_task th w)" for th
  proof -
    have "find (\<lambda>a. th = pthrid (tcb w' a)) (remove1 t (task_list w)) = find (\<lambda>a. th = pthrid (tcb w a)) (remove1 t (task_list w))"
      using dist by (intro find_cong_set) (auto simp: pth)
    moreover have "find (\<lambda>a. th = pthrid (tcb w a)) (remove1 t (task_list w)) = None" if "th = pthrid (tcb w t)"
      using dist that inj by (auto simp: find_None_iff)
    ultimately show ?thesis
      using dist by (auto simp: my_task_def task_list find_remove1)
  qed
  have "smcb ?v = smcb w" by (rule smcb_cong) (simp add: F G)
  then have sem: "(smcb w' s)\<lparr>sem_first_susp := []\<rparr> = (smcb w s)\<lparr>sem_first_susp := []\<rparr>" for s
    using smcb_task_delete [of "\<lambda>x. x\<lparr>sem_first_susp := []\<rparr>" t ?v s] smcb_cong [of w' "task_delete t ?v"] by (simp add: w'_def)
  have susp: "set (sem_first_susp (smcb w' s)) \<subseteq> set (sem_first_susp (smcb w s))" for s
    using \<open>smcb ?v = smcb w\<close> smcb_cong [of w' "task_delete t ?v"] task_delete_susp [of t ?v s] by (simp add: w'_def)
  have "waiting (tcb w' a) = waiting (tcb w a)" if "a \<noteq> t" for a
    using that tcb_cong [of ?v w2] taskLock_field [OF w2, of waiting a] taskLock_field [OF w1, of waiting a]
    by (simp add: w'_def taskUnlock_field tcb_task_delete)
  moreover have "t \<notin> dom (tasks w')" if "\<not> static_task (tcb w t)"
    using that dom_task_delete_dynamic [of ?v t] tcb_cong [of ?v w2] taskLock_field [OF w2, of static_task t]
      taskLock_field [OF w1, of static_task t] by (simp add: w'_def del: domIff)
  moreover have "dom (tasks w) - {t} \<subseteq> dom (tasks w')"
    using dom_task_delete [of ?v t] by (simp add: w'_def F G del: domIff)
  ultimately show thesis
    by (intro that [OF del [folded w'_def] task_list my _ _ sem susp]) (simp_all add: w'_def F G del: domIff)
qed

section \<open>A deleted task that owns a mutex\<close>

lemma sem_step_my_task:
  assumes "sem_step me c c'"
  shows "my_task th (fst c') = my_task th (fst c)"
  using assms
proof (induction rule: sem_step.induct)
  case (BCreate pc blk w opt i a w')
  then show ?case using my_task_semCreate(1) by simp
next
  case (CCreate pc blk w opt i a w')
  then show ?case using my_task_semCreate(2) by simp
next
  case (MCreate pc blk w opt a w')
  then show ?case using my_task_semCreate(3) by simp
next
  case (Give pc w s c w')
  then show ?case using my_task_semGive by simp
next
  case (Take pc w s n now r w')
  show ?case using semTake_frame(1) [OF Take(4,2)] by simp
next
  case (Wake pc fr rc w r w')
  show ?case using semTake_resume_frame(1) [OF disjI1 [OF Wake(2)]] by simp
next
  case (TickOver pc fr now w r w')
  show ?case using semTake_resume_frame(1) [OF disjI2 [OF TickOver(2)]] by simp
qed (simp_all add: my_task_semDelete)

definition dead_owner :: "addr \<Rightarrow> addr \<Rightarrow> world \<times> (pthread \<Rightarrow> sem_pc) \<Rightarrow> bool" where
  "dead_owner s t c \<longleftrightarrow> sem_inv c \<and> (\<forall>th. my_task th (fst c) \<noteq> t) \<and> s \<in> dom (sems (fst c))
     \<and> is_mutex (smcb (fst c) s) \<and> 0 < recursion_level (smcb (fst c) s) \<and> current_owner (smcb (fst c) s) = t"

lemma dead_owner_step:
  assumes "sem_step th c c'" and "dead_owner s t c" and "s \<in> dom (sems (fst c'))"
  shows "dead_owner s t c' \<and> recursion_level (smcb (fst c') s) = recursion_level (smcb (fst c) s)"
proof -
  have inv: "sem_inv c" and "my_task th (fst c) \<noteq> t" using assms(2) by (simp_all add: dead_owner_def)
  have g: "step_guar (my_task th (fst c)) (fst c) (fst c')" and i: "sem_inv c'"
    using sem_step_guar [OF assms(1) inv] by simp_all
  have "mutex_ok (smcb (fst c) s)" using inv by (simp add: sem_inv_def)
  moreover have "guar (my_task th (fst c)) (smcb (fst c) s) (smcb (fst c') s)"
    using g assms(2,3) by (simp add: step_guar_def dead_owner_def del: domIff)
  ultimately have "is_mutex (smcb (fst c') s) \<and> current_owner (smcb (fst c') s) = t
      \<and> recursion_level (smcb (fst c') s) = recursion_level (smcb (fst c) s)"
    using assms(2) unfolding guar_def dead_owner_def by metis
  then show ?thesis
    using i assms(2,3) sem_step_my_task [OF assms(1)] by (simp add: dead_owner_def del: domIff)
qed

lemma dead_owner_facts:
  assumes "dead_owner s t c"
  shows "current_owner (smcb (fst c) s) = t \<and> token_count (smcb (fst c) s) = 0"
    and "semGive th s (fst c) = Done (r, v') \<Longrightarrow> r = Ret ERROR"
proof -
  have "mutex_ok (smcb (fst c) s)" "is_mutex (smcb (fst c) s)" "0 < recursion_level (smcb (fst c) s)"
    and own: "current_owner (smcb (fst c) s) = t" "my_task th (fst c) \<noteq> t"
    using assms by (simp_all add: dead_owner_def sem_inv_def)
  then show "current_owner (smcb (fst c) s) = t \<and> token_count (smcb (fst c) s) = 0"
    by (simp add: mutex_ok_def)
  show "semGive th s (fst c) = Done (r, v') \<Longrightarrow> r = Ret ERROR"
    using own \<open>is_mutex (smcb (fst c) s)\<close>
    by (auto simp: semGive_def obind_Done_iff Let_def ret_status_Done vxw_codes split: if_split_asm)
qed

text \<open>Any number of steps of semaphore calls in which the semaphore stays.\<close>

inductive calls_keeping :: "addr \<Rightarrow> world \<times> (pthread \<Rightarrow> sem_pc) \<Rightarrow> world \<times> (pthread \<Rightarrow> sem_pc) \<Rightarrow> bool"
  for s c where
  None: "calls_keeping s c c"
| More: "calls_keeping s c d \<Longrightarrow> sem_step th d e \<Longrightarrow> s \<in> dom (sems (fst e)) \<Longrightarrow> calls_keeping s c e"

lemma dead_owner_calls:
  assumes "calls_keeping s c d" and "dead_owner s t c"
  shows "dead_owner s t d \<and> recursion_level (smcb (fst d) s) = recursion_level (smcb (fst c) s)"
  using assms
proof (induction rule: calls_keeping.induct)
  case None
  then show ?case by simp
next
  case (More d th e)
  then show ?case using dead_owner_step [OF More(2) _ More(3)] by auto
qed

lemma dead_owner_deleted:
  assumes "sems_inv w" and "s \<in> dom (sems w)" and "is_mutex (smcb w s)" and "current_owner (smcb w s) = t" and "t \<noteq> NULL"
    and frames: "\<And>th fr. pc th = Cond fr \<or> pc th = Tick fr \<Longrightarrow> tf_task fr \<noteq> NULL \<and> tf_task fr = my_task th w"
    and my: "\<And>th. my_task th w' = (if th = p then NULL else my_task th w)" and "my_task p w = t"
    and inj: "\<And>th. my_task th w = t \<Longrightarrow> th = p"
    and dom: "dom (sems w') = dom (sems w)"
    and sem: "\<And>s. (smcb w' s)\<lparr>sem_first_susp := []\<rparr> = (smcb w s)\<lparr>sem_first_susp := []\<rparr>"
  shows "dead_owner s t (w', pc(p := Idle)) \<and> recursion_level (smcb w' s) = recursion_level (smcb w s)"
proof -
  have F: "F (smcb w' s) = F (smcb w s)" if "\<And>x xs. F (x\<lparr>sem_first_susp := xs\<rparr>) = F x" for F :: "v2lsem_t \<Rightarrow> 'a" and s
    using arg_cong [OF sem [of s], of F] that by simp
  have ok: "mutex_ok (smcb w a)" for a using assms(1) by (simp add: sems_inv_def mutexes_ok_def)
  then have "mutex_ok (smcb w' a)" for a using F [of mutex_ok a] by (simp add: mutex_ok_def is_mutex_def)
  moreover have "0 < recursion_level (smcb w s)" using ok [of s] assms(3-5) by (auto simp: mutex_ok_def)
  ultimately show ?thesis
    using assms(2-5) frames my inj F [of is_mutex s] F [of recursion_level s] F [of current_owner s] dom
    by (auto simp: dead_owner_def sem_inv_def is_mutex_def simp del: domIff split: if_split_asm)
qed

section \<open>A deleted task at the head of a queue\<close>

text \<open>\<^verbatim>\<open>task_delete\<close> takes a task out of the list of the semaphore it waits for.
  \<^verbatim>\<open>msgQReceive\<close> does not record the queue in the control block, and a task that is deleted
  while it waits for a message stays in the list of the queue.\<close>

definition dead_head :: "int \<Rightarrow> addr \<Rightarrow> addr \<Rightarrow> world \<Rightarrow> bool" where
  "dead_head p q t w \<longleftrightarrow> q \<in> dom (queues w) \<and> q_first_susp (qcb w q) \<noteq> [] \<and> hd (q_first_susp (qcb w q)) = t
     \<and> order (qcb w q) = p \<and> t \<noteq> NULL \<and> (\<forall>th. my_task th w \<noteq> t)"

lemma dead_head_cong:
  assumes "q_first_susp (qcb w' q) = q_first_susp (qcb w q)" and "order (qcb w' q) = order (qcb w q)"
    and "dom (queues w') = dom (queues w)" and "\<And>th. my_task th w' = my_task th w"
  shows "dead_head p q t w' = dead_head p q t w"
  using assms by (simp add: dead_head_def del: domIff)

lemma dead_head_queues:
  assumes "queues w' = queues w" and "\<And>th. my_task th w' = my_task th w"
  shows "dead_head p q t w' = dead_head p q t w"
proof -
  have "qcb w' = qcb w" using assms(1) by (simp add: qcb_def fun_eq_iff)
  then show ?thesis using assms by (intro dead_head_cong) simp_all
qed

lemma dead_head_upd:
  assumes "q_first_susp (f (qcb w q)) = q_first_susp (qcb w q)" and "order (f (qcb w q)) = order (qcb w q)"
  shows "dead_head p q t (upd_queue q f w) = dead_head p q t w"
proof (cases "q \<in> dom (queues w)")
  case True
  then show ?thesis using assms by (intro dead_head_cong) (simp_all del: domIff)
next
  case False
  then show ?thesis by (simp add: dead_head_def del: domIff)
qed

lemma dead_head_fields [simp]:
  "dead_head p q t (upd_queue q (\<lambda>x. x\<lparr>queue_lock := l\<rparr>) w) = dead_head p q t w"
  "dead_head p q t (upd_queue q (\<lambda>x. x\<lparr>qdlet_lock := l\<rparr>) w) = dead_head p q t w"
  "dead_head p q t (upd_queue q (\<lambda>x. x\<lparr>qfull_lock := l\<rparr>) w) = dead_head p q t w"
  "dead_head p q t (upd_queue q (\<lambda>x. x\<lparr>q_send_type := k\<rparr>) w) = dead_head p q t w"
  "dead_head p q t (upd_queue q (\<lambda>x. x\<lparr>queue_lock := l, qdlet_lock := l'\<rparr>) w) = dead_head p q t w"
  by (simp_all add: dead_head_upd)

lemma my_task_set_susp [simp]: "my_task th (set_susp h xs w) = my_task th w"
  by (cases h) simp_all

lemma dead_head_frame [simp]:
  "dead_head p q t (set_errno me e w) = dead_head p q t w" "dead_head p q t (taskUnlock me w) = dead_head p q t w"
  "dead_head p q t (taskDelay_begin me w) = dead_head p q t w" "dead_head p q t (taskDelay_end u w) = dead_head p q t w"
  by (rule dead_head_queues; simp add: taskDelay_begin_def taskDelay_end_def Let_def)+

lemma dead_head_lock: "taskLock me w = Done w' \<Longrightarrow> dead_head p q t w' = dead_head p q t w"
  by (rule dead_head_queues) (simp_all add: taskLock_frame)

lemma dead_head_susp:
  assumes "dead_head p q t w" and "q_first_susp (qcb w' q) = xs" and "xs \<noteq> []" and "hd xs = t"
    and "order (qcb w' q) = order (qcb w q)" and "dom (queues w') = dom (queues w)" and "\<And>th. my_task th w' = my_task th w"
  shows "dead_head p q t w'"
  using assms by (simp add: dead_head_def del: domIff)

lemma dead_head_link [simp]:
  assumes "u \<noteq> t" and "dead_head p q t w"
  shows "dead_head p q t (link_susp_task (QueueSusp q) u w)"
proof (cases "u = NULL")
  case False
  have dom: "q \<in> dom (queues w)" and hd: "q_first_susp (qcb w q) \<noteq> []" "hd (q_first_susp (qcb w q)) = t"
    using assms(2) by (simp_all add: dead_head_def del: domIff)
  then obtain ts where "q_first_susp (qcb w q) = t # ts" by (cases "q_first_susp (qcb w q)") simp_all
  then have "q_first_susp (qcb (link_susp_task (QueueSusp q) u w) q) = t # takeWhile (\<lambda>x. x \<noteq> u) ts @ [u]"
    using get_susp_link [of "QueueSusp q" w u] False dom assms(1) by (simp del: domIff)
  with assms(2) show ?thesis by (rule dead_head_susp) (simp_all del: domIff)
qed (use assms in \<open>simp add: link_susp_task_def\<close>)

lemma dead_head_unlink [simp]:
  assumes "u \<noteq> t" and "dead_head p q t w"
  shows "dead_head p q t (unlink_susp_task (QueueSusp q) u w)"
proof (cases "u = NULL")
  case False
  have dom: "q \<in> dom (queues w)" and hd: "q_first_susp (qcb w q) \<noteq> []" "hd (q_first_susp (qcb w q)) = t"
    using assms(2) by (simp_all add: dead_head_def del: domIff)
  then obtain ts where "q_first_susp (qcb w q) = t # ts" by (cases "q_first_susp (qcb w q)") simp_all
  then have "q_first_susp (qcb (unlink_susp_task (QueueSusp q) u w) q) = t # remove1 u ts"
    using get_susp_unlink [of "QueueSusp q" w u] False dom assms(1) by (simp del: domIff)
  with assms(2) show ?thesis by (rule dead_head_susp) (simp_all del: domIff)
qed (use assms in \<open>simp add: unlink_susp_task_def\<close>)

lemma dead_head_write [simp]:
  "dead_head p q t (link_susp_task (QueueWriteSusp q) u w) = dead_head p q t w"
  "dead_head p q t (unlink_susp_task (QueueWriteSusp q) u w) = dead_head p q t w"
proof -
  have "dead_head p q t (upd_queue q (\<lambda>x. x\<lparr>q_first_write_susp := xs\<rparr>) w) = dead_head p q t w" for xs
    by (rule dead_head_upd) simp_all
  moreover have "dead_head p q t (upd_task u (\<lambda>x. x\<lparr>state := f x\<rparr>) v) = dead_head p q t v" for f v
    by (rule dead_head_queues) simp_all
  ultimately show "dead_head p q t (link_susp_task (QueueWriteSusp q) u w) = dead_head p q t w"
    "dead_head p q t (unlink_susp_task (QueueWriteSusp q) u w) = dead_head p q t w"
    by (simp_all add: link_susp_task_def unlink_susp_task_def)
qed

text \<open>The calls of the library on the queue: no receiver gets a message if the queue is in FIFO
  order, and no deletion ends.\<close>

lemma dead_head_msg_loop:
  assumes "dead_head 0 q t w"
  shows "msg_loop th q w \<noteq> Over"
proof -
  have "signalled_task (q_first_susp (qcb w q)) 0 w = t" "my_task th w \<noteq> t" "order (qcb w q) = 0"
    using assms by (auto simp: dead_head_def signalled_task_def neq_Nil_conv simp del: domIff)
  then show ?thesis by (auto simp: msg_loop_def signal_for_my_task_def Let_def)
qed

definition no_message :: "recv \<Rightarrow> bool" where
  "no_message r \<longleftrightarrow> (case r of Received n bs \<Rightarrow> n = ERROR | RAtFull fr n bs \<Rightarrow> False | _ \<Rightarrow> True)"

lemma dead_head_return:
  "recv_return me e w = Done (r, w') \<Longrightarrow> dead_head p q t w \<Longrightarrow> dead_head p q t w' \<and> no_message r"
  "send_return me e w = Done (s, w') \<Longrightarrow> dead_head p q t w \<Longrightarrow> dead_head p q t w'"
  by (auto simp: recv_return_def no_message_def send_return_def obind_Done_iff finish_Done)

lemma dead_head_exit:
  assumes "recv_exit me fr w = Done (r, w')" and "dead_head p q t w" and "rf_queue fr = q" and "rf_task fr \<noteq> t"
    and "p = 0 \<longrightarrow> q_killed (qcb w q) \<or> rf_retcode fr = ETIMEDOUT"
  shows "dead_head p q t w' \<and> (p = 0 \<longrightarrow> no_message r)"
proof -
  let ?v = "unlink_susp_task (QueueSusp q) (rf_task fr) w"
  have v: "dead_head p q t ?v" using assms(2,4) by simp
  have fetched: "dead_head p q t (upd_queue q (\<lambda>_. x) ?v)"
    if "fetch_msg_from b (qcb ?v q) = Done (bs, n, x) \<or> (\<exists>l y. fetch_msg_from b (qcb ?v q) = Done (bs, n, y) \<and> x = y\<lparr>queue_lock := l\<rparr>)"
    for b bs n x
    using that v ring_op_fields(3) by (auto simp: dead_head_upd)
  consider "q_killed (qcb ?v q)" "r = RAtKilled fr" "w' = upd_queue q (\<lambda>q. q\<lparr>queue_lock := me\<rparr>) ?v"
    | e where "rf_retcode fr = ETIMEDOUT" "recv_return me e ?v = Done (r, w')"
    | bs n x where "\<not> q_killed (qcb ?v q)" "rf_retcode fr \<noteq> ETIMEDOUT" "fetch_msg_from (rf_msgbuf fr) (qcb ?v q) = Done (bs, n, x)"
      "w' = upd_queue q (\<lambda>_. x\<lparr>queue_lock := me\<rparr>) ?v \<or> w' = upd_queue q (\<lambda>_. x) ?v"
    using assms(1,3) by (auto simp: recv_exit_def Let_def obind_Done_iff split: if_split_asm)
  then show ?thesis
  proof cases
    case 1
    then show ?thesis using v by (simp add: no_message_def)
  next
    case 2
    then show ?thesis using v dead_head_return(1) by blast
  next
    case 3
    have "dead_head p q t w'"
      using 3(4) fetched [of "rf_msgbuf fr" bs n x] fetched [of "rf_msgbuf fr" bs n "x\<lparr>queue_lock := me\<rparr>"] 3(3) by blast
    then show ?thesis using assms(5) 3(1,2) by simp
  qed
qed

lemma dead_head_poll:
  assumes "recv_poll me fr s w = Done (r, w')" and "dead_head p q t w" and "rf_queue fr = q" and "rf_task fr \<noteq> t"
    and "s = Over \<Longrightarrow> p = 0 \<longrightarrow> q_killed (qcb w q)"
  shows "dead_head p q t w' \<and> (p = 0 \<longrightarrow> no_message r)"
proof -
  have exit: "recv_exit me f w = Done (r, w') \<Longrightarrow> rf_queue f = q \<Longrightarrow> rf_task f \<noteq> t \<Longrightarrow>
      p = 0 \<longrightarrow> q_killed (qcb w q) \<or> rf_retcode f = ETIMEDOUT \<Longrightarrow> ?thesis" for f
    using dead_head_exit [OF _ assms(2)] by blast
  have "no_message (RAtCond fr)" "no_message (RAtDelay fr)" by (simp_all add: no_message_def)
  then show ?thesis
    using assms exit [of "fr\<lparr>rf_retcode := 0\<rparr>"] exit [of fr]
    by (cases s) (auto simp: recv_poll_def split: if_split_asm)
qed

lemma dead_head_wait:
  assumes "dead_head p q t w"
  shows "waiting_on_q_msg me q w = Over \<Longrightarrow> p = 0 \<longrightarrow> q_killed (qcb w q)"
  using dead_head_msg_loop [of q t w me] assms by (auto simp: waiting_on_q_msg_def split: if_split_asm)

lemma dead_head_start:
  assumes "recv_start me now fr w = Done (r, w')" and "dead_head p q t w" and "rf_queue fr = q" and "rf_task fr \<noteq> t"
  shows "dead_head p q t w' \<and> (p = 0 \<longrightarrow> no_message r)"
  using assms(1) unfolding recv_start_def
  by (rule dead_head_poll) (use assms dead_head_wait in auto)

lemma dead_head_post:
  assumes "post_msg q msg n pri w = Done w'" and "dead_head p q t w"
  shows "dead_head p q t w'"
  using assms ring_op_fields(1,2)
  by (auto simp: post_msg_def obind_Done_iff dead_head_upd split: if_split_asm)

lemma dead_head_send_poll: "send_poll me fr k w = (s, w') \<Longrightarrow> sf_queue fr = q \<Longrightarrow> dead_head p q t w \<Longrightarrow> dead_head p q t w'"
  by (auto simp: send_poll_def split: poll.split_asm if_split_asm)

lemma dead_head_receive:
  assumes "dead_head p q t w"
  shows "msgQReceive me q buf len wait now w = Done (r, w') \<Longrightarrow> dead_head p q t w' \<and> (p = 0 \<longrightarrow> no_message r)"
    and "rf_queue fr = q \<Longrightarrow> rf_task fr \<noteq> t \<Longrightarrow> msgQReceive_space me now fr w = Done (r, w') \<Longrightarrow> dead_head p q t w' \<and> (p = 0 \<longrightarrow> no_message r)"
    and "rf_queue fr = q \<Longrightarrow> rf_task fr \<noteq> t \<Longrightarrow> msgQReceive_wake me rc fr w = Done (r, w') \<Longrightarrow> dead_head p q t w' \<and> (p = 0 \<longrightarrow> no_message r)"
    and "rf_queue fr = q \<Longrightarrow> rf_task fr \<noteq> t \<Longrightarrow> msgQReceive_tick me now fr w = Done (r, w') \<Longrightarrow> dead_head p q t w' \<and> (p = 0 \<longrightarrow> no_message r)"
    and "rf_queue fr = q \<Longrightarrow> msgQReceive_killed me fr w = Done (r, w') \<Longrightarrow> dead_head p q t w' \<and> (p = 0 \<longrightarrow> no_message r)"
    and "rf_queue fr = q \<Longrightarrow> msgQReceive_full me fr n bs w = Done (r, w') \<Longrightarrow> dead_head p q t w'"
proof -
  have my: "my_task me w \<noteq> t" using assms by (simp add: dead_head_def)
  show "dead_head p q t w' \<and> (p = 0 \<longrightarrow> no_message r)" if call: "msgQReceive me q buf len wait now w = Done (r, w')"
  proof -
    let ?v = "link_susp_task (QueueSusp q) (my_task me w) w"
    have v: "dead_head p q t ?v" using my assms by simp
    consider e where "recv_return me e w = Done (r, w')"
      | f where "recv_start me now f ?v = Done (r, w')" "rf_queue f = q" "rf_task f = my_task me w"
      | f where "r = RAtSpace f" "w' = upd_queue q (\<lambda>q. q\<lparr>queue_lock := me\<rparr>) ?v"
      using call by (auto simp: msgQReceive_def obind_Done_iff Let_def split: if_split_asm)
    then show ?thesis
    proof cases
      case 1
      then show ?thesis using dead_head_return(1) assms by blast
    next
      case 2
      then show ?thesis using dead_head_start [OF 2(1) v] my by simp
    next
      case 3
      then show ?thesis using v by (simp add: no_message_def)
    qed
  qed
  show "dead_head p q t w' \<and> (p = 0 \<longrightarrow> no_message r)" if "rf_queue fr = q" "rf_task fr \<noteq> t" "msgQReceive_space me now fr w = Done (r, w')"
  proof -
    have "recv_start me now fr (upd_queue q (\<lambda>q. q\<lparr>queue_lock := 0\<rparr>) w) = Done (r, w')"
      using that by (simp add: msgQReceive_space_def split: if_split_asm)
    then show ?thesis by (rule dead_head_start) (use that assms in simp_all)
  qed
  show "dead_head p q t w' \<and> (p = 0 \<longrightarrow> no_message r)" if "rf_queue fr = q" "rf_task fr \<noteq> t" "msgQReceive_wake me rc fr w = Done (r, w')"
  proof -
    let ?f = "if rf_timeout fr = None then fr else fr\<lparr>rf_retcode := rc\<rparr>"
    have "recv_poll me ?f (waiting_on_q_msg me q w) w = Done (r, w')" "rf_queue ?f = q" "rf_task ?f \<noteq> t"
      using that by (auto simp: msgQReceive_wake_def Let_def split: if_split_asm)
    then show ?thesis using dead_head_poll assms dead_head_wait by blast
  qed
  show "dead_head p q t w' \<and> (p = 0 \<longrightarrow> no_message r)" if fr: "rf_queue fr = q" "rf_task fr \<noteq> t" and "msgQReceive_tick me now fr w = Done (r, w')"
  proof -
    let ?w = "taskDelay_end (my_task me w) w"
    have "recv_poll me fr (if q_expired (rf_timeout fr) now then Still else msg_loop me q ?w) ?w = Done (r, w')"
      using that by (auto simp: msgQReceive_tick_def Let_def split: if_split_asm)
    moreover have "dead_head p q t ?w" using assms by simp
    ultimately show ?thesis
      by (rule dead_head_poll) (use fr dead_head_msg_loop [of q t ?w] assms in \<open>auto split: if_split_asm\<close>)
  qed
  show "dead_head p q t w' \<and> (p = 0 \<longrightarrow> no_message r)" if "rf_queue fr = q" "msgQReceive_killed me fr w = Done (r, w')"
    using that assms by (auto simp: msgQReceive_killed_def obind_Done_iff dest!: dead_head_return(1))
  show "dead_head p q t w'" if "rf_queue fr = q" "msgQReceive_full me fr n bs w = Done (r, w')"
    using that assms by (auto simp: msgQReceive_full_def split: if_split_asm)
qed

lemma dead_head_send:
  assumes "dead_head p q t w"
  shows "msgQSend me q msg n wait pri now w = Done (s, w') \<Longrightarrow> dead_head p q t w'"
    and "sf_queue fr = q \<Longrightarrow> msgQSend_poll me fr w = Done (s, w') \<Longrightarrow> dead_head p q t w'"
    and "sf_queue fr = q \<Longrightarrow> msgQSend_wake me rc fr w = Done (s, w') \<Longrightarrow> dead_head p q t w'"
    and "sf_queue fr = q \<Longrightarrow> msgQSend_tick me now fr w = Done (s, w') \<Longrightarrow> dead_head p q t w'"
    and "sf_queue fr = q \<Longrightarrow> msgQSend_relock me fr w = Done (s, w') \<Longrightarrow> dead_head p q t w'"
    and "sf_queue fr = q \<Longrightarrow> msgQSend_killed me fr w = Done (s, w') \<Longrightarrow> dead_head p q t w'"
  using assms
  by (auto simp: msgQSend_def waitToSend_def msgQSend_poll_def msgQSend_wake_def msgQSend_tick_def
      msgQSend_relock_def msgQSend_killed_def obind_Done_iff Let_def
      dest!: dead_head_return(2) dead_head_post dest: dead_head_send_poll split: if_split_asm)

lemma dead_head_delete:
  assumes "dead_head p q t w"
  shows "msgQDelete me q w = Done (d, w') \<Longrightarrow> dead_head p q t w' \<and> d \<noteq> Deleted OK"
    and "msgQDelete_lock me q w = Done (d, w') \<Longrightarrow> dead_head p q t w' \<and> d \<noteq> Deleted OK"
    and "msgQDelete_space me q w = Done (d, w') \<Longrightarrow> dead_head p q t w' \<and> d \<noteq> Deleted OK"
    and "msgQDelete_wait me q w = Done (d, w') \<Longrightarrow> dead_head p q t w' \<and> d \<noteq> Deleted OK"
proof -
  have full: "q_first_susp (qcb v q) \<noteq> []" if "dead_head p q t v" for v using that by (simp add: dead_head_def)
  have wait: "msgQDelete_wait me q v = Done (d, w') \<Longrightarrow> dead_head p q t w' \<and> d \<noteq> Deleted OK" if "dead_head p q t v" for v
    using that full [OF that] by (auto simp: msgQDelete_wait_def split: if_split_asm)
  have space: "msgQDelete_space me q v = Done (d, w') \<Longrightarrow> dead_head p q t w' \<and> d \<noteq> Deleted OK" if "dead_head p q t v" for v
    using that wait [OF that] by (auto simp: msgQDelete_space_def split: if_split_asm)
  have lock: "msgQDelete_lock me q v = Done (d, w') \<Longrightarrow> dead_head p q t w' \<and> d \<noteq> Deleted OK" if v: "dead_head p q t v" for v
  proof -
    assume call: "msgQDelete_lock me q v = Done (d, w')"
    show "dead_head p q t w' \<and> d \<noteq> Deleted OK"
    proof (cases "taskLock me v")
      case (Done w1)
      have "dead_head p q t w1" using v dead_head_lock [OF Done] by simp
      then show ?thesis
        using call Done full [of w1] space [of "upd_queue q (\<lambda>q. q\<lparr>queue_lock := 0, qdlet_lock := me\<rparr>) w1"]
        by (auto simp: msgQDelete_lock_def split: if_split_asm)
    qed (use call v in \<open>auto simp: msgQDelete_lock_def split: if_split_asm\<close>)
  qed
  show "msgQDelete_lock me q w = Done (d, w') \<Longrightarrow> dead_head p q t w' \<and> d \<noteq> Deleted OK"
    "msgQDelete_space me q w = Done (d, w') \<Longrightarrow> dead_head p q t w' \<and> d \<noteq> Deleted OK"
    "msgQDelete_wait me q w = Done (d, w') \<Longrightarrow> dead_head p q t w' \<and> d \<noteq> Deleted OK"
    using lock space wait assms by blast+
  show "msgQDelete me q w = Done (d, w') \<Longrightarrow> dead_head p q t w' \<and> d \<noteq> Deleted OK"
    using assms lock [of "upd_queue q (\<lambda>q. q\<lparr>q_send_type := Q_KILLD\<rparr>) w"]
    by (auto simp: msgQDelete_def obind_Done_iff finish_Done vxw_codes split: if_split_asm)
qed

text \<open>Calls on the queue, by tasks other than \<open>t\<close>.\<close>

inductive queue_call :: "addr \<Rightarrow> addr \<Rightarrow> world \<Rightarrow> world \<Rightarrow> bool" for q t where
  Send: "msgQSend me q msg n wait pri now w = Done (s, w') \<Longrightarrow> queue_call q t w w'"
| SendRest: "sf_queue fr = q \<Longrightarrow> msgQSend_poll me fr w = Done (s, w') \<or> msgQSend_wake me rc fr w = Done (s, w')
    \<or> msgQSend_tick me now fr w = Done (s, w') \<or> msgQSend_relock me fr w = Done (s, w')
    \<or> msgQSend_killed me fr w = Done (s, w') \<Longrightarrow> queue_call q t w w'"
| Receive: "msgQReceive me q buf len wait now w = Done (r, w') \<Longrightarrow> queue_call q t w w'"
| ReceiveRest: "rf_queue rf = q \<Longrightarrow> rf_task rf \<noteq> t \<Longrightarrow> msgQReceive_space me now rf w = Done (r, w')
    \<or> msgQReceive_wake me rc rf w = Done (r, w') \<or> msgQReceive_tick me now rf w = Done (r, w')
    \<or> msgQReceive_killed me rf w = Done (r, w') \<or> msgQReceive_full me rf n bs w = Done (r, w') \<Longrightarrow> queue_call q t w w'"
| Delete: "msgQDelete me q w = Done (d, w') \<or> msgQDelete_lock me q w = Done (d, w')
    \<or> msgQDelete_space me q w = Done (d, w') \<or> msgQDelete_wait me q w = Done (d, w') \<Longrightarrow> queue_call q t w w'"

inductive queue_calls :: "addr \<Rightarrow> addr \<Rightarrow> world \<Rightarrow> world \<Rightarrow> bool" for q t w where
  None: "queue_calls q t w w"
| More: "queue_calls q t w v \<Longrightarrow> queue_call q t v u \<Longrightarrow> queue_calls q t w u"

lemma dead_head_call: "queue_call q t w w' \<Longrightarrow> dead_head p q t w \<Longrightarrow> dead_head p q t w'"
  by (induction rule: queue_call.induct)
    (blast dest: dead_head_send dead_head_receive dead_head_delete)+

lemma dead_head_calls: "queue_calls q t w v \<Longrightarrow> dead_head p q t w \<Longrightarrow> dead_head p q t v"
  by (induction rule: queue_calls.induct) (blast intro: dead_head_call)+


section \<open>A deletion that a message undoes\<close>

text \<open>C31. A message sent during \<^verbatim>\<open>msgQDelete\<close> undoes the deletion. While the deleting call waits for a
  receiver to leave, any thread can still send to the queue; the send overwrites the mark \<^verbatim>\<open>KILLD\<close> in
  \<^verbatim>\<open>send_type\<close>, and the receiver wakes up, gets the message and returns without telling the deleting
  call, which goes on waiting with the scheduler locked and the queue still in the list.\<close>

theorem msgQSend_undoes_deletion:
  assumes "a \<in> set (mqueue_list w)" and "a \<in> dom (queues w)" and "qcb w a = q" and "queue_lock q = 0"
    and "qfull_lock q = 0" and "q_first_susp q = [t]" and "q_first_write_susp q = []" and "ring_wf q" and "ring_msgs q = []"
    and "0 < msgs_per_queue q" and "int (length bs) \<le> msg_len q" and "locker w = 0 \<or> locker w = d"
    and "my_task r w = t" and "t \<noteq> NULL" and "rf_queue fr = a" and "rf_task fr = t" and "rf_msgbuf fr"
  shows "\<exists>w1 w2 w3. msgQDelete d a w = Done (DAtWait, w1) \<and> q_killed (qcb w1 a)
     \<and> msgQSend s a (Some bs) (int (length bs)) wait pri now w1 = Done (Sent OK, w2) \<and> \<not> q_killed (qcb w2 a)
     \<and> msgQReceive_wake r rc fr w2 = Done (Received (s32 (int (length bs))) bs, w3)
     \<and> a \<in> set (mqueue_list w3) \<and> q_first_susp (qcb w3 a) = [] \<and> locker w3 = d"
proof -
  obtain w1 where del: "msgQDelete d a w = Done (DAtWait, w1)" and dom1: "a \<in> dom (queues w1)"
    and q1: "qcb w1 a = q\<lparr>q_send_type := Q_KILLD, queue_lock := 0, qdlet_lock := 0\<rparr>"
    and w1: "mqueue_list w1 = mqueue_list w" "locker w1 = d" "my_task r w1 = t"
    using msgQDelete_parks [of a w d] assms by auto
  have wf1: "ring_wf (qcb w1 a)" "ring_msgs (qcb w1 a) = []" using assms(8,9) by (simp_all add: q1)
  have acc: "accepts (qcb w1 a) pri" using assms(10) ring_elim(1) [OF assms(8)] assms(9) by (simp add: accepts_def q1)
  have pre: "a \<in> set (mqueue_list w1)" "queue_lock (qcb w1 a) = 0" "int (length bs) \<le> msg_len (qcb w1 a)"
    using assms(1,11) w1(1) by (simp_all add: q1)
  obtain q2 p where send: "msgQSend s a (Some bs) (int (length bs)) wait pri now w1 = Done (Sent OK, upd_queue a (\<lambda>_. q2) w1)"
    and q2': "ring_wf q2" "ring_msgs q2 = (if pri = MSG_PRI_URGENT then bs # ring_msgs (qcb w1 a) else ring_msgs (qcb w1 a) @ [bs])"
    and p: "(if p then urgent_msg_to else send_msg_to) (Some bs) (int (length bs)) (qcb w1 a) = Done q2"
    using msgQSend_accepts [OF pre(1,2) wf1(1) pre(3) acc] by blast
  have q2: "ring_wf q2" "ring_msgs q2 = [bs]" using q2' wf1(2) by simp_all
  let ?w2 = "upd_queue a (\<lambda>_. q2) w1"
  have nk: "\<not> q_killed q2"
    using p by (cases p) (auto simp: q_killed_def send_msg_to_def urgent_msg_to_def obind_Done_iff Let_def vxw_codes)
  have f2: "q_first_susp q2 = [t]" "queue_lock q2 = 0" "qfull_lock q2 = 0"
    using p assms(5,6) ring_op_fields(1,2) [of "Some bs" "int (length bs)" "qcb w1 a" q2] by (cases p; simp add: q1)+
  have dom2: "a \<in> dom (queues ?w2)" and qw2: "qcb ?w2 a = q2" and my2: "my_task r ?w2 = t"
    using dom1 w1(3) by (simp_all del: domIff)
  define fr' where "fr' = (if rf_timeout fr = None then fr else fr\<lparr>rf_retcode := rc\<rparr>)"
  have fr': "rf_queue fr' = a" "rf_task fr' = t" "rf_msgbuf fr'" using assms(15-17) by (simp_all add: fr'_def)
  have "signal_for_my_task r (QueueSusp a) k ?w2" for k
    using f2(1) my2 by (intro signal_single) (simp add: qw2)
  then have poll: "waiting_on_q_msg r a ?w2 = Over"
    using nk ring_elim(1) [OF q2(1)] q2(2) by (simp add: waiting_on_q_msg_def msg_loop_def qw2)
  obtain q3 where ex: "recv_exit r (fr'\<lparr>rf_retcode := 0\<rparr>) ?w2 = Done (Received (s32 (int (length bs))) bs,
        upd_queue a (\<lambda>_. q3) (unlink_susp_task (QueueSusp a) t ?w2))"
    and q3: "q_first_susp q3 = remove1 t (q_first_susp (qcb ?w2 a))"
    using recv_exit_fetch [OF dom2 assms(14), of bs "[]" "fr'\<lparr>rf_retcode := 0\<rparr>" r] q2 nk f2 fr' by (auto simp: qw2 vxw_codes)
  let ?w3 = "upd_queue a (\<lambda>_. q3) (unlink_susp_task (QueueSusp a) t ?w2)"
  obtain y where "queues ?w2 a = Some y" using dom2 by blast
  then have "msgQReceive_wake r rc fr ?w2 = Done (Received (s32 (int (length bs))) bs, ?w3)"
    using poll ex f2(2) assms(15) by (simp add: msgQReceive_wake_def Let_def recv_poll_def qw2 flip: fr'_def)
  moreover have "q_first_susp (qcb ?w3 a) = []" using q3 f2(1) dom2 by (simp add: qw2 del: domIff)
  moreover have "a \<in> set (mqueue_list ?w3)" "locker ?w3 = d"
    using assms(1) w1 by (simp_all add: unlink_susp_task_def)
  moreover have "q_killed (qcb w1 a)" by (simp add: q1 q_killed_def vxw_codes)
  ultimately show ?thesis using del send nk qw2 by (metis (no_types))
qed

theorem msgQSend_undoes_deletion_witness:
  "\<exists>w1 w2 w3. msgQDelete 8 500 (link_susp_task (QueueSusp 500) 100 queue_world) = Done (DAtWait, w1)
     \<and> msgQSend 9 500 (Some [1, 2]) 2 0 0 (0, 0) w1 = Done (Sent OK, w2)
     \<and> msgQReceive_wake 7 0 (recv_frame_of 500 100 (-1) (0, 0)) w2 = Done (Received 2 [1, 2], w3)
     \<and> 500 \<in> set (mqueue_list w3) \<and> locker w3 = 8"
proof -
  let ?w = "link_susp_task (QueueSusp 500) 100 queue_world"
  have q: "qcb ?w 500 = fresh_queue 2 3 0\<lparr>q_first_susp := [100]\<rparr>" using fresh_queue_demo by (simp del: domIff)
  have l: "locker ?w = 0" by (simp add: queue_world_def link_qcb_def two_tasks_def boot_world_def)
  have f: "msgs_per_queue (fresh_queue 2 3 0) = 2" "msg_len (fresh_queue 2 3 0) = 3" by (simp_all add: fresh_queue_def)
  have w: "500 \<in> set (mqueue_list ?w)" "500 \<in> dom (queues ?w)" "my_task 7 ?w = 100" by (simp_all del: domIff)
  note T = msgQSend_undoes_deletion [OF w(1,2) q, where t = 100 and bs = "[1, 2]" and r = 7 and d = 8
      and fr = "recv_frame_of 500 100 (-1) (0, 0)" and s = 9 and wait = 0 and pri = 0 and now = "(0, 0)" and rc = 0]
  have "int (length [1, 2 :: byte]) = 2" "s32 2 = 2" by (simp_all add: s32_def)
  with T show ?thesis using fresh_queue_demo f l w(3) by (auto simp del: domIff)
qed

end
