(* ===== verification/Plain_Threads.thy ===== *)
theory Plain_Threads
  imports Sem_Lib
begin

text \<open>
  Threads the library has not created, such as the worker of \<^verbatim>\<open>cpp_tests/static_smoke.cpp\<close>:
  \<^verbatim>\<open>my_task\<close> finds no control block for them, and the semaphore functions go on with a null
  pointer. \<^verbatim>\<open>link_susp_task\<close> then leaves the list of waiting tasks as it is, and a thread without a
  task counts as the owner of a mutex that has none.
\<close>


section \<open>Threads without a control block\<close>

definition plain_thread :: "pthread \<Rightarrow> world \<Rightarrow> bool" where
  "plain_thread th w \<longleftrightarrow> th \<noteq> 0 \<and> my_task th w = NULL"

text \<open>The end of \<^verbatim>\<open>semGive\<close>: the condition variable is signalled only if the list of waiting tasks
  is not empty.\<close>

definition give_broadcasts :: "addr \<Rightarrow> world \<Rightarrow> bool" where
  "give_broadcasts semaphore w \<longleftrightarrow> sem_first_susp (smcb w semaphore) \<noteq> []"

lemma plain_thread_upd_sem [simp]: "plain_thread th (upd_sem s f w) \<longleftrightarrow> plain_thread th w"
  by (simp add: plain_thread_def)

lemma susp_NULL [simp]: "link_susp_task h NULL w = w" "unlink_susp_task h NULL w = w"
  by (simp_all add: link_susp_task_def unlink_susp_task_def)

text \<open>A thread without a task is chosen exactly when no task waits.\<close>

lemma signal_plain: "plain_thread th w \<Longrightarrow> get_susp h w = [] \<Longrightarrow> signal_for_my_task th h p w"
  by (simp add: signal_for_my_task_def signalled_task_def plain_thread_def)

lemma token_loop_plain:
  assumes "plain_thread th w" and "sem_first_susp (smcb w s) = []"
  shows "token_loop th s w = (if 0 < token_count (smcb w s)
     then (Over, upd_sem s (\<lambda>x. x\<lparr>token_count := token_count x - 1\<rparr>) w) else (Still, w))"
  using assms signal_plain [of th w "SemSusp s"] by (simp add: token_loop_def)

lemma take_exit_plain:
  assumes "tf_task fr = NULL" and "tf_retcode fr = 0" and "tf_sem fr = s" and "\<not> killed_or_flushed (smcb w s)"
    and "\<not> is_mutex (smcb w s)" and "tf_wait fr \<noteq> NO_WAIT"
  shows "take_exit th fr w = Done (Returned OK, upd_sem s (\<lambda>x. x\<lparr>current_owner := NULL\<rparr>) w)"
proof -
  have "is_mutex (smcb (upd_sem s (\<lambda>x. x\<lparr>current_owner := NULL\<rparr>) w) s) = is_mutex (smcb w s)"
    by (rule smcb_upd_field) (simp add: is_mutex_def)
  then show ?thesis
    using assms by (simp add: take_exit_def Let_def take_return_def finish_def take_error_def vxw_codes)
qed

text \<open>The frame of a thread without a task that waits without a time limit.\<close>

definition plain_frame :: "addr \<Rightarrow> take_frame" where
  "plain_frame s = \<lparr>tf_sem = s, tf_task = NULL, tf_wait = WAIT_FOREVER, tf_timeout = None, tf_retcode = 0\<rparr>"

lemma plain_frame_simps [simp]:
  "tf_sem (plain_frame s) = s" "tf_task (plain_frame s) = NULL" "tf_wait (plain_frame s) = WAIT_FOREVER"
  "tf_timeout (plain_frame s) = None" "tf_retcode (plain_frame s) = 0"
  by (simp_all add: plain_frame_def)

lemma semTake_plain:
  assumes "plain_thread th w" and "s \<in> set (sem_list w)" and "smcb w s = v" and "s \<in> dom (sems w)" and "sem_lock v = 0"
    and "\<not> is_mutex v" and "sem_flags v AND SEM_INVERSION_SAFE = 0" and "\<not> killed_or_flushed v" and "sem_first_susp v = []"
  shows "semTake th s WAIT_FOREVER now w
     = (if 0 < token_count v
        then Done (Returned OK, upd_sem s (\<lambda>x. x\<lparr>token_count := token_count x - 1, current_owner := NULL\<rparr>) w)
        else Done (AtCond (plain_frame s), w))"
proof -
  let ?fr = "plain_frame s"
  let ?w' = "upd_sem s (\<lambda>x. x\<lparr>token_count := token_count x - 1\<rparr>) w"
  have fr: "\<lparr>tf_sem = s, tf_task = NULL, tf_wait = WAIT_FOREVER, tf_timeout = None, tf_retcode = 0\<rparr> = ?fr"
    by (simp add: plain_frame_def)
  have take: "semTake th s WAIT_FOREVER now w = take_poll th ?fr (waiting_on_sem th s w)"
    using assms by (simp add: semTake_def sem_find_lock_def plain_thread_def wait_for_token_def Let_def fr)
      (simp add: vxw_codes)
  have wos: "waiting_on_sem th s w = (if 0 < token_count v then (Over, ?w') else (Still, w))"
    using assms token_loop_plain [OF assms(1), of s] by (simp add: waiting_on_sem_def)
  have "smcb ?w' s = v\<lparr>token_count := token_count v - 1\<rparr>" using assms(3,4) by (simp del: domIff)
  then have "take_exit th (?fr\<lparr>tf_retcode := 0\<rparr>) ?w'
      = Done (Returned OK, upd_sem s (\<lambda>x. x\<lparr>current_owner := NULL\<rparr>) ?w')"
    using assms(6,8) by (intro take_exit_plain) (simp_all add: killed_or_flushed_def is_mutex_def vxw_codes)
  then show ?thesis
    unfolding take wos by (simp add: take_poll_def upd_sem_comp)
qed

text \<open>The same after a wake-up.\<close>

lemma semTake_wake_plain:
  assumes "plain_thread th w" and "smcb w s = v" and "s \<in> dom (sems w)" and "sem_lock v = 0"
    and "\<not> is_mutex v" and "\<not> killed_or_flushed v" and "sem_first_susp v = []"
  shows "semTake_wake th rc (plain_frame s) w
     = (if 0 < token_count v
        then Done (Returned OK, upd_sem s (\<lambda>x. x\<lparr>token_count := token_count x - 1, current_owner := NULL\<rparr>) w)
        else Done (AtCond (plain_frame s), w))"
proof -
  let ?fr = "plain_frame s"
  let ?w' = "upd_sem s (\<lambda>x. x\<lparr>token_count := token_count x - 1\<rparr>) w"
  obtain y where y: "sems w s = Some y" using assms(3) by auto
  have take: "semTake_wake th rc ?fr w = take_poll th ?fr (waiting_on_sem th s w)"
    using assms(2,4) y by (simp add: semTake_wake_def Let_def)
  have wos: "waiting_on_sem th s w = (if 0 < token_count v then (Over, ?w') else (Still, w))"
    using assms token_loop_plain [OF assms(1), of s] by (simp add: waiting_on_sem_def)
  have "smcb ?w' s = v\<lparr>token_count := token_count v - 1\<rparr>" using assms(2,3) by (simp del: domIff)
  then have "take_exit th (?fr\<lparr>tf_retcode := 0\<rparr>) ?w'
      = Done (Returned OK, upd_sem s (\<lambda>x. x\<lparr>current_owner := NULL\<rparr>) ?w')"
    using assms(5,6) by (intro take_exit_plain) (simp_all add: killed_or_flushed_def is_mutex_def vxw_codes)
  then show ?thesis
    unfolding take wos by (simp add: take_poll_def upd_sem_comp)
qed

section \<open>A waiting thread nobody sees\<close>

text \<open>C32. A thread without a task that waits for a semaphore is in no list. \<^verbatim>\<open>semGive\<close> adds the token and
  does not signal the condition variable, so that the thread sleeps on (it would take the token if it
  woke up); and \<^verbatim>\<open>semDelete\<close> frees the semaphore at once, so that the thread reads the freed block
  when it wakes up.\<close>

theorem plain_waiter_is_invisible:
  assumes "plain_thread th w" and "s \<in> set (sem_list w)" and "s \<in> dom (sems w)" and "smcb w s = v" and "sem_lock v = 0"
    and "\<not> is_mutex v" and "sem_flags v AND SEM_INVERSION_SAFE = 0" and "sem_flags v AND SEM_DELETE_SAFE = 0"
    and "\<not> killed_or_flushed v" and "sem_first_susp v = []" and "token_count v = 0" and "recursion_level v = 0"
    and "d \<noteq> 0" and "locker w = 0 \<or> locker w = d"
  shows "\<exists>fr. semTake th s WAIT_FOREVER now w = Done (AtCond fr, w)
     \<and> (\<exists>w1. semGive d s w = Done (Ret OK, w1) \<and> token_count (smcb w1 s) = 1 \<and> \<not> give_broadcasts s w1
          \<and> (\<exists>w2. semTake_wake th rc fr w1 = Done (Returned OK, w2) \<and> token_count (smcb w2 s) = 0))
     \<and> (\<exists>w1. semDelete d s w = Done (Ret OK, w1) \<and> s \<notin> dom (sems w1) \<and> semTake_wake th rc fr w1 = Crashed)"
proof -
  let ?fr = "plain_frame s"
  let ?w1 = "upd_sem s (\<lambda>x. x\<lparr>token_count := s32 (token_count x + 1)\<rparr>) w"
  let ?w2 = "upd_sem s (\<lambda>x. x\<lparr>token_count := token_count x - 1, current_owner := NULL\<rparr>) ?w1"
  have take: "semTake th s WAIT_FOREVER now w = Done (AtCond ?fr, w)"
    using semTake_plain [OF assms(1,2,4,3,5,6,7,9,10)] assms(11) by simp
  have v1: "smcb ?w1 s = v\<lparr>token_count := 1\<rparr>" using assms(3,4,11) by (simp add: s32_def del: domIff)
  have give: "semGive d s w = Done (Ret OK, ?w1)"
    using assms by (simp add: semGive_def sem_find_lock_def Let_def ret_status_def finish_def)
  have quiet: "\<not> give_broadcasts s ?w1" using assms(10) by (simp add: give_broadcasts_def v1)
  have "plain_thread th ?w1" "s \<in> dom (sems ?w1)" "\<not> is_mutex (v\<lparr>token_count := 1\<rparr>)" "\<not> killed_or_flushed (v\<lparr>token_count := 1\<rparr>)"
    using assms(1,3,6,9) by (simp_all add: is_mutex_def killed_or_flushed_def del: domIff)
  then have wake: "semTake_wake th rc ?fr ?w1 = Done (Returned OK, ?w2)"
    using semTake_wake_plain [of th ?w1 s "v\<lparr>token_count := 1\<rparr>" rc] v1 assms(5,10) by simp
  have "token_count (smcb ?w2 s) = 0" using assms(3) v1 by (simp del: domIff)
  with wake have "\<exists>w2. semTake_wake th rc ?fr ?w1 = Done (Returned OK, w2) \<and> token_count (smcb w2 s) = 0" by blast
  with give quiet have given: "\<exists>w1. semGive d s w = Done (Ret OK, w1) \<and> token_count (smcb w1 s) = 1 \<and> \<not> give_broadcasts s w1
      \<and> (\<exists>w2. semTake_wake th rc ?fr w1 = Done (Returned OK, w2) \<and> token_count (smcb w2 s) = 0)"
    by (intro exI [of _ ?w1]) (simp add: v1)
  obtain wl where wl: "taskLock d w = Done wl" using assms(14) taskLock_Done_iff by blast
  let ?w3 = "taskUnlock d (free_sem s wl)"
  have "smcb wl = smcb w" by (rule smcb_cong) (simp add: taskLock_frame [OF wl])
  then have "semDelete d s w = Done (Ret OK, ?w3)"
    using assms(2,4,5,10) wl by (simp add: semDelete_def sem_find_lock_def ret_status_def finish_def)
  moreover have "s \<notin> dom (sems ?w3)" by (simp add: free_sem_def unlink_smcb_def)
  ultimately have "\<exists>w3. semDelete d s w = Done (Ret OK, w3) \<and> s \<notin> dom (sems w3) \<and> semTake_wake th rc ?fr w3 = Crashed"
    by (intro exI [of _ ?w3]) (simp add: semTake_wake_def domIff)
  with take given show ?thesis by blast
qed

text \<open>A counting semaphore without tokens, and thread 9 beside the two tasks.\<close>

lemma plain_9: "plain_thread 9 count_world"
  by (simp add: plain_thread_def) (simp add: my_task_def demo_simps)

theorem plain_waiter_is_invisible_witness:
  "\<exists>w fr w1. plain_thread 9 w \<and> semTake 9 500 WAIT_FOREVER (0, 0) w = Done (AtCond fr, w)
     \<and> semGive 7 500 w = Done (Ret OK, w1) \<and> token_count (smcb w1 500) = 1 \<and> \<not> give_broadcasts 500 w1"
proof -
  let ?w = "upd_sem 500 (\<lambda>x. x\<lparr>token_count := 0\<rparr>) count_world"
  have "plain_thread 9 ?w" using plain_9 by simp
  from plain_waiter_is_invisible [OF this, of 500 "(new_sem 0)\<lparr>sem_flags := 0x20\<rparr>" 7 "(0, 0)" 0] this show ?thesis
    by (intro exI [of _ ?w]) (auto simp: is_mutex_def killed_or_flushed_def vxw_codes new_sem_def zero_sem_def)
qed

section \<open>A mutex that excludes nobody\<close>

text \<open>The threads of a list take a mutex one after the other.\<close>

fun take_each :: "addr \<Rightarrow> int \<Rightarrow> timeval \<Rightarrow> pthread list \<Rightarrow> world \<Rightarrow> (take list \<times> world) outcome" where
  "take_each s n now [] w = Done ([], w)"
| "take_each s n now (th # ths) w =
     obind (semTake th s n now w) (\<lambda>(r, w1).
       obind (take_each s n now ths w1) (\<lambda>(rs, w2). Done (r # rs, w2)))"

definition raise_level :: "int \<Rightarrow> v2lsem_t \<Rightarrow> v2lsem_t" where
  "raise_level k x = x\<lparr>recursion_level := recursion_level x + k\<rparr>"

lemma take_each_plain:
  assumes "\<forall>th \<in> set ths. plain_thread th w" and "s \<in> set (sem_list w)" and "s \<in> dom (sems w)"
    and "sem_lock (smcb w s) = 0" and "is_mutex (smcb w s)" and "current_owner (smcb w s) = NULL"
    and "0 \<le> recursion_level (smcb w s)" and "recursion_level (smcb w s) + int (length ths) < 2147483648"
  shows "take_each s n now ths w
     = Done (replicate (length ths) (Returned OK), upd_sem s (raise_level (int (length ths))) w)"
  using assms
proof (induction ths arbitrary: w)
  case Nil
  have "sems w = (sems w)(s := map_option (raise_level 0) (sems w s))"
    by (cases "sems w s") (auto simp: raise_level_def fun_eq_iff)
  then show ?case by (simp add: upd_sem_def)
next
  case (Cons th ths)
  let ?w1 = "upd_sem s (raise_level 1) w"
  have "sems (upd_sem s (\<lambda>x. x\<lparr>recursion_level := s32 (recursion_level x + 1)\<rparr>) w) = sems ?w1"
    using Cons.prems(3,7,8)
    by (auto simp: upd_sem_def raise_level_def smcb_def s32_id in_s32_def fun_eq_iff split: option.splits)
  then have eq: "upd_sem s (\<lambda>x. x\<lparr>recursion_level := s32 (recursion_level x + 1)\<rparr>) w = ?w1"
    by (simp add: upd_sem_def)
  have take: "semTake th s n now w = Done (Returned OK, ?w1)"
    using Cons.prems by (simp add: semTake_def sem_find_lock_def plain_thread_def take_return_def finish_def eq)
  have "smcb ?w1 s = raise_level 1 (smcb w s)" using Cons.prems(3) by (simp del: domIff)
  then have "take_each s n now ths ?w1
      = Done (replicate (length ths) (Returned OK), upd_sem s (raise_level (int (length ths))) ?w1)"
    using Cons.prems by (intro Cons.IH) (simp_all add: raise_level_def is_mutex_def del: domIff)
  moreover have "upd_sem s (raise_level (int (length ths))) ?w1 = upd_sem s (raise_level (1 + int (length ths))) w"
    unfolding upd_sem_comp by (rule arg_cong [of _ _ "\<lambda>f. upd_sem s f w"]) (simp add: raise_level_def fun_eq_iff)
  ultimately show ?case using take by simp
qed

lemma semGive_last:
  assumes "s \<in> set (sem_list w)" and "s \<in> dom (sems w)" and "smcb w s = v" and "sem_lock v = 0"
    and "recursion_level v = 1" and "current_owner v = my_task me w"
    and "sem_flags v AND SEM_DELETE_SAFE = 0" and "sem_flags v AND SEM_INVERSION_SAFE = 0"
  shows "\<exists>w'. semGive me s w = Done (Ret OK, w') \<and> token_count (smcb w' s) = s32 (token_count v + 1)
     \<and> recursion_level (smcb w' s) = 0 \<and> current_owner (smcb w' s) = NULL"
proof -
  let ?w1 = "upd_sem s (\<lambda>x. x\<lparr>recursion_level := recursion_level x - 1\<rparr>) w"
  let ?w2 = "upd_sem s (\<lambda>x. x\<lparr>token_count := s32 (token_count x + 1), current_owner := NULL\<rparr>) ?w1"
  have v: "smcb ?w1 s = v\<lparr>recursion_level := 0\<rparr>"
    "smcb ?w2 s = v\<lparr>recursion_level := 0, token_count := s32 (token_count v + 1), current_owner := NULL\<rparr>"
    using assms(2,3,5) by (simp_all del: domIff)
  have "semGive me s w = give_tail me s ?w2"
    using assms(1,3-6) by (simp add: semGive_def sem_find_lock_def v Let_def)
  also have "\<dots> = Done (Ret OK, ?w2)"
    using assms(7,8) by (simp add: give_tail_def v ret_status_def finish_def)
  finally show ?thesis using v by simp
qed

text \<open>C18. A mutex does not exclude threads without a task: all of them are the owner \<open>NULL\<close> of a free
  mutex. Any number of them takes the mutex without waiting, and the token stays, so that a task that
  comes next takes the mutex too, at the nesting level the threads have left. And when the only such
  thread gives the mutex back, it has two tokens.\<close>

theorem plain_threads_share_mutex:
  assumes "\<forall>th \<in> set ths. plain_thread th w" and "s \<in> set (sem_list w)" and "s \<in> dom (sems w)" and "smcb w s = v"
    and "sem_lock v = 0" and "is_mutex v" and "current_owner v = NULL" and "recursion_level v = 0" and "token_count v = 1"
    and "\<not> killed_or_flushed v" and "sem_first_susp v = []" and "sem_flags v AND SEM_DELETE_SAFE = 0"
    and "sem_flags v AND SEM_INVERSION_SAFE = 0" and "int (length ths) < 2147483647" and "my_task me w = t" and "t \<noteq> NULL"
  shows "\<exists>w1 w2. take_each s n now ths w = Done (replicate (length ths) (Returned OK), w1)
     \<and> semTake me s m now' w1 = Done (Returned OK, w2)
     \<and> current_owner (smcb w2 s) = t \<and> recursion_level (smcb w2 s) = int (length ths) + 1
     \<and> (\<forall>th. ths = [th] \<longrightarrow> (\<exists>w3. semGive th s w1 = Done (Ret OK, w3) \<and> token_count (smcb w3 s) = 2))"
proof -
  let ?w1 = "upd_sem s (raise_level (int (length ths))) w"
  have w1: "take_each s n now ths w = Done (replicate (length ths) (Returned OK), ?w1)"
    by (rule take_each_plain) (use assms in simp_all)
  have v1: "smcb ?w1 s = v\<lparr>recursion_level := int (length ths)\<rparr>"
    using assms(3,4,8) by (simp add: raise_level_def del: domIff)
  obtain w2 where w2: "semTake me s m now' ?w1 = Done (Returned OK, w2)" "current_owner (smcb w2 s) = t"
    "recursion_level (smcb w2 s) = (if is_mutex (v\<lparr>recursion_level := int (length ths)\<rparr>)
       then s32 (int (length ths) + 1) else int (length ths))"
    using semTake_token [of s ?w1 "v\<lparr>recursion_level := int (length ths)\<rparr>" me t m now'] assms v1
    by (auto simp: is_mutex_def killed_or_flushed_def del: domIff)
  have lev: "recursion_level (smcb w2 s) = int (length ths) + 1"
    using w2(3) assms(6,14) by (simp add: is_mutex_def s32_id in_s32_def)
  have give: "\<exists>w3. semGive th s ?w1 = Done (Ret OK, w3) \<and> token_count (smcb w3 s) = 2" if "ths = [th]" for th
  proof -
    have "recursion_level (smcb ?w1 s) = 1" "current_owner (smcb ?w1 s) = my_task th ?w1"
      using assms(1,7) that unfolding v1 by (simp_all add: plain_thread_def)
    then show ?thesis using semGive_last [of s ?w1 "smcb ?w1 s" th] assms v1
      by (auto simp: s32_def simp del: domIff)
  qed
  from w1 w2(1,2) lev give show ?thesis by (intro exI [of _ ?w1] exI [of _ w2]) simp
qed

theorem plain_threads_share_mutex_witness:
  "\<exists>w1 w2. take_each 500 WAIT_FOREVER (0, 0) [9, 10] mutex_world = Done ([Returned OK, Returned OK], w1)
     \<and> semTake 7 500 WAIT_FOREVER (0, 0) w1 = Done (Returned OK, w2) \<and> current_owner (smcb w2 500) = 100"
proof -
  have "\<forall>th \<in> set [9, 10]. plain_thread th mutex_world"
    by (simp add: plain_thread_def) (simp add: my_task_def demo_simps)
  from plain_threads_share_mutex [OF this, where s = 500 and v = "(new_sem 1)\<lparr>sem_flags := 0x10\<rparr>" and me = 7
      and t = 100 and n = WAIT_FOREVER and now = "(0, 0)" and m = WAIT_FOREVER and now' = "(0, 0)"] show ?thesis
    by (auto simp: killed_or_flushed_def vxw_codes)
qed

end
