(* ===== verification/Time_Lib.thy ===== *)
theory Time_Lib
  imports Show_Lib "HOL-Library.Log_Nat"
begin

text \<open>
  The tick counter of \<^verbatim>\<open>lib/v2ltime.c\<close> (\<^verbatim>\<open>tickSet\<close>, \<^verbatim>\<open>tickGet\<close>, \<^verbatim>\<open>sysClkRateGet\<close>), with its
  computations in \<^verbatim>\<open>double\<close> rounded as the machine rounds them, and \<^verbatim>\<open>trace_time\<close> of
  \<^verbatim>\<open>lib/v2ldebug.c\<close>.
\<close>


section \<open>Double precision\<close>

text \<open>A \<^verbatim>\<open>double\<close> is the rational it stands for. Every operation rounds its exact result to the
  nearest number with 53 significant bits, and a tie to the even one. (Overflow and
  underflow do not occur in these computations.)\<close>

definition round_even :: "rat \<Rightarrow> int" where
  "round_even x =
     (let d = x - of_int \<lfloor>x\<rfloor> in if d < 1 / 2 \<or> d = 1 / 2 \<and> even \<lfloor>x\<rfloor> then \<lfloor>x\<rfloor> else \<lfloor>x\<rfloor> + 1)"

text \<open>The binary exponent of a positive number.\<close>

definition exponent :: "rat \<Rightarrow> int" where
  "exponent x =
     (let (p, q) = quotient_of x; e = bitlen p - bitlen q in if 2 powi e \<le> x then e else e - 1)"

definition fl :: "rat \<Rightarrow> rat" where
  "fl x =
     (if x = 0 then 0
      else let unit = 2 powi (exponent \<bar>x\<bar> - 52) in sgn x * of_int (round_even (\<bar>x\<bar> / unit)) * unit)"

text \<open>Conversion to an integer type cuts off the fraction.\<close>

definition to_int :: "rat \<Rightarrow> int" where
  "to_int x = (if 0 \<le> x then \<lfloor>x\<rfloor> else \<lceil>x\<rceil>)"


section \<open>Lemmas: rounding\<close>

lemma round_even_of_int [simp]: "round_even (of_int n) = n"
  by (simp add: round_even_def)

lemma round_even_mono: "x \<le> y \<Longrightarrow> round_even x \<le> round_even y"
proof -
  assume le: "x \<le> y"
  then have "\<lfloor>x\<rfloor> \<le> \<lfloor>y\<rfloor>" by (rule floor_mono)
  then consider "\<lfloor>x\<rfloor> = \<lfloor>y\<rfloor>" | "\<lfloor>x\<rfloor> + 1 \<le> \<lfloor>y\<rfloor>" by linarith
  then show ?thesis
  proof cases
    case 1
    then show ?thesis using le by (auto simp: round_even_def Let_def)
  next
    case 2
    have "round_even x \<le> \<lfloor>x\<rfloor> + 1" "\<lfloor>y\<rfloor> \<le> round_even y" by (simp_all add: round_even_def Let_def)
    with 2 show ?thesis by linarith
  qed
qed

lemma bitlen_bounds_rat:
  assumes "0 < n"
  shows "2 powi (bitlen n - 1) \<le> (of_int n :: rat)" and "(of_int n :: rat) < 2 powi (bitlen n)"
proof -
  have b: "2 ^ nat (bitlen n - 1) \<le> n" "n < 2 ^ nat (bitlen n)" using bitlen_bounds [OF assms] by simp_all
  have nn: "0 \<le> bitlen n - 1" "0 \<le> bitlen n" using bitlen_bounds [OF assms] assms bitlen_ge_iff_power [of 1 n] by (simp_all add: bitlen_nonneg)
  have "(of_int (2 ^ nat (bitlen n - 1)) :: rat) \<le> of_int n" "(of_int n :: rat) < of_int (2 ^ nat (bitlen n))"
    using b by (simp_all only: of_int_le_iff of_int_less_iff)
  then show "2 powi (bitlen n - 1) \<le> (of_int n :: rat)" "(of_int n :: rat) < 2 powi (bitlen n)"
    using nn by (simp_all add: power_int_def)
qed

lemma exponent_bounds:
  assumes "0 < x"
  shows "2 powi exponent x \<le> x" and "x < 2 powi (exponent x + 1)"
proof -
  obtain p q where pq: "quotient_of x = (p, q)" by fastforce
  have x: "x = of_int p / of_int q" and q: "0 < q" using pq by (auto intro: quotient_of_div quotient_of_denom_pos)
  have p: "0 < p" using assms x q by (simp add: zero_less_divide_iff)
  let ?e = "bitlen p - bitlen q"
  have P: "2 powi (bitlen p - 1) \<le> (of_int p :: rat)" "(of_int p :: rat) < 2 powi (bitlen p)"
    and Q: "2 powi (bitlen q - 1) \<le> (of_int q :: rat)" "(of_int q :: rat) < 2 powi (bitlen q)"
    using bitlen_bounds_rat p q by blast+
  have lo: "2 powi (?e - 1) \<le> x"
  proof -
    have "2 powi (?e - 1) * of_int q \<le> 2 powi (?e - 1) * (2 powi (bitlen q) :: rat)" using Q(2) by simp
    also have "\<dots> = 2 powi (bitlen p - 1)" by (simp flip: power_int_add)
    also have "\<dots> \<le> of_int p" by (rule P(1))
    finally show ?thesis using q by (simp add: x field_simps)
  qed
  have hi: "x < 2 powi (?e + 1)"
  proof -
    have "of_int p < (2 powi (bitlen p) :: rat)" by (rule P(2))
    also have "\<dots> = 2 powi (?e + 1) * 2 powi (bitlen q - 1)" by (simp flip: power_int_add)
    also have "\<dots> \<le> 2 powi (?e + 1) * of_int q" using Q(1) by simp
    finally show ?thesis using q by (simp add: x field_simps)
  qed
  show "2 powi exponent x \<le> x" "x < 2 powi (exponent x + 1)"
    using lo hi by (simp_all add: exponent_def pq Let_def)
qed

lemma fl_pos:
  assumes "0 < x"
  shows "fl x = of_int (round_even (x / 2 powi (exponent x - 52))) * 2 powi (exponent x - 52)"
  using assms by (simp add: fl_def Let_def)

lemma fl_pos_bounds:
  assumes "0 < x"
  shows "2 powi exponent x \<le> fl x" and "fl x \<le> 2 powi (exponent x + 1)"
proof -
  define u where "u = (2 powi (exponent x - 52) :: rat)"
  have u: "0 < u" "2 powi exponent x = of_int (2 ^ 52) * u" "2 powi (exponent x + 1) = of_int (2 ^ 53) * u"
    using power_int_add [of "2 :: rat" 52 "exponent x - 52"] power_int_add [of "2 :: rat" 53 "exponent x - 52"]
    by (simp_all add: u_def add.commute [of "exponent x"])
  have "of_int (2 ^ 52) \<le> x / u" "x / u \<le> of_int (2 ^ 53)"
    using exponent_bounds [OF assms] u(1) unfolding u(2,3) by (simp_all add: field_simps)
  then have "2 ^ 52 \<le> round_even (x / u)" "round_even (x / u) \<le> 2 ^ 53"
    using round_even_mono round_even_of_int by metis+
  then have "of_int (2 ^ 52) \<le> (of_int (round_even (x / u)) :: rat)" "(of_int (round_even (x / u)) :: rat) \<le> of_int (2 ^ 53)"
    by (simp_all only: of_int_le_iff)
  then show "2 powi exponent x \<le> fl x" "fl x \<le> 2 powi (exponent x + 1)"
    unfolding u(2,3) fl_pos [OF assms] u_def [symmetric] using u(1) by (simp_all only: mult_right_mono less_imp_le)
qed

lemma fl_error:
  assumes "0 < x"
  shows "fl x \<le> x + x / 4503599627370496"
proof -
  define u where "u = (2 powi (exponent x - 52) :: rat)"
  have u: "0 < u" by (simp add: u_def)
  have "4503599627370496 * u \<le> x"
    using exponent_bounds(1) [OF assms] power_int_add [of "2 :: rat" 52 "exponent x - 52"] by (simp add: u_def)
  moreover have "round_even (x / u) \<le> \<lfloor>x / u\<rfloor> + 1" by (simp add: round_even_def Let_def)
  then have "of_int (round_even (x / u)) \<le> x / u + 1" by linarith
  then have "fl x \<le> x + u" using u fl_pos [OF assms] by (simp add: field_simps flip: u_def)
  ultimately show ?thesis by linarith
qed

lemma fl_minus: "fl (- x) = - fl x"
  by (simp add: fl_def Let_def)

lemma fl_0 [simp]: "fl 0 = 0"
  by (simp add: fl_def)

lemma fl_nonneg: "0 \<le> x \<Longrightarrow> 0 \<le> fl x"
  using fl_pos_bounds(1) [of x] zero_less_power_int [of "2 :: rat" "exponent x"] by (cases "x = 0") (simp, linarith)

lemma fl_mono_pos:
  assumes "0 < x" and "x \<le> y"
  shows "fl x \<le> fl y"
proof (cases "exponent x = exponent y")
  case True
  have "round_even (x / 2 powi (exponent x - 52)) \<le> round_even (y / 2 powi (exponent x - 52))"
    using assms by (intro round_even_mono divide_right_mono) simp_all
  then show ?thesis
    using assms fl_pos [of x] fl_pos [of y] True by (simp add: mult_right_mono)
next
  case False
  have "(2 powi exponent x :: rat) < 2 powi (exponent y + 1)"
    using exponent_bounds [of x] exponent_bounds [of y] assms by linarith
  then have "exponent x < exponent y + 1"
    using power_int_increasing [of "exponent y + 1" "exponent x" "2 :: rat"] by (cases "exponent x < exponent y + 1") simp_all
  with False have "exponent x + 1 \<le> exponent y" by simp
  then have "(2 powi (exponent x + 1) :: rat) \<le> 2 powi exponent y" by (intro power_int_increasing) simp_all
  then show ?thesis using fl_pos_bounds(2) [of x] fl_pos_bounds(1) [of y] assms by linarith
qed

lemma fl_mono:
  assumes "x \<le> y"
  shows "fl x \<le> fl y"
proof -
  consider "0 < x" | "x \<le> 0" "0 \<le> y" | "y < 0" by linarith
  then show ?thesis
  proof cases
    case 2
    then have "fl x \<le> 0" "0 \<le> fl y" using fl_nonneg [of "- x"] fl_nonneg [of y] by (simp_all add: fl_minus)
    then show ?thesis by simp
  next
    case 3
    then show ?thesis using fl_mono_pos [of "- y" "- x"] assms by (simp add: fl_minus)
  qed (use fl_mono_pos assms in blast)
qed

text \<open>Integers of at most 53 bits are exact.\<close>

lemma fl_of_pos_int:
  assumes "0 < n" and "n \<le> 2 ^ 53"
  shows "fl (of_int n) = of_int n"
proof -
  let ?x = "of_int n :: rat" and ?e = "exponent (of_int n)"
  have pos: "0 < ?x" using assms by simp
  obtain m where m: "?x = of_int m * 2 powi (?e - 52)"
  proof (cases "?e \<le> 52")
    case True
    then have "(1 :: rat) = of_int (2 ^ nat (52 - ?e)) * 2 powi (?e - 52)"
      by (simp flip: power_int_of_nat power_int_add)
    then have "?x = of_int (n * 2 ^ nat (52 - ?e)) * 2 powi (?e - 52)" by (simp add: mult.assoc)
    then show thesis by (rule that)
  next
    case False
    have "(of_int n :: rat) \<le> of_int (2 ^ 53)" using assms(2) by (simp only: of_int_le_iff)
    then have n: "?x \<le> 2 powi 53" by simp
    have "?e < 54"
      using exponent_bounds(1) [OF pos] n power_int_increasing [of 54 ?e "2 :: rat"] by (cases "?e < 54") simp_all
    with False have e: "?e = 53" by simp
    have "(of_int (2 ^ 53) :: rat) \<le> of_int n" using exponent_bounds(1) [OF pos] unfolding e by simp
    then have "n = 2 ^ 53" using assms(2) by (simp only: of_int_le_iff)
    then have "?x = of_int (2 ^ 52) * 2 powi (?e - 52)" unfolding e by simp
    then show thesis by (rule that)
  qed
  then have "?x / 2 powi (?e - 52) = of_int m" by (simp add: field_simps)
  then show ?thesis using fl_pos [OF pos] m by simp
qed

lemma fl_of_int: "\<bar>n\<bar> \<le> 2 ^ 53 \<Longrightarrow> fl (of_int n) = of_int n"
  using fl_of_pos_int [of n] fl_of_pos_int [of "- n"] fl_minus [of "of_int (- n)"]
  by (cases "0 < n"; cases "n = 0") simp_all

text \<open>So that rounding does not cross an integer.\<close>

lemma fl_between:
  assumes "of_int a \<le> x" and "x \<le> of_int b" and "- 9007199254740992 \<le> a" and "b \<le> 9007199254740992"
  shows "of_int a \<le> fl x" and "fl x \<le> of_int b"
proof -
  have "(of_int a :: rat) \<le> of_int b" using assms(1,2) by linarith
  then have "\<bar>a\<bar> \<le> 2 ^ 53" "\<bar>b\<bar> \<le> 2 ^ 53" using assms(3,4) by simp_all
  then show "of_int a \<le> fl x" "fl x \<le> of_int b"
    using fl_mono [OF assms(1)] fl_mono [OF assms(2)] fl_of_int by simp_all
qed

lemma to_int_mono: "x \<le> y \<Longrightarrow> to_int x \<le> to_int y"
proof -
  assume le: "x \<le> y"
  have "\<lceil>x\<rceil> \<le> 0" if "\<not> 0 \<le> x" using that by (simp add: ceiling_le_iff)
  moreover have "0 \<le> \<lfloor>y\<rfloor>" if "0 \<le> y" using that by simp
  ultimately show ?thesis
    using le floor_mono [OF le] ceiling_mono [OF le] order_trans [of "\<lceil>x\<rceil>" 0 "\<lfloor>y\<rfloor>"] unfolding to_int_def
    by (cases "0 \<le> x"; cases "0 \<le> y") simp_all
qed

lemma to_int_of_int [simp]: "to_int (of_int n) = n"
  by (simp add: to_int_def)

lemma to_int_between: "of_int a \<le> x \<Longrightarrow> x \<le> of_int b \<Longrightarrow> a \<le> to_int x \<and> to_int x \<le> b"
  using to_int_mono to_int_of_int by metis


section \<open>The tick counter\<close>

text \<open>\<open>unsigned long long\<close> and \<open>long long\<close>. The file \<^verbatim>\<open>/proc/uptime\<close> is an argument: \<open>None\<close>
  when it cannot be opened (\<^verbatim>\<open>fscanf\<close> then gets a null pointer), \<open>Some None\<close> when it does
  not start with a number, so that \<^verbatim>\<open>uptime\<close> stays 0. The static variable \<open>offset\<close> is
  passed.\<close>

definition u64 :: "int \<Rightarrow> int" where
  "u64 n = n mod 2 ^ 64"

definition s64 :: "int \<Rightarrow> int" where
  "s64 n = (n + 2 ^ 63) mod 2 ^ 64 - 2 ^ 63"

type_synonym uptime_file = "rat option option"

definition uptime_ticks :: "rat option \<Rightarrow> rat" where
  "uptime_ticks scanned =
     (let uptime = (case scanned of Some u \<Rightarrow> u | None \<Rightarrow> 0)
      in fl (fl (uptime * 1000) / of_int V2PT_TICK))"

definition tickSet :: "uptime_file \<Rightarrow> int \<Rightarrow> int outcome" where
  "tickSet file ticks =
     (case file of
        None \<Rightarrow> Crashed
      | Some scanned \<Rightarrow> Done (s64 (to_int (fl (fl (of_int ticks) - uptime_ticks scanned)))))"

definition tickGet :: "uptime_file \<Rightarrow> int \<Rightarrow> int outcome" where
  "tickGet file offset =
     (case file of
        None \<Rightarrow> Crashed
      | Some scanned \<Rightarrow> Done (u64 (to_int (fl (fl (of_int offset) + uptime_ticks scanned)))))"

text \<open>\<open>nsec\<close> is the resolution that \<^verbatim>\<open>clock_getres\<close> reports, which is positive.\<close>

definition sysClkRateGet :: "int \<Rightarrow> int" where
  "sysClkRateGet nsec = s32 (to_int (fl (fl 1000000000 / of_int nsec)))"

lemma uptime_ticks_mono: "u \<le> v \<Longrightarrow> uptime_ticks (Some u) \<le> uptime_ticks (Some v)"
  unfolding uptime_ticks_def Let_def V2PT_TICK_def by (intro fl_mono) (simp add: divide_right_mono fl_mono)

lemma uptime_ticks_bounds:
  assumes "0 \<le> u" and "u \<le> 2 ^ 42"
  shows "0 \<le> uptime_ticks (Some u)" and "uptime_ticks (Some u) \<le> of_int (2 ^ 50)"
proof -
  have a: "of_int 0 \<le> fl (u * 1000)" "fl (u * 1000) \<le> of_int (2 ^ 53)"
    using assms by (intro fl_between [of 0 _ "2 ^ 53"]; simp)+
  have "of_int 0 \<le> fl (fl (u * 1000) / of_int V2PT_TICK)" "fl (fl (u * 1000) / of_int V2PT_TICK) \<le> of_int (2 ^ 50)"
    using a by (intro fl_between [of 0 _ "2 ^ 50"]; simp add: V2PT_TICK_def)+
  then show "0 \<le> uptime_ticks (Some u)" "uptime_ticks (Some u) \<le> of_int (2 ^ 50)"
    by (simp_all add: uptime_ticks_def)
qed

text \<open>C24. The tick counter counts. After \<^verbatim>\<open>tickSet\<close> to \<open>n\<close> at one uptime, \<^verbatim>\<open>tickGet\<close> at a later
  one returns \<open>n\<close> plus the elapsed ticks, up to one tick on either side (so that it can
  return \<open>n - 1\<close> right after \<^verbatim>\<open>tickSet\<close>), and it never goes backwards, in spite of the
  rounding of every \<^verbatim>\<open>double\<close> operation. (Uptimes up to \<open>2 ^ 42\<close> seconds, counts up to
  \<open>2 ^ 50\<close>.)\<close>

theorem tick_counter:
  assumes "0 \<le> u" and "u \<le> v" and "v \<le> v'" and "v' \<le> 2 ^ 42" and "1 \<le> n" and "n \<le> 2 ^ 50"
  shows "\<exists>offset g g'. tickSet (Some (Some u)) n = Done offset
     \<and> tickGet (Some (Some v)) offset = Done g \<and> tickGet (Some (Some v')) offset = Done g'
     \<and> g \<le> g'
     \<and> n + \<lfloor>uptime_ticks (Some v) - uptime_ticks (Some u)\<rfloor> - 1 \<le> g
     \<and> g \<le> n + \<lceil>uptime_ticks (Some v) - uptime_ticks (Some u)\<rceil> + 1"
proof -
  define x where "x = uptime_ticks (Some u)"
  have x: "0 \<le> x" "x \<le> 1125899906842624" using uptime_ticks_bounds [of u] assms by (simp_all add: x_def)
  have n: "1 \<le> n" "n \<le> 1125899906842624" using assms(5,6) by simp_all
  define d where "d = to_int (fl (of_int n - x))"
  have fn: "fl (of_int n) = of_int n" using assms(5,6) by (intro fl_of_int) simp
  have "of_int \<lfloor>of_int n - x\<rfloor> \<le> fl (of_int n - x)" "fl (of_int n - x) \<le> of_int \<lceil>of_int n - x\<rceil>"
    by (rule fl_between [of "\<lfloor>of_int n - x\<rfloor>" _ "\<lceil>of_int n - x\<rceil>"]; use x n in linarith)+
  then have d: "\<lfloor>of_int n - x\<rfloor> \<le> d" "d \<le> \<lceil>of_int n - x\<rceil>" using to_int_between unfolding d_def by blast+
  have small: "- 1125899906842624 \<le> d" "d \<le> 1125899906842624"
    using d x n by linarith+
  have off: "tickSet (Some (Some u)) n = Done d"
    using small by (simp add: tickSet_def fn d_def [symmetric] x_def [symmetric] s64_def)
  define get where "get w = to_int (fl (of_int d + uptime_ticks (Some w)))" for w
  have fd: "fl (of_int d) = of_int d" using small by (intro fl_of_int) simp
  have get: "tickGet (Some (Some w)) d = Done (get w) \<and> n + \<lfloor>uptime_ticks (Some w) - x\<rfloor> - 1 \<le> get w
      \<and> get w \<le> n + \<lceil>uptime_ticks (Some w) - x\<rceil> + 1" if "u \<le> w" "w \<le> 2 ^ 42" for w
  proof -
    let ?y = "uptime_ticks (Some w)"
    have y: "x \<le> ?y" "?y \<le> 1125899906842624"
      using uptime_ticks_mono [OF that(1)] uptime_ticks_bounds [of w] that assms(1) by (simp_all add: x_def)
    have "of_int (n + \<lfloor>?y - x\<rfloor> - 1) \<le> of_int d + ?y" "of_int d + ?y \<le> of_int (n + \<lceil>?y - x\<rceil> + 1)"
      using d by linarith+
    then have "of_int (n + \<lfloor>?y - x\<rfloor> - 1) \<le> fl (of_int d + ?y)" "fl (of_int d + ?y) \<le> of_int (n + \<lceil>?y - x\<rceil> + 1)"
      by (rule fl_between; use x y n in linarith)+
    then have g: "n + \<lfloor>?y - x\<rfloor> - 1 \<le> get w \<and> get w \<le> n + \<lceil>?y - x\<rceil> + 1"
      unfolding get_def by (rule to_int_between)
    moreover have "0 \<le> n + \<lfloor>?y - x\<rfloor> - 1" "n + \<lceil>?y - x\<rceil> + 1 < 18446744073709551616" using x y n by linarith+
    ultimately show ?thesis by (simp add: tickGet_def fd get_def [symmetric] u64_def)
  qed
  have "get v \<le> get v'"
    unfolding get_def using uptime_ticks_mono [OF assms(3)] by (intro to_int_mono fl_mono add_left_mono)
  then show ?thesis using off get [of v] get [of v'] assms
    by (intro exI [of _ d] exI [of _ "get v"] exI [of _ "get v'"]) (simp add: x_def)
qed

theorem tick_counter_witness:
  "\<exists>offset g. tickSet (Some (Some (12345 / 100))) 500000 = Done offset
     \<and> tickGet (Some (Some (12345 / 100))) offset = Done g \<and> 499999 \<le> g \<and> g \<le> 500001"
  using tick_counter [of "12345 / 100" "12345 / 100" "12345 / 100" 500000] by auto

text \<open>\<^verbatim>\<open>sysClkRateGet\<close> is not the rate of the tick counter. It returns the number of
  resolution steps of the clock in a second, exactly, for every resolution up to a second; on a
  clock with nanosecond resolution that is 1000000000, while a second has 100 ticks of
  \<^verbatim>\<open>V2PT_TICK\<close> milliseconds for \<^verbatim>\<open>taskDelay\<close>, the time limits and the tick counter.\<close>

theorem sysClkRateGet_is_resolution:
  assumes "1 \<le> nsec" and "nsec \<le> 1000000000"
  shows "sysClkRateGet nsec = 1000000000 div nsec"
proof -
  let ?q = "1000000000 / of_int nsec :: rat" and ?k = "1000000000 div nsec"
  have nsec: "(0 :: rat) < of_int nsec" using assms(1) by simp
  have k: "of_int ?k \<le> ?q" "?q \<le> of_int (?k + 1) - 1 / of_int nsec" "0 \<le> ?k" "?k \<le> 1000000000"
  proof -
    have le: "?k * nsec \<le> 1000000000" "1000000000 + 1 \<le> (?k + 1) * nsec"
      using assms(1) div_mult_mod_eq [of 1000000000 nsec] pos_mod_bound [of nsec 1000000000] pos_mod_sign [of nsec 1000000000]
      unfolding distrib_right by linarith+
    have "of_int (?k * nsec) \<le> (of_int 1000000000 :: rat)" "(of_int (1000000000 + 1) :: rat) \<le> of_int ((?k + 1) * nsec)"
      using le by (simp_all only: of_int_le_iff)
    then show "of_int ?k \<le> ?q" "?q \<le> of_int (?k + 1) - 1 / of_int nsec" using nsec by (simp_all add: field_simps)
    show "0 \<le> ?k" "?k \<le> 1000000000" using assms zdiv_mono2 [of 1000000000 1 nsec] by (simp_all add: pos_imp_zdiv_nonneg_iff)
  qed
  have "fl 1000000000 = (1000000000 :: rat)" using fl_of_int [of 1000000000] by simp
  moreover have "of_int ?k \<le> fl ?q" by (rule fl_between [of _ _ "?k + 1"]; use k in \<open>simp add: nsec\<close>)
  moreover have "fl ?q < of_int (?k + 1)"
  proof -
    have "fl ?q \<le> ?q + ?q / 4503599627370496" using fl_error [of ?q] nsec by simp
    also have "?q / 4503599627370496 < 1 / of_int nsec" using nsec by (simp add: field_simps)
    finally show ?thesis using k(2) by linarith
  qed
  ultimately have "to_int (fl (fl 1000000000 / of_int nsec)) = ?k"
    using k(3) by (simp add: to_int_def floor_eq_iff)
  then show ?thesis using k by (simp add: sysClkRateGet_def s32_id in_s32_def)
qed

theorem sysClkRateGet_is_resolution_witness: "sysClkRateGet 1 = 1000000000 \<and> sysClkRateGet 10000000 = 100"
  using sysClkRateGet_is_resolution [of 1] sysClkRateGet_is_resolution [of 10000000] by simp


section \<open>Trace output\<close>

text \<open>The static variables of \<^verbatim>\<open>v2ldebug.c\<close> that \<^verbatim>\<open>trace_time\<close> uses, with times in seconds
  and microseconds.\<close>

record trace_state =
  start_tv :: timeval
  prev_tv :: timeval

definition timersub :: "timeval \<Rightarrow> timeval \<Rightarrow> timeval" where
  "timersub a b =
     (if snd a - snd b < 0 then (fst a - fst b - 1, snd a - snd b + 1000000)
      else (fst a - fst b, snd a - snd b))"

definition timerisset :: "timeval \<Rightarrow> bool" where
  "timerisset t \<longleftrightarrow> fst t \<noteq> 0 \<or> snd t \<noteq> 0"

text \<open>\<open>now_tm\<close> are the six fields of the local time that are printed, \<open>now\<close> is what
  \<^verbatim>\<open>gettimeofday\<close> returns.\<close>

definition trace_time :: "int list \<Rightarrow> timeval \<Rightarrow> trace_state \<Rightarrow> printed \<times> trace_state" where
  "trace_time now_tm now st =
     (let (head, st1) =
            (if fst (start_tv st) = 0
             then ([(''time=%04d-%02d-%02d %02d:%02d:%02d.%06d'' @ newline, map PInt (now_tm @ [s32 (snd now)]))],
                   st\<lparr>start_tv := now\<rparr>)
             else ([], st));
          uptime = timersub now (start_tv st1);
          passed = (if timerisset (prev_tv st1) then timersub now (prev_tv st1) else (0, 0))
      in if \<not> timerisset passed \<or> snd passed > 10000
         then (head @ [(''uptime=%d.%06d s '', [PInt (s32 (fst uptime)), PInt (s32 (snd uptime))]),
                       (''+%d.%06d '', [PInt (s32 (fst passed)), PInt (s32 (snd passed))]),
                       (newline, [])],
               st1\<lparr>prev_tv := now\<rparr>)
         else (head, st1))"

text \<open>Microseconds of a time.\<close>

definition usecs :: "timeval \<Rightarrow> int" where
  "usecs t = 1000000 * fst t + snd t"

definition normal_tv :: "timeval \<Rightarrow> bool" where
  "normal_tv t \<longleftrightarrow> 0 \<le> snd t \<and> snd t < 1000000"

lemma timersub_usecs:
  assumes "normal_tv a" and "normal_tv b"
  shows "usecs (timersub a b) = usecs a - usecs b" and "normal_tv (timersub a b)"
  using assms by (auto simp: usecs_def timersub_def normal_tv_def)

lemma snd_usecs: "normal_tv t \<Longrightarrow> snd t = usecs t mod 1000000"
  by (simp add: usecs_def normal_tv_def)

lemma timerisset_usecs: "normal_tv t \<Longrightarrow> timerisset t \<longleftrightarrow> usecs t \<noteq> 0"
proof -
  assume t: "normal_tv t"
  have "fst t = 0 \<and> snd t = 0" if "usecs t = 0"
  proof -
    have "- 1 < fst t" "fst t < 1" using t that by (simp_all add: usecs_def normal_tv_def)
    then have "fst t = 0" by simp
    with that show ?thesis by (simp add: usecs_def)
  qed
  then show ?thesis by (auto simp: timerisset_def usecs_def)
qed

text \<open>When \<^verbatim>\<open>trace_time\<close> prints. After the first call it prints the time exactly when the
  time since the last print is zero or its microseconds within the second are more than
  10000; the seconds do not count, so that after 5.009 seconds nothing is printed, although
  the comment asks for more than 0.01 seconds.\<close>

theorem trace_time_prints:
  assumes "fst (start_tv st) \<noteq> 0" and "timerisset (prev_tv st)" and "normal_tv now" and "normal_tv (prev_tv st)"
  shows "(fst (trace_time now_tm now st) \<noteq> []
      \<longleftrightarrow> usecs now = usecs (prev_tv st) \<or> (usecs now - usecs (prev_tv st)) mod 1000000 > 10000)
    \<and> prev_tv (snd (trace_time now_tm now st))
      = (if fst (trace_time now_tm now st) \<noteq> [] then now else prev_tv st)"
proof -
  note t = timersub_usecs [OF assms(3,4)]
  have "timerisset (timersub now (prev_tv st)) \<longleftrightarrow> usecs now \<noteq> usecs (prev_tv st)"
    "snd (timersub now (prev_tv st)) = (usecs now - usecs (prev_tv st)) mod 1000000"
    using timerisset_usecs [OF t(2)] snd_usecs [OF t(2)] t(1) by simp_all
  then show ?thesis using assms(1,2) by (auto simp: trace_time_def Let_def)
qed

theorem trace_time_prints_witness:
  "fst (trace_time [] (105, 9000) \<lparr>start_tv = (100, 0), prev_tv = (100, 0)\<rparr>) = []"
  using trace_time_prints [of "\<lparr>start_tv = (100, 0), prev_tv = (100, 0)\<rparr>" "(105, 9000)" "[]"]
  by (simp add: normal_tv_def timerisset_def usecs_def)

end
