(* ===== verification/Smoke_Test.thy ===== *)
theory Smoke_Test
  imports Plain_Threads System Time_Lib
begin

text \<open>
  \<^verbatim>\<open>cpp_tests/static_smoke.cpp\<close>, a client of the library: a main thread that becomes the root task
  with \<^verbatim>\<open>v2lin_init\<close>, and a worker thread created with \<^verbatim>\<open>pthread_create\<close>, which has no task. The
  program is a transition system over the definitions of the library, with one step per library call
  of the two threads and the steps of the exception task in between.
\<close>


section \<open>The program\<close>

text \<open>What the environment decides: the threads, the addresses of the static control blocks of
  \<^verbatim>\<open>v2lin_init\<close> and of the blocks \<open>malloc\<close> returns, the extent of the queue, and the result of
  \<^verbatim>\<open>pthread_create\<close> for the worker.\<close>

record smoke_env =
  main_thread :: pthread
  worker_thread :: pthread
  excp_thread :: pthread
  root_tcb :: addr
  root_name :: addr
  excp_tcb :: addr
  excp_name :: addr
  excp_entry :: addr
  semaphore_block :: addr
  queue_block :: addr
  queue_extent :: "byte list option"
  create_status :: int

text \<open>Where the main thread is: it is about to call the function of that name, with the results so
  far of the test of the semaphore. The worker is not there yet, about to call \<^verbatim>\<open>semTake\<close>,
  asleep in it, or has returned.\<close>

datatype main_pc = MInit | MCreate | MGive | MJoin int | MDelete int int | MDeleting int int
  | MQueue | MClock | MExit int

datatype worker_pc = WNone | WStart | WCond take_frame | WDelay take_frame | WDone

text \<open>\<open>notified\<close>: the condition variable was signalled since the worker went to sleep.\<close>

record smoke =
  world_of :: world
  main_at :: main_pc
  worker_at :: worker_pc
  worker_semaphore :: addr
  worker_completed :: int
  notified :: bool

text \<open>\<^verbatim>\<open>pthread_worker\<close>.\<close>

definition worker_returns :: "take \<times> world \<Rightarrow> smoke \<Rightarrow> smoke" where
  "worker_returns rw c =
     (let c' = c\<lparr>world_of := snd rw\<rparr> in
      case fst rw of
        Returned r \<Rightarrow> c'\<lparr>worker_at := WDone, worker_completed := (if r = OK then 1 else worker_completed c)\<rparr>
      | AtCond fr \<Rightarrow> c'\<lparr>worker_at := WCond fr, notified := False\<rparr>
      | AtDelay fr \<Rightarrow> c'\<lparr>worker_at := WDelay fr\<rparr>)"

inductive worker_step :: "bool \<Rightarrow> smoke_env \<Rightarrow> smoke \<Rightarrow> smoke \<Rightarrow> bool" for spurious env where
  Take: "worker_at c = WStart \<Longrightarrow>
    semTake (worker_thread env) (worker_semaphore c) WAIT_FOREVER now (world_of c) = Done rw \<Longrightarrow>
    worker_step spurious env c (worker_returns rw c)"
| Wake: "worker_at c = WCond fr \<Longrightarrow> spurious \<or> notified c \<Longrightarrow>
    semTake_wake (worker_thread env) 0 fr (world_of c) = Done rw \<Longrightarrow>
    worker_step spurious env c (worker_returns rw c)"
| TickOver: "worker_at c = WDelay fr \<Longrightarrow> semTake_tick (worker_thread env) now fr (world_of c) = Done rw \<Longrightarrow>
    worker_step spurious env c (worker_returns rw c)"

text \<open>The characters of the message, with the final zero, as bytes; and what \<^verbatim>\<open>strcmp\<close> compares.\<close>

definition smoke_message :: "byte list" where
  "smoke_message = map (\<lambda>c. word_of_nat (of_char c)) ''static message queue'' @ [0]"

definition c_string :: "byte list \<Rightarrow> byte list" where
  "c_string bs = takeWhile (\<lambda>b. b \<noteq> 0) bs"

text \<open>The function runs in one piece; \<open>Blocked\<close> stands for a call of it that goes to sleep.\<close>

definition test_message_queue ::
  "pthread \<Rightarrow> addr \<Rightarrow> byte list option \<Rightarrow> timeval \<Rightarrow> timeval \<Rightarrow> world \<Rightarrow> (bool \<times> world) outcome" where
  "test_message_queue me blk data now now' w =
     obind (msgQCreate me 1 32 MSG_Q_FIFO blk data w) (\<lambda>(queue, w1).
       if queue = NULL then Done (False, w1)
       else
         let message = smoke_message in
         obind (msgQSend me queue (Some message) (int (length message)) NO_WAIT MSG_PRI_NORMAL now w1) (\<lambda>(sent, w2).
           case sent of
             Sent send_status \<Rightarrow>
               obind (if send_status = OK then msgQReceive me queue True 32 NO_WAIT now' w2
                      else Done (Received ERROR [], w2)) (\<lambda>(got, w3).
                 case got of
                   Received receive_status bytes \<Rightarrow>
                     let received = bytes @ replicate (32 - length bytes) 0 in
                     obind (msgQDelete me queue w3) (\<lambda>(gone, w4).
                       case gone of
                         Deleted delete_status \<Rightarrow>
                           Done (send_status = OK \<and> receive_status = int (length message)
                                 \<and> c_string received = c_string message \<and> delete_status = OK, w4)
                       | _ \<Rightarrow> Blocked)
                 | _ \<Rightarrow> Blocked)
           | _ \<Rightarrow> Blocked))"

text \<open>\<open>nsec\<close> is the resolution of the clock, the two files are the readings of the uptime before
  and after the delay; \<^verbatim>\<open>tickSet\<close> was never called, and \<^verbatim>\<open>taskDelay\<close> returns \<open>OK\<close>.\<close>

definition test_clock_and_ticks ::
  "pthread \<Rightarrow> int \<Rightarrow> uptime_file \<Rightarrow> uptime_file \<Rightarrow> world \<Rightarrow> (bool \<times> world) outcome" where
  "test_clock_and_ticks me nsec file_before file_after w =
     (let clock_rate = sysClkRateGet nsec in
      obind (tickGet file_before 0) (\<lambda>before.
        let delay_status = OK; w' = taskDelay_end (my_task me w) (taskDelay_begin me w) in
        obind (tickGet file_after 0) (\<lambda>after.
          Done (clock_rate > 0 \<and> delay_status = OK \<and> after \<ge> before, w'))))"

text \<open>\<^verbatim>\<open>main\<close> and \<^verbatim>\<open>test_semaphore_and_pthread\<close>, one call of the library at a time. The creation of
  the thread goes with the creation of the semaphore. Uptimes do not go backwards, and the
  resolution of the clock is at most a second.\<close>

inductive main_step :: "smoke_env \<Rightarrow> smoke \<Rightarrow> smoke \<Rightarrow> bool" for env where
  Init: "main_at c = MInit \<Longrightarrow>
    v2lin_init (main_thread env) (root_tcb env) (root_name env) (excp_tcb env) (excp_entry env)
      (excp_name env) 0 (excp_thread env) (world_of c) = Done (r, w) \<Longrightarrow>
    main_step env c (c\<lparr>world_of := w, main_at := (if r \<noteq> OK then MExit 1 else MCreate)\<rparr>)"
| Create: "main_at c = MCreate \<Longrightarrow>
    semBCreate (main_thread env) SEM_Q_FIFO SEM_EMPTY (semaphore_block env) (world_of c) = (s, w) \<Longrightarrow>
    main_step env c
      (if s = NULL then c\<lparr>world_of := w, worker_semaphore := s, main_at := MExit 1\<rparr>
       else if create_status env = 0
       then c\<lparr>world_of := w\<lparr>threads := insert (worker_thread env) (threads w)\<rparr>, worker_semaphore := s,
              main_at := MGive, worker_at := WStart\<rparr>
       else c\<lparr>world_of := w, worker_semaphore := s, main_at := MGive\<rparr>)"
| Give: "main_at c = MGive \<Longrightarrow> create_status env = 0 \<Longrightarrow>
    semGive (main_thread env) (worker_semaphore c) (world_of c) = Done (Ret g, w) \<Longrightarrow>
    main_step env c (c\<lparr>world_of := w, main_at := MJoin g,
      notified := (notified c \<or> g = OK \<and> give_broadcasts (worker_semaphore c) w)\<rparr>)"
| NoGive: "main_at c = MGive \<Longrightarrow> create_status env \<noteq> 0 \<Longrightarrow> main_step env c (c\<lparr>main_at := MJoin ERROR\<rparr>)"
| Join: "main_at c = MJoin g \<Longrightarrow> create_status env = 0 \<Longrightarrow> worker_at c = WDone \<Longrightarrow>
    main_step env c (c\<lparr>main_at := MDelete g 0\<rparr>)"
| NoJoin: "main_at c = MJoin g \<Longrightarrow> create_status env \<noteq> 0 \<Longrightarrow> main_step env c (c\<lparr>main_at := MDelete g ERROR\<rparr>)"
| Delete: "main_at c = MDelete g j \<Longrightarrow>
    semDelete (main_thread env) (worker_semaphore c) (world_of c) = Done (d, w) \<Longrightarrow>
    main_step env c (c\<lparr>world_of := w, main_at := (case d of Parked \<Rightarrow> MDeleting g j | Ret r \<Rightarrow>
      if create_status env = 0 \<and> g = OK \<and> j = 0 \<and> r = OK \<and> worker_completed c = 1 then MQueue else MExit 1)\<rparr>)"
| Deleting: "main_at c = MDeleting g j \<Longrightarrow>
    semDelete_resume (main_thread env) (worker_semaphore c) (world_of c) = Done (d, w) \<Longrightarrow>
    main_step env c (c\<lparr>world_of := w, main_at := (case d of Parked \<Rightarrow> MDeleting g j | Ret r \<Rightarrow>
      if create_status env = 0 \<and> g = OK \<and> j = 0 \<and> r = OK \<and> worker_completed c = 1 then MQueue else MExit 1)\<rparr>)"
| Queue: "main_at c = MQueue \<Longrightarrow>
    test_message_queue (main_thread env) (queue_block env) (queue_extent env) now now' (world_of c) = Done (b, w) \<Longrightarrow>
    main_step env c (c\<lparr>world_of := w, main_at := (if b then MClock else MExit 1)\<rparr>)"
| Clock: "main_at c = MClock \<Longrightarrow> 1 \<le> nsec \<Longrightarrow> nsec \<le> 1000000000 \<Longrightarrow> 0 \<le> u \<Longrightarrow> u \<le> v \<Longrightarrow> v \<le> 2 ^ 42 \<Longrightarrow>
    test_clock_and_ticks (main_thread env) nsec (Some (Some u)) (Some (Some v)) (world_of c) = Done (b, w) \<Longrightarrow>
    main_step env c (c\<lparr>world_of := w, main_at := (if b then MExit 0 else MExit 1)\<rparr>)"

text \<open>The exception task, which \<^verbatim>\<open>v2lin_init\<close> has started, goes through the watchdogs and sleeps.\<close>

inductive excp_step :: "smoke_env \<Rightarrow> smoke \<Rightarrow> smoke \<Rightarrow> bool" for env where
  Tick: "main_at c \<noteq> MInit \<Longrightarrow> exception_task call (excp_thread env) (world_of c) = Some w \<Longrightarrow>
    excp_step env c (c\<lparr>world_of := w\<rparr>)"
| Slept: "main_at c \<noteq> MInit \<Longrightarrow>
    excp_step env c (c\<lparr>world_of := taskDelay_end (my_task (excp_thread env) (world_of c)) (world_of c)\<rparr>)"

inductive smoke_step :: "bool \<Rightarrow> smoke_env \<Rightarrow> smoke \<Rightarrow> smoke \<Rightarrow> bool" for spurious env where
  Main: "main_step env c c' \<Longrightarrow> smoke_step spurious env c c'"
| Worker: "worker_step spurious env c c' \<Longrightarrow> smoke_step spurious env c c'"
| Excp: "excp_step env c c' \<Longrightarrow> smoke_step spurious env c c'"

definition smoke_start :: "smoke_env \<Rightarrow> (sched_policy \<Rightarrow> int) \<Rightarrow> (sched_policy \<Rightarrow> int) \<Rightarrow> smoke" where
  "smoke_start env lo hi = \<lparr>world_of = (boot_world lo hi)\<lparr>threads := {main_thread env}\<rparr>, main_at = MInit,
     worker_at = WNone, worker_semaphore = NULL, worker_completed = 0, notified = False\<rparr>"

text \<open>All allocations succeed, the threads are different, the worker can be created, and the lower 32
  bits of the addresses of the two control blocks are different task identifiers.\<close>

definition env_ok :: "smoke_env \<Rightarrow> bool" where
  "env_ok env \<longleftrightarrow> main_thread env \<noteq> 0 \<and> worker_thread env \<noteq> 0 \<and> excp_thread env \<noteq> 0
     \<and> distinct [main_thread env, worker_thread env, excp_thread env]
     \<and> root_tcb env \<noteq> NULL \<and> excp_tcb env \<noteq> NULL \<and> root_tcb env \<noteq> excp_tcb env
     \<and> s32 (int (root_tcb env)) \<noteq> 0 \<and> s32 (int (excp_tcb env)) \<noteq> 0
     \<and> s32 (int (root_tcb env)) \<noteq> s32 (int (excp_tcb env))
     \<and> semaphore_block env \<noteq> NULL \<and> queue_block env \<noteq> NULL \<and> create_status env = 0
     \<and> map_option (int o length) (queue_extent env)
         = Some (alloc_size (zero_queue\<lparr>msgs_per_queue := 1, msg_len := 32\<rparr>))"


section \<open>The test of the message queue\<close>

lemma smoke_message_simps:
  "length smoke_message = 21" "c_string (smoke_message @ zs) = c_string smoke_message"
  by (simp_all add: smoke_message_def c_string_def)

lemma send_msg_to_type: "send_msg_to msg n q = Done q' \<Longrightarrow> q_send_type q' = Q_SEND"
  by (auto simp: send_msg_to_def obind_Done_iff Let_def)

lemma test_message_queue_passes:
  assumes "my_task me w = t" and "t \<noteq> NULL" and "locker w = 0" and "mqueue_list w = []" and "blk \<noteq> NULL"
    and "data = Some mem" and "int (length mem) = alloc_size (zero_queue\<lparr>msgs_per_queue := 1, msg_len := 32\<rparr>)"
  shows "\<exists>w'. test_message_queue me blk data now now' w = Done (True, w')"
proof -
  let ?q0 = "fresh_queue 1 32 MSG_Q_FIFO"
  let ?m = smoke_message
  define w1 where "w1 = link_qcb blk (w\<lparr>queues := (queues w)(blk \<mapsto> ?q0)\<rparr>)"
  have create: "msgQCreate me 1 32 MSG_Q_FIFO blk data w = Done (blk, w1)"
    unfolding w1_def assms(6) using assms(5,7)
    by (intro msgQCreate_succeeds) (simp_all add: HDR_def u32_def)
  have q0: "ring_wf ?q0" "ring_msgs ?q0 = []" "msgs_per_queue ?q0 = 1" "msg_len ?q0 = 32"
    using fresh_queue_wf [of 1 32 MSG_Q_FIFO] by (simp_all add: HDR_def)
  have w1: "qcb w1 blk = ?q0" "mqueue_list w1 = [blk]" "blk \<in> dom (queues w1)" "locker w1 = 0" "my_task me w1 = t"
    using assms(1,3,4) by (simp_all add: w1_def qcb_def link_qcb_def) (simp add: my_task_def tcb_def)
  have accept: "accepts (qcb w1 blk) MSG_PRI_NORMAL"
    using q0(3) by (simp add: accepts_def w1(1) fresh_queue_demo)
  obtain q p where send: "msgQSend me blk (Some ?m) (int (length ?m)) NO_WAIT MSG_PRI_NORMAL now w1
       = Done (Sent OK, upd_queue blk (\<lambda>_. q) w1)"
    and q: "ring_wf q" "ring_msgs q = [?m]"
    and p: "(if p then urgent_msg_to else send_msg_to) (Some ?m) (int (length ?m)) ?q0 = Done q"
    using msgQSend_accepts [of blk w1 ?m MSG_PRI_NORMAL me NO_WAIT now] w1 q0 accept
    by (auto simp: fresh_queue_demo smoke_message_simps vxw_codes)
  let ?w2 = "upd_queue blk (\<lambda>_. q) w1"
  have qf: "q_first_susp q = []" "q_first_write_susp q = []" "queue_lock q = 0" "qfull_lock q = 0" "msg_len q = 32"
    using p q0 ring_op_fields(1,2) [of "Some ?m" "int (length ?m)" ?q0 q]
    by (cases p; simp add: fresh_queue_demo)+
  have nk: "\<not> q_killed q"
    using p send_msg_to_type [of "Some ?m" "int (length ?m)" ?q0 q]
    by (cases p) (auto simp: q_killed_def urgent_msg_to_def obind_Done_iff Let_def vxw_codes)
  have w2: "qcb ?w2 blk = q" "blk \<in> dom (queues ?w2)" "my_task me ?w2 = t" using w1 by (simp_all del: domIff)
  obtain w3 where recv: "msgQReceive me blk True 32 NO_WAIT now' ?w2 = Done (Received (s32 (int (length ?m))) ?m, w3)"
    and w3: "q_first_susp (qcb w3 blk) = []" "q_first_write_susp (qcb w3 blk) = []" "queue_lock (qcb w3 blk) = 0"
      "mqueue_list w3 = [blk]" "locker w3 = 0" "blk \<in> dom (queues w3)"
    using msgQReceive_fetches_frame [of blk ?w2 32 me t ?m "[]" NO_WAIT now'] w2 qf nk q w1 assms(2) by auto
  obtain w4 where "msgQDelete me blk w3 = Done (Deleted OK, w4)"
    using alone_deleted [of blk w3 me] w3 by (auto simp del: domIff)
  then show ?thesis
    using create send recv assms(5) smoke_message_simps
    by (simp add: test_message_queue_def s32_def)
qed

section \<open>The test of the clock\<close>

lemma tickGet_from_0:
  assumes "0 \<le> u" and "u \<le> v" and "v \<le> 2 ^ 42"
  shows "\<exists>g g'. tickGet (Some (Some u)) 0 = Done g \<and> tickGet (Some (Some v)) 0 = Done g' \<and> g \<le> g'"
proof -
  define get where "get x = to_int (fl (fl (of_int 0) + uptime_ticks (Some x)))" for x
  have "tickGet (Some (Some x)) 0 = Done (get x)" if "0 \<le> x" "x \<le> 2 ^ 42" for x
  proof -
    have z: "fl (of_int 0) = 0" using fl_of_int [of 0] by simp
    have "of_int 0 \<le> fl (uptime_ticks (Some x))" "fl (uptime_ticks (Some x)) \<le> of_int (2 ^ 50)"
      using uptime_ticks_bounds [OF that] by (intro fl_between [of 0 _ "2 ^ 50"]; simp)+
    then have "0 \<le> get x \<and> get x \<le> 2 ^ 50" 
      unfolding get_def z using to_int_between [of 0 _ "2 ^ 50"] by simp
    then show ?thesis by (simp add: tickGet_def u64_def get_def [symmetric, simplified])
  qed
  moreover have "get u \<le> get v"
    unfolding get_def using uptime_ticks_mono [OF assms(2)] by (intro to_int_mono fl_mono add_left_mono)
  ultimately show ?thesis using assms by (intro exI [of _ "get u"] exI [of _ "get v"]) simp
qed

lemma test_clock_passes:
  assumes "1 \<le> nsec" and "nsec \<le> 1000000000" and "0 \<le> u" and "u \<le> v" and "v \<le> 2 ^ 42"
  shows "\<exists>w'. test_clock_and_ticks me nsec (Some (Some u)) (Some (Some v)) w = Done (True, w')"
proof -
  obtain g g' where "tickGet (Some (Some u)) 0 = Done g" "tickGet (Some (Some v)) 0 = Done g'" "g \<le> g'"
    using tickGet_from_0 [OF assms(3-5)] by blast
  moreover have "0 < sysClkRateGet nsec"
    using assms(1,2) by (simp add: sysClkRateGet_is_resolution pos_imp_zdiv_pos_iff)
  ultimately show ?thesis by (simp add: test_clock_and_ticks_def Let_def)
qed


section \<open>The invariant of the test\<close>

text \<open>The parts of the world the test depends on: the scheduler is unlocked, the main thread runs
  the root task, the worker has no task, there are no watchdogs and queues. The semaphore is the
  only one; \<open>n\<close> are its tokens.\<close>

definition world_ok :: "smoke_env \<Rightarrow> world \<Rightarrow> bool" where
  "world_ok env w \<longleftrightarrow> locker w = 0 \<and> taskLock_level w = 0 \<and> my_task (main_thread env) w = root_tcb env
     \<and> plain_thread (worker_thread env) w \<and> wdog_list w = [] \<and> mqueue_list w = []"

definition smoke_sem :: "int \<Rightarrow> v2lsem_t" where
  "smoke_sem n = (new_sem n)\<lparr>sem_flags := BINARY_SEMA4\<rparr>"

definition sem_ok :: "smoke_env \<Rightarrow> int \<Rightarrow> smoke \<Rightarrow> bool" where
  "sem_ok env n c \<longleftrightarrow> worker_semaphore c = semaphore_block env \<and> sem_list (world_of c) = [semaphore_block env]
     \<and> sems (world_of c) (semaphore_block env) = Some (smoke_sem n)"

definition worker_waits :: "smoke_env \<Rightarrow> smoke \<Rightarrow> bool" where
  "worker_waits env c \<longleftrightarrow> (worker_at c = WStart
     \<or> worker_at c = WCond (plain_frame (semaphore_block env)))
     \<and> worker_completed c = 0"

definition worker_done :: "smoke \<Rightarrow> bool" where
  "worker_done c \<longleftrightarrow> worker_at c = WDone \<and> worker_completed c = 1"

fun smoke_inv :: "smoke_env \<Rightarrow> main_pc \<Rightarrow> smoke \<Rightarrow> bool" where
  "smoke_inv env MInit c \<longleftrightarrow> task_list (world_of c) = [] \<and> locker (world_of c) = 0 \<and> taskLock_level (world_of c) = 0
     \<and> wdog_list (world_of c) = [] \<and> mqueue_list (world_of c) = [] \<and> sem_list (world_of c) = []
     \<and> main_thread env \<in> threads (world_of c) \<and> excp_thread env \<notin> threads (world_of c)
     \<and> worker_at c = WNone \<and> worker_completed c = 0"
| "smoke_inv env MCreate c \<longleftrightarrow> world_ok env (world_of c) \<and> sem_list (world_of c) = []
     \<and> worker_at c = WNone \<and> worker_completed c = 0"
| "smoke_inv env MGive c \<longleftrightarrow> world_ok env (world_of c) \<and> sem_ok env 0 c \<and> worker_waits env c"
| "smoke_inv env (MJoin g) c \<longleftrightarrow> world_ok env (world_of c) \<and> g = OK
     \<and> (sem_ok env 1 c \<and> worker_waits env c \<or> sem_ok env 0 c \<and> worker_done c)"
| "smoke_inv env (MDelete g j) c \<longleftrightarrow> world_ok env (world_of c) \<and> g = OK \<and> j = 0 \<and> sem_ok env 0 c \<and> worker_done c"
| "smoke_inv env (MDeleting g j) c \<longleftrightarrow> False"
| "smoke_inv env MQueue c \<longleftrightarrow> world_ok env (world_of c) \<and> worker_at c = WDone"
| "smoke_inv env MClock c \<longleftrightarrow> worker_at c = WDone"
| "smoke_inv env (MExit n) c \<longleftrightarrow> n = 0 \<and> worker_at c = WDone"

lemma smoke_sem_simps [simp]:
  "\<not> is_mutex (smoke_sem n)" "\<not> killed_or_flushed (smoke_sem n)" "sem_first_susp (smoke_sem n) = []"
  "token_count (smoke_sem n) = n" "sem_lock (smoke_sem n) = 0" "recursion_level (smoke_sem n) = 0"
  "sem_flags (smoke_sem n) AND SEM_INVERSION_SAFE = 0" "sem_flags (smoke_sem n) AND SEM_DELETE_SAFE = 0"
  "current_owner (smoke_sem n) = NULL"
  "smoke_sem n\<lparr>token_count := m\<rparr> = smoke_sem m" "smoke_sem n\<lparr>current_owner := NULL\<rparr> = smoke_sem n"
  "smoke_sem n\<lparr>token_count := m, current_owner := NULL\<rparr> = smoke_sem m"
  by (simp_all add: smoke_sem_def new_sem_def zero_sem_def is_mutex_def killed_or_flushed_def vxw_codes)

lemma sem_ok_smcb: "sem_ok env n c \<Longrightarrow> smcb (world_of c) (semaphore_block env) = smoke_sem n"
  by (simp add: sem_ok_def smcb_def)

lemma worker_field_sem_ok [simp]:
  "sem_ok env n (c\<lparr>worker_at := x\<rparr>) = sem_ok env n c" "sem_ok env n (c\<lparr>main_at := y\<rparr>) = sem_ok env n c"
  "sem_ok env n (c\<lparr>notified := b\<rparr>) = sem_ok env n c" "sem_ok env n (c\<lparr>worker_completed := k\<rparr>) = sem_ok env n c"
  by (simp_all add: sem_ok_def)

lemma sem_ok_upd:
  assumes "sem_ok env n c" and "\<And>x. x = smoke_sem n \<Longrightarrow> f x = smoke_sem m"
  shows "sem_ok env m (c\<lparr>world_of := upd_sem (semaphore_block env) f (world_of c)\<rparr>)"
  using assms by (simp add: sem_ok_def upd_sem_def)

lemma world_ok_upd_sem [simp]: "world_ok env (upd_sem s f w) = world_ok env w"
  by (simp add: world_ok_def)

text \<open>The exception task only changes its own control block.\<close>

lemma world_ok_delay:
  "world_ok env (taskDelay_begin me w) = world_ok env w" "world_ok env (taskDelay_end t w) = world_ok env w"
  by (simp_all add: world_ok_def plain_thread_def taskDelay_begin_def taskDelay_end_def Let_def)

lemma excp_changes_nothing:
  assumes "excp_step env c c'" and "wdog_list (world_of c) = []"
  shows "\<exists>w. c' = c\<lparr>world_of := w\<rparr> \<and> (world_ok env w \<longleftrightarrow> world_ok env (world_of c))
     \<and> sem_list w = sem_list (world_of c) \<and> sems w = sems (world_of c)"
  using assms
proof cases
  case (Tick call w)
  have "w = taskDelay_begin (excp_thread env) (world_of c)"
    using Tick(3) assms(2) by (auto simp: exception_task_def process_timer_list_def timer_loop.simps)
  with Tick(1) show ?thesis
    by (intro exI [of _ w]) (simp add: world_ok_delay, simp add: taskDelay_begin_def Let_def)
next
  case Slept
  then show ?thesis
    by (intro exI [of _ "taskDelay_end (my_task (excp_thread env) (world_of c)) (world_of c)"])
      (simp add: world_ok_delay, simp add: taskDelay_end_def)
qed


section \<open>Every step keeps the invariant\<close>

lemma world_ok_after_init:
  assumes "env_ok env" and "smoke_inv env MInit c"
    and "v2lin_init (main_thread env) (root_tcb env) nb (excp_tcb env) entry nb' 0 (excp_thread env) (world_of c) = Done (r, w)"
  shows "r = OK \<and> world_ok env w \<and> sem_list w = []"
proof -
  note e = assms(1) [unfolded env_ok_def] and i = assms(2) [simplified]
  obtain w' where w': "v2lin_init (main_thread env) (root_tcb env) nb (excp_tcb env) entry nb' 0 (excp_thread env) (world_of c) = Done (0, w')"
    "task_list w' = [root_tcb env, excp_tcb env]" "pthrid (tcb w' (root_tcb env)) = main_thread env"
    "pthrid (tcb w' (excp_tcb env)) = excp_thread env" "locker w' = 0" "taskLock_level w' = 0"
    using v2lin_init_result [of "world_of c" "main_thread env" "root_tcb env" "excp_tcb env" nb entry nb' "excp_thread env"] e i
    by auto
  have "kernel_op (world_of c) w'"
    using e i by (intro kernel_op.Init [OF _ _ _ _ _ _ _ w'(1)]) simp_all
  then have "sem_list w' = [] \<and> mqueue_list w' = [] \<and> wdog_list w' = []"
    using registries.kernel [of "world_of c" w' "[]" "[]" "[]"] i by simp
  moreover have "my_task (main_thread env) w' = root_tcb env" "my_task (worker_thread env) w' = NULL"
    using w'(2-4) e by (simp_all add: my_task_def)
  moreover have "w = w'" "r = 0" using assms(3) w'(1) by simp_all
  ultimately show ?thesis using w'(5,6) e by (simp add: world_ok_def plain_thread_def OK_def)
qed

lemma main_keeps:
  assumes "env_ok env" and "smoke_inv env (main_at c) c" and "main_step env c c'"
  shows "smoke_inv env (main_at c') c'"
  using assms(3,1,2)
proof cases
  case (Init r w)
  then show ?thesis using world_ok_after_init [OF assms(1) _ Init(3)] assms(2) by simp
next
  case (Create s w)
  have w: "s = semaphore_block env" "sem_list w = [s]" "sems w s = Some (smoke_sem 0)" "world_ok env w"
    using Create(3) assms(1,2) Create(2)
    by (auto simp: semBCreate_def unsupported_def link_smcb_def env_ok_def smoke_sem_def world_ok_def plain_thread_def vxw_codes)
  moreover have "my_task th (w\<lparr>threads := ts\<rparr>) = my_task th w" for th ts by (auto intro!: my_task_cong simp: tcb_def)
  ultimately show ?thesis
    using Create(1,2) assms(1,2) by (auto simp: env_ok_def sem_ok_def worker_waits_def world_ok_def plain_thread_def)
next
  case (Give g w)
  let ?s = "semaphore_block env"
  have s: "sem_ok env 0 c" "worker_semaphore c = ?s" "?s \<in> set (sem_list (world_of c))"
    using assms(2) Give(2) by (auto simp: sem_ok_def)
  have "semGive (main_thread env) ?s (world_of c)
      = Done (Ret OK, upd_sem ?s (\<lambda>x. x\<lparr>token_count := s32 (token_count x + 1)\<rparr>) (world_of c))"
    using s(3) sem_ok_smcb [OF s(1)] by (simp add: semGive_def sem_find_lock_def Let_def ret_status_def finish_def)
  then have "g = OK" "w = upd_sem ?s (\<lambda>x. x\<lparr>token_count := s32 (token_count x + 1)\<rparr>) (world_of c)"
    using Give(4) s(2) by simp_all
  moreover have "sem_ok env 1 (c\<lparr>world_of := upd_sem ?s (\<lambda>x. x\<lparr>token_count := s32 (token_count x + 1)\<rparr>) (world_of c)\<rparr>)"
    by (rule sem_ok_upd [OF s(1)]) (simp add: s32_def)
  ultimately show ?thesis using Give(1,2) assms(2) by (auto simp: worker_waits_def)
next
  case (Delete g j d w)
  let ?s = "semaphore_block env"
  have i: "world_ok env (world_of c)" "sem_ok env 0 c" "worker_done c" "g = OK" "j = 0" using assms(2) Delete(2) by simp_all
  note v = sem_ok_smcb [OF i(2)]
  obtain w1 where w1: "taskLock (main_thread env) (world_of c) = Done w1"
    using taskLock_Done_iff [of "main_thread env" "world_of c"] i(1) by (auto simp: world_ok_def)
  note F = taskLock_frame [OF w1]
  have "smcb w1 = smcb (world_of c)" by (rule smcb_cong) (simp add: F)
  then have "d = Ret OK" and w: "w = taskUnlock (main_thread env) (free_sem ?s w1)"
    using Delete(3) w1 i(2) v by (auto simp: semDelete_def sem_find_lock_def sem_ok_def ret_status_def finish_def)
  moreover have "world_ok env w"
  proof -
    have "my_task th (free_sem ?s w1) = my_task th (world_of c)" for th
      using F(17) by (simp add: free_sem_def unlink_smcb_def)
    moreover have "locker w = 0" "taskLock_level w = 0"
      using lock_balanced [OF w1, of "free_sem ?s w1"] i(1) assms(1)
      by (simp_all add: w world_ok_def lock_wf_def env_ok_def free_sem_def unlink_smcb_def)
    ultimately show ?thesis
      using i(1) F by (simp add: w world_ok_def plain_thread_def free_sem_def unlink_smcb_def)
  qed
  ultimately show ?thesis using Delete(1) i assms(1) by (simp add: worker_done_def env_ok_def)
next
  case (Queue now now' b w)
  have i: "world_ok env (world_of c)" "worker_at c = WDone" using assms(2) Queue(2) by simp_all
  obtain mem where "queue_extent env = Some mem"
    "int (length mem) = alloc_size (zero_queue\<lparr>msgs_per_queue := 1, msg_len := 32\<rparr>)"
    using assms(1) by (auto simp: env_ok_def)
  then have "b" using test_message_queue_passes [of "main_thread env" "world_of c" "root_tcb env" "queue_block env"
      "queue_extent env" mem now now'] i(1) assms(1) Queue(3) by (auto simp: world_ok_def env_ok_def)
  then show ?thesis using Queue(1) i(2) by simp
next
  case (Clock nsec u v b w)
  then have "b" using test_clock_passes [of nsec u v "main_thread env" "world_of c"] by auto
  then show ?thesis using Clock(1,2) assms(2) by simp
qed (use assms(1,2) in \<open>auto simp: env_ok_def worker_waits_def worker_done_def\<close>)

lemma worker_waits_cases:
  assumes "worker_waits env c"
  obtains "worker_at c = WStart" "worker_completed c = 0"
    | "worker_at c = WCond (plain_frame (semaphore_block env))" "worker_completed c = 0"
  using assms by (auto simp: worker_waits_def)

text \<open>The worker takes the token if there is one, and sleeps otherwise.\<close>

lemma worker_polls:
  assumes "worker_waits env c" and "sem_ok env n c" and "world_ok env (world_of c)" and "worker_step sp env c c'"
  shows "(if 0 < n then sem_ok env (n - 1) c' \<and> worker_done c' else sem_ok env n c' \<and> worker_waits env c')
     \<and> world_ok env (world_of c') \<and> main_at c' = main_at c"
proof -
  let ?s = "semaphore_block env" and ?th = "worker_thread env" and ?w = "world_of c"
  let ?w' = "upd_sem ?s (\<lambda>x. x\<lparr>token_count := token_count x - 1, current_owner := NULL\<rparr>) ?w"
  let ?rw = "if 0 < n then (Returned OK, ?w') else (AtCond (plain_frame ?s), ?w)"
  have pl: "plain_thread ?th ?w" using assms(3) by (simp add: world_ok_def)
  note v = sem_ok_smcb [OF assms(2)]
  have s: "?s \<in> set (sem_list ?w)" "?s \<in> dom (sems ?w)" "worker_semaphore c = ?s"
    using assms(2) by (auto simp: sem_ok_def)
  have taken: "sem_ok env (n - 1) (c\<lparr>world_of := ?w'\<rparr>)"
    by (rule sem_ok_upd [OF assms(2)]) simp
  have take: "semTake ?th ?s WAIT_FOREVER now ?w = Done ?rw" for now
    using semTake_plain [OF pl s(1) v s(2)] by simp
  have wake: "semTake_wake ?th 0 (plain_frame ?s) ?w = Done ?rw"
    using semTake_wake_plain [OF pl v s(2)] by simp
  have "c' = worker_returns ?rw c"
    using assms(4)
  proof cases
    case (Take now rw)
    then show ?thesis using take [of now] s(3) by simp
  next
    case (Wake fr rw)
    then have "fr = plain_frame ?s" using assms(1) by (simp add: worker_waits_def)
    then show ?thesis using Wake(1,4) wake by simp
  next
    case (TickOver fr now rw)
    then show ?thesis using assms(1) by (simp add: worker_waits_def)
  qed
  then show ?thesis
    using taken assms(1-3)
    by (auto simp: worker_returns_def worker_done_def worker_waits_def OK_def)
qed

lemma smoke_step_keeps:
  assumes "env_ok env" and "smoke_inv env (main_at c) c" and "smoke_step sp env c c'"
  shows "smoke_inv env (main_at c') c'"
  using assms(3)
proof cases
  case Main
  then show ?thesis by (rule main_keeps [OF assms(1,2)])
next
  case Worker
  have "worker_at c \<noteq> WNone \<and> worker_at c \<noteq> WDone" using Worker by (auto elim: worker_step.cases)
  then have "(main_at c = MGive \<and> sem_ok env 0 c \<or> main_at c = MJoin OK \<and> sem_ok env 1 c) \<and> worker_waits env c
      \<and> world_ok env (world_of c)"
    using assms(2) by (cases "main_at c") (auto simp: worker_done_def)
  then show ?thesis using worker_polls [OF _ _ _ Worker] by fastforce
next
  case Excp
  show ?thesis
  proof (cases "main_at c = MInit \<or> main_at c = MClock \<or> (\<exists>n. main_at c = MExit n)")
    case True
    then show ?thesis using Excp assms(2) by (auto elim!: excp_step.cases)
  next
    case False
    then have "wdog_list (world_of c) = []" using assms(2) by (cases "main_at c") (auto simp: world_ok_def)
    then obtain w where w: "c' = c\<lparr>world_of := w\<rparr>" "world_ok env w \<longleftrightarrow> world_ok env (world_of c)"
      "sem_list w = sem_list (world_of c)" "sems w = sems (world_of c)"
      using excp_changes_nothing [OF Excp] by blast
    then have "sem_ok env n c' \<longleftrightarrow> sem_ok env n c" "worker_waits env c' \<longleftrightarrow> worker_waits env c"
      "worker_done c' \<longleftrightarrow> worker_done c" for n
      by (simp_all add: sem_ok_def worker_waits_def worker_done_def)
    then show ?thesis using False w assms(2) by (cases "main_at c") simp_all
  qed
qed


section \<open>The test passes\<close>

inductive smoke_reach :: "bool \<Rightarrow> smoke_env \<Rightarrow> smoke \<Rightarrow> bool" for spurious env where
  Start: "smoke_reach spurious env (smoke_start env lo hi)"
| Step: "smoke_reach spurious env c \<Longrightarrow> smoke_step spurious env c c' \<Longrightarrow> smoke_reach spurious env c'"

lemma smoke_reach_inv:
  assumes "smoke_reach sp env c" and "env_ok env"
  shows "smoke_inv env (main_at c) c"
  using assms
proof (induction rule: smoke_reach.induct)
  case (Start lo hi)
  then show ?case by (simp add: smoke_start_def boot_world_def env_ok_def)
next
  case (Step c c')
  then show ?case by (blast intro: smoke_step_keeps)
qed

text \<open>With wake-ups that nobody sent, the worker can always go on, and so can the main thread once
  the worker has returned.\<close>

lemma worker_goes_on:
  assumes "worker_waits env c" and "sem_ok env n c" and "world_ok env (world_of c)" and "worker_at c = WStart \<or> sp \<or> notified c"
  shows "\<exists>c'. worker_step sp env c c'"
proof -
  have pl: "plain_thread (worker_thread env) (world_of c)" using assms(3) by (simp add: world_ok_def)
  have s: "semaphore_block env \<in> set (sem_list (world_of c))" "semaphore_block env \<in> dom (sems (world_of c))"
    "worker_semaphore c = semaphore_block env" using assms(2) by (auto simp: sem_ok_def)
  note v = sem_ok_smcb [OF assms(2)]
  from assms(1) show ?thesis
  proof (cases rule: worker_waits_cases)
    case 1
    obtain rw where "semTake (worker_thread env) (semaphore_block env) WAIT_FOREVER (0, 0) (world_of c) = Done rw"
      using semTake_plain [OF pl s(1) v s(2), of "(0, 0)"] by fastforce
    then show ?thesis using worker_step.Take [OF 1(1)] s(3) by metis
  next
    case 2
    obtain rw where "semTake_wake (worker_thread env) 0 (plain_frame (semaphore_block env)) (world_of c) = Done rw"
      using semTake_wake_plain [OF pl v s(2), of 0] by fastforce
    moreover have "sp \<or> notified c" using assms(4) 2(1) by simp
    ultimately show ?thesis using worker_step.Wake [OF 2(1)] by metis
  qed
qed

lemma main_goes_on:
  assumes "env_ok env" and "smoke_inv env (main_at c) c" and "\<forall>n. main_at c \<noteq> MExit n"
    and "(\<exists>g. main_at c = MJoin g) \<Longrightarrow> worker_done c"
  shows "\<exists>c'. main_step env c c'"
proof (cases "main_at c")
  case MInit
  then obtain w where "v2lin_init (main_thread env) (root_tcb env) (root_name env) (excp_tcb env) (excp_entry env)
      (excp_name env) 0 (excp_thread env) (world_of c) = Done (0, w)"
    using v2lin_init_result [of "world_of c" "main_thread env" "root_tcb env" "excp_tcb env" "root_name env" "excp_entry env"
        "excp_name env" "excp_thread env"] assms(1,2) by (auto simp: env_ok_def)
  then show ?thesis using main_step.Init [OF MInit] by blast
next
  case MCreate
  then show ?thesis using main_step.Create [OF MCreate surjective_pairing] by blast
next
  case MGive
  then have s: "sem_ok env 0 c" using assms(2) by simp
  then have "\<exists>w. semGive (main_thread env) (worker_semaphore c) (world_of c) = Done (Ret OK, w)"
    using sem_ok_smcb [OF s]
    by (auto simp: sem_ok_def semGive_def sem_find_lock_def Let_def ret_status_def finish_def)
  then show ?thesis using main_step.Give [OF MGive] assms(1) by (auto simp: env_ok_def)
next
  case (MJoin g)
  then show ?thesis using main_step.Join [OF MJoin] assms(1,4) by (auto simp: env_ok_def worker_done_def)
next
  case (MDelete g j)
  then have s: "sem_ok env 0 c" "locker (world_of c) = 0" using assms(2) by (simp_all add: world_ok_def)
  obtain w1 where w1: "taskLock (main_thread env) (world_of c) = Done w1"
    using taskLock_Done_iff [of "main_thread env" "world_of c"] s(2) by auto
  have "smcb w1 = smcb (world_of c)" by (rule smcb_cong) (simp add: taskLock_frame [OF w1])
  then have "\<exists>w. semDelete (main_thread env) (worker_semaphore c) (world_of c) = Done (Ret OK, w)"
    using s(1) w1 sem_ok_smcb [OF s(1)]
    by (auto simp: sem_ok_def semDelete_def sem_find_lock_def ret_status_def finish_def)
  then show ?thesis using main_step.Delete [OF MDelete] by blast
next
  case MQueue
  obtain mem where "queue_extent env = Some mem"
    "int (length mem) = alloc_size (zero_queue\<lparr>msgs_per_queue := 1, msg_len := 32\<rparr>)"
    using assms(1) by (auto simp: env_ok_def)
  then show ?thesis using main_step.Queue [OF MQueue] test_message_queue_passes [of "main_thread env" "world_of c" "root_tcb env"
      "queue_block env" "queue_extent env" mem "(0, 0)" "(0, 0)"] MQueue assms(1,2)
    by (fastforce simp: world_ok_def env_ok_def)
next
  case MClock
  obtain w where "test_clock_and_ticks (main_thread env) 1 (Some (Some 0)) (Some (Some 0)) (world_of c) = Done (True, w)"
    using test_clock_passes [of 1 0 0 "main_thread env" "world_of c"] by auto
  then show ?thesis using main_step.Clock [OF MClock, of 1 0 0 env True w] by auto
qed (use assms(2,3) in auto)

text \<open>The steps to go: the main thread goes through its calls in order, and the worker takes the
  token while the main thread joins it.\<close>

fun calls_left :: "main_pc \<Rightarrow> nat" where
  "calls_left MInit = 7" | "calls_left MCreate = 6" | "calls_left MGive = 5" | "calls_left (MJoin g) = 4"
| "calls_left (MDelete g j) = 3" | "calls_left (MDeleting g j) = 3" | "calls_left MQueue = 2" | "calls_left MClock = 1"
| "calls_left (MExit n) = 0"

definition steps_left :: "smoke \<Rightarrow> nat" where
  "steps_left c = 2 * calls_left (main_at c) + (if worker_done c then 0 else 1)"

lemma main_step_calls:
  "main_step env c c' \<Longrightarrow> smoke_inv env (main_at c') c' \<Longrightarrow> calls_left (main_at c') < calls_left (main_at c)"
  by (erule main_step.cases) (auto split: call.splits if_splits)

lemma smoke_progress:
  assumes "env_ok env" and "smoke_inv env (main_at c) c" and "\<forall>n. main_at c \<noteq> MExit n"
  shows "\<exists>c'. smoke_step True env c c' \<and> steps_left c' < steps_left c"
proof (cases "(\<exists>g. main_at c = MJoin g) \<and> \<not> worker_done c")
  case True
  then have i: "worker_waits env c" "sem_ok env 1 c" "world_ok env (world_of c)" using assms(2) by auto
  then obtain c' where c': "worker_step True env c c'" using worker_goes_on [OF i] by blast
  then show ?thesis
    using worker_polls [OF i c'] True by (intro exI [of _ c']) (simp add: steps_left_def smoke_step.Worker)
next
  case False
  then obtain c' where c': "main_step env c c'" using main_goes_on [OF assms] by blast
  then have "smoke_step True env c c'" by (rule smoke_step.Main)
  with main_step_calls [OF c'] smoke_step_keeps [OF assms(1,2)] show ?thesis
    by (intro exI [of _ c']) (fastforce simp: steps_left_def)
qed

lemma smoke_finishes:
  assumes "env_ok env" and "smoke_inv env (main_at c) c"
  shows "\<exists>c'. (smoke_step True env)\<^sup>*\<^sup>* c c' \<and> main_at c' = MExit 0"
  using assms(2)
proof (induction "steps_left c" arbitrary: c rule: less_induct)
  case less
  show ?case
  proof (cases "\<forall>n. main_at c \<noteq> MExit n")
    case True
    then obtain c1 where c1: "smoke_step True env c c1" "steps_left c1 < steps_left c"
      using smoke_progress [OF assms(1) less.prems] by blast
    with less.hyps [OF c1(2) smoke_step_keeps [OF assms(1) less.prems c1(1)]] show ?thesis
      by (meson converse_rtranclp_into_rtranclp)
  next
    case False
    then show ?thesis using less.prems by auto
  qed
qed

text \<open>C8. The smoke test passes. In every interleaving of the main thread, the worker and the exception
  task in which the allocations succeed, the test ends with the exit code 0 if it ends, and it can
  still end from every state that is reached (if a condition wait may end without a signal, as POSIX
  allows). The calls of \<^verbatim>\<open>v2lin_init\<close>, the semaphore functions, the message queue functions with the
  bytes of the message, \<^verbatim>\<open>taskDelay\<close>, \<^verbatim>\<open>tickGet\<close> and \<^verbatim>\<open>sysClkRateGet\<close> are those of the other
  theories.\<close>

theorem static_smoke_passes:
  assumes "env_ok env" and "smoke_reach spurious env c"
  shows "(\<forall>n. main_at c = MExit n \<longrightarrow> n = 0)
     \<and> (\<exists>c'. (smoke_step True env)\<^sup>*\<^sup>* c c' \<and> main_at c' = MExit 0)"
proof -
  have inv: "smoke_inv env (main_at c) c" using assms(2,1) by (rule smoke_reach_inv)
  then show ?thesis using smoke_finishes [OF assms(1)] by auto
qed

text \<open>An environment in which everything succeeds.\<close>

definition demo_env :: smoke_env where
  "demo_env = \<lparr>main_thread = 7, worker_thread = 9, excp_thread = 8, root_tcb = 100, root_name = 300,
     excp_tcb = 200, excp_name = 301, excp_entry = 40, semaphore_block = 500, queue_block = 600,
     queue_extent = Some (replicate (nat (alloc_size (zero_queue\<lparr>msgs_per_queue := 1, msg_len := 32\<rparr>))) 255),
     create_status = 0\<rparr>"

lemma demo_env_ok: "env_ok demo_env"
  by (simp add: demo_env_def env_ok_def s32_def) (simp add: alloc_size_def zero_queue_def)

theorem static_smoke_passes_witness:
  "\<exists>c. (smoke_step True demo_env)\<^sup>*\<^sup>* (smoke_start demo_env linux_lo linux_hi) c \<and> main_at c = MExit 0"
  using static_smoke_passes [OF demo_env_ok smoke_reach.Start [of True]] by blast


section \<open>The test hangs\<close>

text \<open>The main thread joins the worker, and the worker sleeps at the condition variable that nobody
  has signalled.\<close>

definition hung :: "smoke_env \<Rightarrow> smoke \<Rightarrow> bool" where
  "hung env c \<longleftrightarrow> smoke_inv env (main_at c) c \<and> main_at c = MJoin OK \<and> (\<exists>fr. worker_at c = WCond fr) \<and> \<not> notified c"

lemma hung_stays:
  assumes "env_ok env" and "hung env c" and "smoke_step False env c c'"
  shows "hung env c'"
proof -
  have "\<not> main_step env c x" for x
    using assms(1,2) by (auto simp: hung_def env_ok_def elim: main_step.cases)
  moreover have "\<not> worker_step False env c x" for x
    using assms(2) by (auto simp: hung_def elim: worker_step.cases)
  ultimately have "excp_step env c c'" using assms(3) by (auto elim: smoke_step.cases)
  then have "\<exists>w. c' = c\<lparr>world_of := w\<rparr>" by cases auto
  then show ?thesis
    using smoke_step_keeps [OF assms(1) _ assms(3)] assms(2) by (auto simp: hung_def)
qed

lemma main_step_init: "main_step env c c' \<Longrightarrow> main_at c = MInit \<Longrightarrow> main_at c' = MCreate \<or> main_at c' = MExit 1"
  by (erule main_step.cases) simp_all

lemma main_step_create:
  "main_step env c c' \<Longrightarrow> main_at c = MCreate \<Longrightarrow>
     main_at c' = MExit 1 \<or> main_at c' = MGive \<and> (create_status env = 0 \<longrightarrow> worker_at c' = WStart)"
  by (erule main_step.cases) simp_all

lemma main_step_give:
  "main_step env c c' \<Longrightarrow> main_at c = MGive \<Longrightarrow> (\<exists>g. main_at c' = MJoin g) \<and> worker_at c' = worker_at c
     \<and> (notified c' \<longrightarrow> notified c \<or> give_broadcasts (worker_semaphore c') (world_of c'))"
  by (erule main_step.cases) simp_all

lemma worker_step_start:
  "worker_step sp env c c' \<Longrightarrow> worker_at c = WStart \<Longrightarrow>
     worker_at c' = WDone \<or> (\<exists>fr. worker_at c' = WCond fr \<and> \<not> notified c') \<or> (\<exists>fr. worker_at c' = WDelay fr)"
proof (erule worker_step.cases)
  fix ca rw
  show "worker_at c' = WDone \<or> (\<exists>fr. worker_at c' = WCond fr \<and> \<not> notified c') \<or> (\<exists>fr. worker_at c' = WDelay fr)"
    if "c' = worker_returns rw ca"
    using that by (cases "fst rw") (simp_all add: worker_returns_def)
qed simp_all

lemma hung_reachable:
  assumes env: "env_ok env"
  shows "\<exists>c. smoke_reach False env c \<and> hung env c"
proof -
  note inv = smoke_reach_inv [OF _ env]
  define c0 where "c0 = smoke_start env linux_lo linux_hi"
  have r0: "smoke_reach False env c0" and m0: "main_at c0 = MInit"
    unfolding c0_def by (rule smoke_reach.Start) (simp add: smoke_start_def)
  obtain c1 where s1: "main_step env c0 c1" using main_goes_on [OF env inv [OF r0]] m0 by auto
  have r1: "smoke_reach False env c1" using smoke_reach.Step [OF r0 smoke_step.Main [OF s1]] .
  have m1: "main_at c1 = MCreate"
    using main_step_init [OF s1 m0] inv [OF r1] by auto
  obtain c2 where s2: "main_step env c1 c2" using main_goes_on [OF env inv [OF r1]] m1 by auto
  have r2: "smoke_reach False env c2" using smoke_reach.Step [OF r1 smoke_step.Main [OF s2]] .
  have m2: "main_at c2 = MGive" "worker_at c2 = WStart"
    using main_step_create [OF s2 m1] inv [OF r2] env by (auto simp: env_ok_def)
  have i2: "worker_waits env c2" "sem_ok env 0 c2" "world_ok env (world_of c2)" using inv [OF r2] m2(1) by simp_all
  obtain c3 where s3: "worker_step False env c2 c3" using worker_goes_on [OF i2] m2(2) by blast
  have r3: "smoke_reach False env c3" using smoke_reach.Step [OF r2 smoke_step.Worker [OF s3]] .
  have i3: "worker_waits env c3" "main_at c3 = MGive" using worker_polls [OF i2 s3] m2(1) by simp_all
  have w3: "\<exists>fr. worker_at c3 = WCond fr" "\<not> notified c3"
    using worker_step_start [OF s3 m2(2)] i3(1) by (auto simp: worker_waits_def)
  obtain c4 where s4: "main_step env c3 c4" using main_goes_on [OF env inv [OF r3]] i3(2) by auto
  have r4: "smoke_reach False env c4" using smoke_reach.Step [OF r3 smoke_step.Main [OF s4]] .
  have i4: "\<exists>g. main_at c4 = MJoin g" "worker_at c4 = worker_at c3"
    "notified c4 \<longrightarrow> notified c3 \<or> give_broadcasts (worker_semaphore c4) (world_of c4)"
    using main_step_give [OF s4 i3(2)] by blast+
  then have m4: "main_at c4 = MJoin OK" using inv [OF r4] by auto
  have "sem_ok env n c4 \<Longrightarrow> \<not> give_broadcasts (worker_semaphore c4) (world_of c4)" for n
    using sem_ok_smcb [of env n c4] by (simp add: give_broadcasts_def sem_ok_def)
  then have "\<not> notified c4" using i4(3) w3(2) inv [OF r4] m4 by auto
  then have "hung env c4" using inv [OF r4] m4 w3(1) i4(2) by (simp add: hung_def)
  with r4 show ?thesis by blast
qed

text \<open>C19. The smoke test can hang. If the worker calls \<^verbatim>\<open>semTake\<close> before the main thread calls
  \<^verbatim>\<open>semGive\<close>, nobody signals the condition variable, because the worker has no task and is not in the
  list of the semaphore: unless a condition wait ends without a signal, the main thread stays in
  \<^verbatim>\<open>pthread_join\<close> for ever.\<close>

theorem static_smoke_hangs:
  assumes "env_ok env"
  shows "\<exists>c. smoke_reach False env c \<and> (\<forall>c'. (smoke_step False env)\<^sup>*\<^sup>* c c' \<longrightarrow> main_at c' = MJoin OK)"
proof -
  obtain c where c: "smoke_reach False env c" "hung env c" using hung_reachable [OF assms] by blast
  have "hung env c'" if "(smoke_step False env)\<^sup>*\<^sup>* c c'" for c'
    using that by (induction rule: rtranclp_induct) (blast intro: c(2) hung_stays [OF assms])+
  with c(1) show ?thesis by (auto simp: hung_def)
qed

theorem static_smoke_hangs_witness:
  "\<exists>c. smoke_reach False demo_env c \<and> (\<forall>c'. (smoke_step False demo_env)\<^sup>*\<^sup>* c c' \<longrightarrow> main_at c' = MJoin OK)"
  by (rule static_smoke_hangs) (rule demo_env_ok)

end
