(* ===== verification/Debug_Lib.thy ===== *)
theory Debug_Lib
  imports Time_Lib
begin

text \<open>
  \<^verbatim>\<open>lib/v2ldebug.c\<close> and \<^verbatim>\<open>lib/v2ldebug.h\<close>: the macros of the trace as they are with
  \<^verbatim>\<open>DEBUG\<close> defined (\<^verbatim>\<open>TRACEF\<close>, \<^verbatim>\<open>TRACEV\<close>, \<^verbatim>\<open>CHK\<close>, \<^verbatim>\<open>CHK0\<close>), and the handler of the
  signal \<^verbatim>\<open>SIGSEGV\<close>, which was to start a debugger. \<^verbatim>\<open>trace_time\<close> is in theory \<open>Time_Lib\<close>. The
  definitions of the other theories leave the calls of the macros out: they change nothing but the
  variables of this theory.
\<close>


section \<open>Tracing\<close>

text \<open>The variables of the trace. A place in the program is its file, line and function; the
  environment of a call is the thread, its task with the name, and the time.\<close>

record trace_vars =
  trace_flag :: int
  trace_tid :: int
  trace_fn :: string
  trace_tv :: trace_state

record place =
  src_file :: string
  src_line :: int
  src_func :: string

record trace_env =
  gettid :: int
  tr_task :: addr
  tr_name :: "string option"
  tr_tm :: "int list"
  tr_now :: timeval

text \<open>\<open>var\<close> is the name of the variable, \<open>fmt\<close> the format for its value.\<close>

definition TRACEV :: "trace_env \<Rightarrow> string \<Rightarrow> string \<Rightarrow> parg \<Rightarrow> trace_vars \<Rightarrow> printed \<times> trace_vars" where
  "TRACEV env var fmt v st =
     (if trace_flag st = 0 then ([], st)
      else
        ((if trace_tid st \<noteq> gettid env then [(''thread=%i'' @ newline, [PInt (gettid env)])] else [])
           @ [(var @ ''='' @ fmt @ newline, [v])],
         st\<lparr>trace_tid := gettid env\<rparr>))"

text \<open>The name of the function is copied to the 100 bytes of \<^verbatim>\<open>trace_fn\<close>.\<close>

definition TRACEF ::
  "trace_env \<Rightarrow> place \<Rightarrow> string \<Rightarrow> parg list \<Rightarrow> trace_vars \<Rightarrow> (printed \<times> trace_vars) outcome" where
  "TRACEF env p fmt args st =
     (if trace_flag st = 0 then Done ([], st)
      else
        let thread = (if trace_tid st \<noteq> gettid env
              then [(newline @ ''thread=%i task=%p %s'' @ newline,
                     [PInt (gettid env), PPtr (tr_task env), PStr (tr_name env)])]
              else []);
            (time, tv) = trace_time (tr_tm env) (tr_now env) (trace_tv st);
            loc = [(''%s:%i'', [PStr (Some (src_file p)), PInt (src_line p)])];
            rest = [('' '' @ fmt, args), (newline, [])];
            st' = st\<lparr>trace_tid := gettid env, trace_tv := tv\<rparr>
        in if trace_fn st = src_func p then Done (thread @ time @ loc @ rest, st')
           else if length (src_func p) \<ge> 100 then Crashed
           else Done (thread @ time @ loc @ [('' %s()'', [PStr (Some (src_func p))])] @ rest,
                      st'\<lparr>trace_fn := src_func p\<rparr>))"

text \<open>\<open>name\<close> gives the name of an error code, \<open>e\<close> is \<open>errno\<close>. A command that failed is traced; nothing
  else happens (\<^verbatim>\<open>ON_ERR\<close> is empty).\<close>

definition TRACE_errno :: "(int \<Rightarrow> string) \<Rightarrow> int \<Rightarrow> printed" where
  "TRACE_errno name e =
     [([CHR 0x09] @ ''errno=%i(%x) %s '' @ newline, [PInt e, PInt e, PStr (Some (name e))])]"

definition CHK ::
  "(int \<Rightarrow> string) \<Rightarrow> trace_env \<Rightarrow> place \<Rightarrow> string \<Rightarrow> int \<Rightarrow> int \<Rightarrow> trace_vars \<Rightarrow> (printed \<times> trace_vars) outcome" where
  "CHK name env p command ret e st =
     (if ret = 0
      then obind (TRACEF env p (''ERROR: %s '' @ newline @ [CHR 0x09] @ ''returned 0'') [PStr (Some command)] st)
             (\<lambda>(out, st'). Done (out @ TRACE_errno name e, st'))
      else Done ([], st))"

definition CHK0 ::
  "(int \<Rightarrow> string) \<Rightarrow> trace_env \<Rightarrow> place \<Rightarrow> string \<Rightarrow> int \<Rightarrow> int \<Rightarrow> trace_vars \<Rightarrow> (printed \<times> trace_vars) outcome" where
  "CHK0 name env p command status e st =
     (if status \<noteq> 0
      then obind (TRACEF env p (''ERROR: %s '' @ newline @ [CHR 0x09] @ ''returned status: #%i (%x):\"%s\"'')
                    [PStr (Some command), PInt status, PInt status, PStr (Some (name status))] st)
             (\<lambda>(out, st'). Done (out @ TRACE_errno name e, st'))
      else Done ([], st))"

text \<open>The function is named when it changes, and the thread when it changes.\<close>

lemma TRACEF_again:
  assumes "trace_flag st \<noteq> 0" and "length (src_func p) < 100" and "TRACEF env p fmt args st = Done (out, st')"
  shows "trace_tid st' = gettid env \<and> trace_fn st' = src_func p
     \<and> (\<forall>env' p' fmt' args' out' st''. gettid env' = gettid env \<and> src_func p' = src_func p
          \<and> TRACEF env' p' fmt' args' st' = Done (out', st'') \<longrightarrow>
          out' = fst (trace_time (tr_tm env') (tr_now env') (trace_tv st'))
            @ [(''%s:%i'', [PStr (Some (src_file p')), PInt (src_line p')]), ('' '' @ fmt', args'), (newline, [])])"
proof -
  have st': "trace_tid st' = gettid env" "trace_fn st' = src_func p" "trace_flag st' = trace_flag st"
    using assms by (auto simp: TRACEF_def Let_def split: if_split_asm prod.split_asm)
  then show ?thesis using assms(1) by (auto simp: TRACEF_def Let_def split: prod.split)
qed


section \<open>The signal handler\<close>

text \<open>\<^verbatim>\<open>gdb\<close> with the value of its static variable \<^verbatim>\<open>gdb_pid\<close> and the result \<open>f\<close> of \<^verbatim>\<open>fork\<close>: the
  process ends, returns from the handler, or waits for the child first.\<close>

datatype gdb_action = GExit int | GReturn | GWait int

definition gdb :: "int \<Rightarrow> int \<Rightarrow> int \<times> gdb_action" where
  "gdb gdb_pid f =
     (if gdb_pid \<noteq> 0 then (gdb_pid, GExit 1)
      else (f, if f = 0 then GReturn else GWait f))"

text \<open>A process about to execute an instruction that faults, one that waits for its child in the
  handler, and one that has ended; with its \<^verbatim>\<open>gdb_pid\<close>. After the handler has returned the
  instruction is executed again. The child of \<^verbatim>\<open>fork\<close> is a copy of its parent and handles the same
  signal.\<close>

datatype proc_at = PFault | PWait int | PExit int

type_synonym processes = "int \<rightharpoonup> int \<times> proc_at"

fun after_gdb :: "int \<times> gdb_action \<Rightarrow> int \<times> proc_at" where
  "after_gdb (g, GExit n) = (g, PExit n)"
| "after_gdb (g, GReturn) = (g, PFault)"
| "after_gdb (g, GWait c) = (g, PWait c)"

inductive sighandler :: "bool \<Rightarrow> processes \<Rightarrow> processes \<Rightarrow> bool" for may_fail where
  Fork: "P p = Some (0, PFault) \<Longrightarrow> 0 < c \<Longrightarrow> c \<notin> dom P \<Longrightarrow>
    sighandler may_fail P (P(p \<mapsto> after_gdb (gdb 0 c), c \<mapsto> after_gdb (gdb 0 0)))"
| ForkFails: "may_fail \<Longrightarrow> P p = Some (0, PFault) \<Longrightarrow> sighandler may_fail P (P(p \<mapsto> after_gdb (gdb 0 (- 1))))"
| Again: "P p = Some (g, PFault) \<Longrightarrow> g \<noteq> 0 \<Longrightarrow> sighandler may_fail P (P(p \<mapsto> after_gdb (gdb g f)))"
| Waited: "P p = Some (g, PWait c) \<Longrightarrow> (c \<in> dom P \<longrightarrow> (\<exists>g' n. P c = Some (g', PExit n))) \<Longrightarrow>
    sighandler may_fail P (P(p \<mapsto> (g, PFault)))"

text \<open>The processes of \<open>xs\<close> wait, the first for \<open>a\<close> and each other one for the one before it.\<close>

fun waiters :: "int list \<Rightarrow> int \<Rightarrow> processes \<Rightarrow> bool" where
  "waiters [] a P \<longleftrightarrow> True"
| "waiters (b # xs) a P \<longleftrightarrow> P b = Some (a, PWait a) \<and> waiters xs b P"

lemma waiters_upd [simp]: "c \<notin> set xs \<Longrightarrow> waiters xs a (P(c := v)) = waiters xs a P"
  by (induction xs arbitrary: a) auto

lemma waiters_mem:
  "waiters xs a P \<Longrightarrow> x \<in> set xs \<Longrightarrow>
     (\<exists>c \<in> set xs. P x = Some (c, PWait c)) \<or> (\<exists>ys. xs = x # ys \<and> P x = Some (a, PWait a))"
proof (induction xs arbitrary: a)
  case (Cons b xs)
  then show ?case by (cases "x = b") auto
qed simp

text \<open>The processes \<open>xs\<close> wait, each for the one before it and the first for \<open>a\<close>; the processes \<open>ys\<close>
  have ended.\<close>

definition line :: "int list \<Rightarrow> int \<Rightarrow> int list \<Rightarrow> processes \<Rightarrow> bool" where
  "line xs a ys P \<longleftrightarrow> distinct (xs @ a # ys) \<and> dom P = set (xs @ a # ys) \<and> (\<forall>x \<in> dom P. 0 < x)
     \<and> waiters xs a P \<and> (\<forall>y \<in> set ys. \<exists>g. P y = Some (g, PExit 1))"

text \<open>All forks have succeeded; and a fork has failed and \<open>k\<close> steps are left.\<close>

definition chain :: "nat \<Rightarrow> processes \<Rightarrow> bool" where
  "chain n P \<longleftrightarrow> (\<exists>xs a. line xs a [] P \<and> length xs = n \<and> P a = Some (0, PFault))"

definition dying :: "nat \<Rightarrow> processes \<Rightarrow> bool" where
  "dying k P \<longleftrightarrow> (\<exists>xs a ys. line xs a ys P \<and>
     (k = 2 * length xs \<and> (\<exists>g. P a = Some (g, PExit 1))
      \<or> k = 2 * length xs + 1 \<and> (\<exists>g. g \<noteq> 0 \<and> P a = Some (g, PFault))
      \<or> k = 2 * length xs + 2 \<and> P a = Some (- 1, PWait (- 1))))"

lemma line_member:
  assumes "line xs a ys P" and "P q = Some (g, st)" and "q \<noteq> a"
  shows "(\<exists>m. st = PExit m) \<or> (\<exists>c \<in> set xs. st = PWait c) \<or> (\<exists>zs. xs = q # zs \<and> st = PWait a \<and> g = a)"
proof -
  have "q \<in> set xs \<or> q \<in> set ys" using assms by (auto simp: line_def)
  then show ?thesis
  proof
    assume "q \<in> set xs"
    then show ?thesis using waiters_mem [of xs a P q] assms by (auto simp: line_def)
  next
    assume "q \<in> set ys"
    then obtain g' where "P q = Some (g', PExit 1)" using assms(1) unfolding line_def by blast
    then show ?thesis using assms(2) by simp
  qed
qed

lemma line_waiting: "line xs a ys P \<Longrightarrow> c \<in> set xs \<Longrightarrow> c \<in> dom P \<and> P c \<noteq> Some (g, PExit m)"
  using waiters_mem [of xs a P c] by (auto simp: line_def)

text \<open>Only the process at the end of the line can move, or the one that waits for it.\<close>

lemma line_steps:
  assumes "line xs a ys P" and "sighandler may_fail P P'"
  obtains (Fork) c where "P a = Some (0, PFault)" "0 < c" "c \<notin> dom P" "P' = P(a \<mapsto> (c, PWait c), c \<mapsto> (0, PFault))"
    | (Fails) "may_fail" "P a = Some (0, PFault)" "P' = P(a \<mapsto> (- 1, PWait (- 1)))"
    | (Again) g where "P a = Some (g, PFault)" "g \<noteq> 0" "P' = P(a \<mapsto> (g, PExit 1))"
    | (Own) g c where "P a = Some (g, PWait c)" "c \<notin> dom P \<or> (\<exists>g m. P c = Some (g, PExit m))" "P' = P(a \<mapsto> (g, PFault))"
    | (Next) b zs where "xs = b # zs" "\<exists>g m. P a = Some (g, PExit m)" "P' = P(b \<mapsto> (a, PFault))"
  using assms(2)
proof cases
  case (Fork q c)
  then have "q = a" using line_member [OF assms(1), of q] by auto
  with Fork that(1) show ?thesis by (simp add: gdb_def)
next
  case (ForkFails q)
  then have "q = a" using line_member [OF assms(1), of q] by auto
  with ForkFails that(2) show ?thesis by (simp add: gdb_def)
next
  case (Again q g f)
  then have "q = a" using line_member [OF assms(1), of q] by auto
  with Again that(3) show ?thesis by (simp add: gdb_def)
next
  case (Waited q g c)
  show ?thesis
  proof (cases "q = a")
    case True
    with Waited that(4) show ?thesis by blast
  next
    case False
    then consider "c \<in> set xs" | zs where "xs = q # zs" "c = a" "g = a"
      using line_member [OF assms(1) Waited(2)] by blast
    then show ?thesis
    proof cases
      case 1
      then show ?thesis using line_waiting [OF assms(1) 1] Waited(3) by blast
    next
      case 2
      moreover have "a \<in> dom P" using assms(1) by (simp add: line_def)
      ultimately show ?thesis using that(5) [of q zs] Waited by blast
    qed
  qed
qed

lemma chain_start: "0 < p \<Longrightarrow> chain 0 [p \<mapsto> (0, PFault)]"
  unfolding chain_def line_def by (intro exI [of _ "[]"] exI [of _ p]) simp

lemma chain_card: "chain n P \<Longrightarrow> card (dom P) = n + 1"
  by (auto simp: chain_def line_def distinct_card)

lemma chain_step:
  assumes "chain n P" and "sighandler may_fail P P'"
  shows "chain (Suc n) P' \<or> may_fail \<and> dying (2 * n + 2) P'"
proof -
  obtain xs a where l: "line xs a [] P" "length xs = n" "P a = Some (0, PFault)" using assms(1) by (auto simp: chain_def)
  show ?thesis
  proof (cases rule: line_steps [OF l(1) assms(2)])
    case (1 c)
    then have "line (a # xs) c [] P'" using l(1,3) by (auto simp: line_def split: if_splits)
    moreover have "P' c = Some (0, PFault)" using 1 by simp
    ultimately show ?thesis using l(2) unfolding chain_def by (intro disjI1 exI [of _ "a # xs"] exI [of _ c]) simp
  next
    case 2
    then have "line xs a [] P'" using l(1,3) by (auto simp: line_def split: if_splits)
    then show ?thesis using 2 l(2) unfolding dying_def by auto
  qed (use l(3) in auto)
qed

lemma dying_step:
  assumes "dying k P" and "sighandler may_fail P P'"
  shows "\<exists>j. k = Suc j \<and> dying j P'"
proof -
  obtain xs a ys where l: "line xs a ys P" and
    c: "k = 2 * length xs \<and> (\<exists>g. P a = Some (g, PExit 1)) \<or> k = 2 * length xs + 1 \<and> (\<exists>g. g \<noteq> 0 \<and> P a = Some (g, PFault))
      \<or> k = 2 * length xs + 2 \<and> P a = Some (- 1, PWait (- 1))"
    using assms(1) by (auto simp: dying_def)
  show ?thesis
  proof (cases rule: line_steps [OF l assms(2)])
    case (3 g)
    then have "line xs a ys P'" using l by (auto simp: line_def split: if_splits)
    then show ?thesis using 3 c unfolding dying_def by (intro exI [of _ "2 * length xs"]) auto
  next
    case (4 g c)
    then have "line xs a ys P'" using l by (auto simp: line_def split: if_splits)
    then show ?thesis using 4 c unfolding dying_def by (intro exI [of _ "2 * length xs + 1"]) auto
  next
    case (5 b zs)
    then have "line zs b (a # ys) P'" "a \<noteq> 0" using l c by (auto simp: line_def split: if_splits)
    then show ?thesis using 5 c unfolding dying_def by (intro exI [of _ "2 * length zs + 1"]) auto
  qed (use c in auto)
qed

lemma dying_moves:
  assumes "dying (Suc k) P"
  shows "\<exists>P'. sighandler may_fail P P'"
proof -
  obtain xs a ys where l: "line xs a ys P" and
    "Suc k = 2 * length xs \<and> (\<exists>g. P a = Some (g, PExit 1)) \<or> (\<exists>g. g \<noteq> 0 \<and> P a = Some (g, PFault))
      \<or> P a = Some (- 1, PWait (- 1))"
    using assms by (auto simp: dying_def)
  then consider g where "Suc k = 2 * length xs" "P a = Some (g, PExit 1)" | g where "P a = Some (g, PFault)" "g \<noteq> 0"
    | "P a = Some (- 1, PWait (- 1))" by blast
  then show ?thesis
  proof cases
    case 1
    then obtain b zs where "xs = b # zs" by (cases xs) simp_all
    then have "P b = Some (a, PWait a)" using l by (simp add: line_def)
    then show ?thesis using sighandler.Waited [of P b a a] 1(2) by blast
  next
    case 2
    then show ?thesis using sighandler.Again [of P a] by blast
  next
    case 3
    have "\<forall>x \<in> dom P. 0 < x" using l by (simp add: line_def)
    moreover have "\<not> 0 < (- 1 :: int)" by simp
    ultimately have "- 1 \<notin> dom P" by blast
    then show ?thesis using sighandler.Waited [of P a "- 1" "- 1"] 3 by blast
  qed
qed

lemma dying_end:
  assumes "dying 0 P" and "q \<in> dom P"
  shows "\<exists>g. P q = Some (g, PExit 1)"
proof -
  obtain a ys where l: "line [] a ys P" "\<exists>g. P a = Some (g, PExit 1)" using assms(1) by (auto simp: dying_def)
  then have "q = a \<or> q \<in> set ys" using assms(2) by (simp add: line_def del: domIff)
  with l show ?thesis by (auto simp: line_def)
qed

text \<open>C33. The handler of a memory fault ends no process as long as \<^verbatim>\<open>fork\<close> succeeds, and all of them
  when it fails. The call that was to start the debugger in the child is commented out: the child
  returns to the faulting instruction and forks in turn, and every parent waits for its child. After
  \<open>n\<close> forks there are \<open>n + 1\<close> processes, none has ended, and the next fork can follow. When it fails
  instead, every run that follows comes to its end after exactly \<open>2 * n + 2\<close> steps, and then all
  processes have ended with the status 1.\<close>

theorem fault_forks_until_fork_fails:
  assumes "0 < p" and "(sighandler False ^^ n) [p \<mapsto> (0, PFault)] P"
  shows "card (dom P) = n + 1 \<and> (\<forall>q g m. P q \<noteq> Some (g, PExit m)) \<and> (\<exists>P'. sighandler False P P')
     \<and> (\<forall>P'. sighandler True P P' \<and> \<not> sighandler False P P' \<longrightarrow>
          (\<forall>m Q. (sighandler True ^^ m) P' Q \<longrightarrow> m \<le> 2 * n + 2
             \<and> (if m = 2 * n + 2 then \<forall>q \<in> dom Q. \<exists>g. Q q = Some (g, PExit 1) else \<exists>R. sighandler True Q R)))"
proof -
  have "chain n P" using assms(2)
  proof (induction n arbitrary: P)
    case (Suc n)
    then obtain Q where "chain n Q" "sighandler False Q P" by auto
    from chain_step [OF this] show ?case by simp
  qed (use chain_start [OF assms(1)] in simp)
  then obtain xs a where l: "line xs a [] P" "P a = Some (0, PFault)" by (auto simp: chain_def)
  have alive: "P q \<noteq> Some (g, PExit m)" for q g m
  proof
    assume q: "P q = Some (g, PExit m)"
    then have "q \<in> dom P" by auto
    then have "q = a \<or> q \<in> set xs" using l(1) by (simp add: line_def del: domIff)
    then show False using q l(2) line_waiting [OF l(1), of q g m] by auto
  qed
  have "\<exists>k. 0 < k \<and> k \<notin> dom P"
    using infinite_Ioi [of "0 :: int"] l(1) by (metis line_def List.finite_set finite_subset greaterThan_iff subsetI)
  then obtain k where "0 < k" "k \<notin> dom P" by blast
  with l(2) have more: "\<exists>P'. sighandler False P P'" by (blast intro: sighandler.Fork [where c = k])
  have "m \<le> 2 * n + 2 \<and> (if m = 2 * n + 2 then \<forall>q \<in> dom Q. \<exists>g. Q q = Some (g, PExit 1) else \<exists>R. sighandler True Q R)"
    if fails: "sighandler True P P'" "\<not> sighandler False P P'" and run: "(sighandler True ^^ m) P' Q" for P' m Q
  proof -
    have D: "dying (2 * n + 2) P'"
    proof (cases rule: line_steps [OF l(1) fails(1)])
      case (1 c)
      then have "sighandler False P P'" using sighandler.Fork [of P a c False] by (simp add: gdb_def)
      with fails(2) show ?thesis by simp
    next
      case 2
      then have "\<not> chain (Suc n) P'" using l(1) chain_card [of "Suc n" P'] chain_card [OF \<open>chain n P\<close>] by (auto simp: insert_absorb domIff)
      with chain_step [OF \<open>chain n P\<close> fails(1)] show ?thesis by simp
    qed (use l(2) in auto)
    have "\<exists>j. 2 * n + 2 = m + j \<and> dying j Q" using run
    proof (induction m arbitrary: Q)
      case 0
      then show ?case using D by simp
    next
      case (Suc m)
      then obtain R where R: "(sighandler True ^^ m) P' R" "sighandler True R Q" by auto
      then obtain j where "2 * n + 2 = m + j" "dying j R" using Suc.IH by blast
      with dying_step [OF _ R(2)] show ?case by fastforce
    qed
    then obtain j where j: "2 * n + 2 = m + j" "dying j Q" by blast
    then show ?thesis using dying_end [of Q] dying_moves [of _ Q True] by (cases j) auto
  qed
  with chain_card [OF \<open>chain n P\<close>] alive more show ?thesis by blast
qed

theorem fault_forks_until_fork_fails_witness:
  "\<exists>P P'. (sighandler False ^^ 1) [1 \<mapsto> (0, PFault)] P \<and> P 1 = Some (2, PWait 2) \<and> card (dom P) = 2
     \<and> (\<exists>P''. sighandler False P P'')
     \<and> sighandler True P P' \<and> (\<forall>m Q. (sighandler True ^^ m) P' Q \<longrightarrow> m \<le> 4)"
proof -
  let ?P = "[1 :: int \<mapsto> (0, PFault)](1 \<mapsto> (2, PWait 2), 2 \<mapsto> (0, PFault))"
  let ?P' = "?P(2 \<mapsto> (- 1, PWait (- 1)))"
  have "sighandler False [1 \<mapsto> (0, PFault)] ?P"
    using sighandler.Fork [of "[1 \<mapsto> (0, PFault)]" 1 2 False] by (simp add: gdb_def)
  then have P: "(sighandler False ^^ 1) [1 \<mapsto> (0, PFault)] ?P" by (simp add: eq_OO)
  note T = fault_forks_until_fork_fails [OF _ P]
  have fails: "sighandler True ?P ?P'" using sighandler.ForkFails [of True ?P 2] by (simp add: gdb_def)
  have "\<not> sighandler False ?P ?P'"
  proof
    assume "sighandler False ?P ?P'"
    then have "card (dom ?P') = 3"
      using fault_forks_until_fork_fails [of 1 2 ?P'] P by (auto simp: eq_OO numeral_2_eq_2)
    moreover have "dom ?P' = {1, 2}" by auto
    ultimately show False by simp
  qed
  with T fails have "\<forall>m Q. (sighandler True ^^ m) ?P' Q \<longrightarrow> m \<le> 4" by auto
  with T P fails show ?thesis by (intro exI [of _ ?P] exI [of _ ?P']) simp
qed

end
