(* ===== verification/Spec2Isabelle.thy ===== *)
theory Spec2Isabelle
  imports Deletion Smoke_Test Debug_Lib
begin

text \<open>
  \<^bold>\<open>v2lin: the VxWorks tasking API on POSIX threads.\<close>

  The library under \<^verbatim>\<open>src/lib\<close> lets programs written for VxWorks run on Linux: tasks are
  POSIX threads with a control block, the scheduler lock of VxWorks is a lock that boosts
  its holder to the maximum priority, and semaphores, message queues and watchdog timers
  are built from mutexes and condition variables. This development models the library and
  proves what its parts guarantee, and, where the code does not do what its comments say,
  what it does instead.

  \<^bold>\<open>Theories and sources.\<close>

  \<^item> \<open>V2_Prelude\<close>: 32-bit integers (\<open>s32\<close>, \<open>u32\<close>), the constants of \<^verbatim>\<open>vxw_defs.h\<close> and
    \<^verbatim>\<open>v2lpthread.h\<close>, the outcome of a call and lemmas on lists.
  \<^item> \<open>Linked_List\<close>: the loops over intrusive lists that all files share (\<^verbatim>\<open>T **i\<close> walks such
    as \<^verbatim>\<open>link_smcb\<close> and \<^verbatim>\<open>unlink_smcb\<close>), on pointer cells. They end on a well-formed list and
    compute the list operations that the component models use; those keep the lists as HOL
    lists.
  \<^item> \<open>V2_State\<close>: the control blocks \<^verbatim>\<open>task_t\<close>, \<^verbatim>\<open>v2lsem_t\<close>, \<^verbatim>\<open>v2pt_mqueue_t\<close> and
    \<^verbatim>\<open>v2pt_wdog_t\<close> as records, and \<open>world\<close>: the static variables of all files, the heaps of
    control blocks, \<open>errno\<close> of each thread, and the threads with the scheduling last
    requested for them.
  \<^item> \<open>Interfaces\<close>: the contracts between components as locales: \<open>pend_list\<close> (the lists of
    waiting tasks), \<open>registry\<close> (the global lists that make a handle valid) and
    \<open>msg_buffer\<close> (a bounded buffer that refines a list of messages). Each is interpreted on
    the definitions of the code: the lists of semaphores, queues and watchdogs are
    registries, the waiter lists are pend lists, the ring of bytes is a message buffer.
  \<^item> \<open>Task_Core\<close> (\<^verbatim>\<open>ltaskLib.c\<close>): \<^verbatim>\<open>my_task\<close>, \<^verbatim>\<open>task_for\<close>, \<^verbatim>\<open>new_tid\<close>, \<^verbatim>\<open>taskLock\<close>,
    \<^verbatim>\<open>taskUnlock\<close>, \<^verbatim>\<open>link_susp_task\<close>, \<^verbatim>\<open>unlink_susp_task\<close>, \<^verbatim>\<open>signal_for_my_task\<close>,
    \<^verbatim>\<open>translate_priority\<close>.
  \<^item> \<open>Task_Lib\<close> (\<^verbatim>\<open>ltaskLib.c\<close>): the task API, creation, deletion, deletion safety,
    priorities, delays, queries.
  \<^item> \<open>Sem_Lib\<close> (\<^verbatim>\<open>lsemLib.c\<close>): binary, counting and mutex semaphores.
  \<^item> \<open>Msg_Ring\<close> (\<^verbatim>\<open>lmsgQLib.c\<close>, \<^verbatim>\<open>urgent_msg_to\<close>, \<^verbatim>\<open>send_msg_to\<close>, \<^verbatim>\<open>fetch_msg_from\<close>,
    \<^verbatim>\<open>data_extent_for\<close>): the circular buffer of a queue, byte by byte.
  \<^item> \<open>MsgQ_Lib\<close> (\<^verbatim>\<open>lmsgQLib.c\<close>, the rest): message queues.
  \<^item> \<open>Wd_Lib\<close> (\<^verbatim>\<open>lwdLib.c\<close> and \<^verbatim>\<open>taskRestart\<close> of \<^verbatim>\<open>ltaskLib.c\<close>): watchdogs and the restart
    of tasks.
  \<^item> \<open>Kernel_Lib\<close> (\<^verbatim>\<open>lkernelLib.c\<close>, \<^verbatim>\<open>main_impl.c\<close>, \<^verbatim>\<open>VxWorksError\<close>): round-robin
    scheduling, the exception task, the start of the system.
  \<^item> \<open>Show_Lib\<close>: the functions of these files that print (\<^verbatim>\<open>taskShow\<close>, \<^verbatim>\<open>taskList\<close>,
    \<^verbatim>\<open>display_task\<close>, \<^verbatim>\<open>semShow\<close>, \<^verbatim>\<open>semList\<close>, \<^verbatim>\<open>msgQShow\<close>, \<^verbatim>\<open>msgQList\<close>,
    \<^verbatim>\<open>wdogShow\<close>). The output is the list of the calls of \<^verbatim>\<open>fprintf\<close>.
  \<^item> \<open>Time_Lib\<close> (\<^verbatim>\<open>v2ltime.c\<close>, \<^verbatim>\<open>trace_time\<close> of \<^verbatim>\<open>v2ldebug.c\<close>): the tick counter and
    the time in the trace. A \<^verbatim>\<open>double\<close> is a rational, and \<open>fl\<close> rounds the result of every
    operation to 53 significant bits.
  \<^item> \<open>Stable\<close>: what a component may rely on when the others run. Each locale names the parts of
    the state that a component changes; inside it, every operation of that component keeps a
    predicate that does not depend on these parts.
  \<^item> \<open>System\<close>: all operations as one transition system (\<open>sys_step\<close>, \<open>sys_reach\<close>), the
    invariant and the types of the components' states, and the interpretations of the locales
    of \<open>Stable\<close> for them. The record \<open>usage\<close> says which of three conditions that the code does
    not test a program keeps (limits of the queues, only tasks take and give, no task restarts
    itself); a condition that is not kept excludes no step.
  \<^item> \<open>Deletion\<close>: the state a deleted task leaves behind in the semaphores and queues, and the
    deletion of a queue that others use.
  \<^item> \<open>Plain_Threads\<close>: the semaphore functions called by a thread that has no task, for which
    \<^verbatim>\<open>my_task\<close> is \<open>NULL\<close>.
  \<^item> \<open>Debug_Lib\<close> (\<^verbatim>\<open>v2ldebug.h\<close>, \<^verbatim>\<open>v2ldebug.c\<close>): the macros of the trace, as they are with
    \<^verbatim>\<open>DEBUG\<close>, and the handler of memory faults. The definitions of the other theories leave the
    calls of the macros out.
  \<^item> \<open>Smoke_Test\<close> (\<^verbatim>\<open>src/cpp_tests/static_smoke.cpp\<close>): a whole program that uses the library,
    with a root task, a thread without a task, a semaphore, a queue and the clock, as a
    transition system over the definitions of the other theories.
  \<^item> \<open>Spec2Isabelle\<close>: the properties of the whole system and of parts that interact.

  \<^bold>\<open>How the parts interact.\<close> Every API function finds the calling task with \<^verbatim>\<open>my_task\<close>, and
  the list of a semaphore or queue says who waits there: \<^verbatim>\<open>semTake\<close>, \<^verbatim>\<open>msgQSend\<close> and
  \<^verbatim>\<open>msgQReceive\<close> put the caller in with \<^verbatim>\<open>link_susp_task\<close>, are chosen by
  \<^verbatim>\<open>signal_for_my_task\<close> and leave with \<^verbatim>\<open>unlink_susp_task\<close>; \<^verbatim>\<open>task_delete\<close> and
  \<^verbatim>\<open>taskRestart\<close> take a task out of the list it waits in. A mutex semaphore can protect its
  owner from deletion (\<^verbatim>\<open>taskSafe\<close>). The exception task of the kernel calls
  \<^verbatim>\<open>process_timer_list\<close> once per tick; a task that restarts itself is started again by a
  watchdog.

  \<^bold>\<open>Modelling decisions.\<close>

  \<^item> A function is one definition on the \<open>world\<close>, with the calling thread as an argument.
    Its \<open>outcome\<close> is \<open>Done\<close>, \<open>Blocked\<close> (it stands at a mutex or at the scheduler lock
    that another thread has) or \<open>Crashed\<close> (it dereferences a null pointer or accesses memory
    outside a block). A call that sleeps in the middle is cut there: the result says where it
    stands (\<open>Parked\<close>, or a frame with its local variables), and the rest is a definition of
    its own. Steps of different threads interleave: the \<^theory_text>\<open>inductive\<close> relations of
    \<open>Task_Lib\<close>, \<open>Sem_Lib\<close>, \<open>MsgQ_Lib\<close> and \<open>System\<close> have one rule per step. \<open>sem_step\<close> of
    \<open>Sem_Lib\<close> is about threads that have a task and mutexes whose nesting fits an \<^verbatim>\<open>int\<close>;
    \<open>mq_step\<close> and \<open>sys_step\<close> have such conditions as parameters.
  \<^item> A step is as large as the code allows another thread to look: it ends where the call sleeps,
    or blocks on the scheduler lock or on a mutex of the state. Some calls touch shared memory
    between two locks; there the single step hides a race. \<^verbatim>\<open>taskSpawn\<close> chooses the identifier,
    adds the task and stores the identifier without a common lock, and a call of \<^verbatim>\<open>semTake\<close> that
    leaves (\<open>take_exit\<close>) reads the semaphore after the broadcast that lets \<^verbatim>\<open>semDelete\<close> go on.
    \<open>Blocked\<close> says that a call stands, not what it has: \<^verbatim>\<open>semDelete\<close> and others that stand in
    \<^verbatim>\<open>taskLock\<close> have the mutex of their object locked meanwhile.
  \<^item> A list of waiting tasks is a list in the record of its object, where the code has one link
    \<^verbatim>\<open>nxt_susp\<close> in each control block. The link in a control block that was freed (the deletion of a
    task that waits) is taken for intact. \<^verbatim>\<open>task_delete\<close> frees the name of a static task without
    clearing the pointer; the name stays in the record.
  \<^item> A wait on a condition variable can end at any moment, as POSIX allows; broadcasts
    therefore need no state; where a theorem is about a missing signal, \<open>give_broadcasts\<close> states
    again under which condition \<^verbatim>\<open>semGive\<close> sends it. The code a wait returns is an argument.
  \<^item> A mutex that every function gives back before it returns or sleeps is not in the state,
    since a step is atomic. A mutex that a call can leave locked is a field with its owner.
    In particular a call that is blocked in \<^verbatim>\<open>sem_find_lock\<close> or \<^verbatim>\<open>mqueue_find_lock\<close> also has
    the mutex of the list, which blocks calls on other objects of the kind; this is not
    modelled.
  \<^item> What the environment decides is an argument: the blocks \<open>malloc\<close> returns, results of
    \<open>pthread_create\<close>, the time of day, the timeout functions of the application. The ranges
    of POSIX priorities are fields of the \<open>world\<close>. \<open>pthread_setschedparam\<close> is recorded as
    requested; its status is ignored by the code.
  \<^item> Signed overflow wraps around. A loop that may not end (a cyclic list, timeout functions
    that always add a watchdog) is a \<^theory_text>\<open>partial_function (option)\<close>, and \<open>None\<close> means that
    it does not end; the theorems show that it does end on well-formed lists, and for the
    walk over the watchdogs with timeout functions that leave the list alone. No fuel is
    used.

  \<^bold>\<open>What is shown.\<close>

  \<^item> The system: what holds of all components in every reachable state, without conditions and
    under each condition of a \<open>usage\<close> (\<open>system_invariant\<close>), with the integers within their C
    types (\<open>system_types\<close>); code that cannot be reached (\<open>refused_options_are_dead\<close>); and what goes wrong when a task is deleted
    that owns a mutex or waits at a queue (\<open>deleted_owner_keeps_mutex\<close>,
    \<open>deleted_receiver_blocks_queue\<close>, \<open>taskList_crashes_after_deletion\<close>).
  \<^item> A client: the smoke test ends with success if it ends, and can always still end
    (\<open>static_smoke_passes\<close>), but only if a condition wait may end without a signal
    (\<open>static_smoke_hangs\<close>). The reason is that a thread without a task is in no list when it
    waits (\<open>plain_waiter_is_invisible\<close>); and mutexes do not exclude such threads
    (\<open>plain_threads_share_mutex\<close>).
  \<^item> Tasks: \<open>task_api_invariant\<close> (every reachable state is well formed), the scheduler lock
    nests and excludes (\<open>taskLock_nests\<close>, \<open>taskLock_excludes\<close>), the pointer loops of
    the waiter lists refine the lists (\<open>susp_loops_refine\<close>), who is signalled
    (\<open>signalled_task_spec\<close>), identifiers are fresh, priorities are translated into range and
    in order (except for the most urgent ones), \<^verbatim>\<open>taskSpawn\<close> and \<^verbatim>\<open>taskDelete\<close> on success and
    failure, deletion safety, and two defects of deletion
    (\<open>taskDelete_protected_keeps_task\<close>, \<open>taskDeleteForce_waiters_deadlock\<close>).
  \<^item> Semaphores: mutual exclusion in every interleaving (\<open>mutex_exclusion\<close>), a successful
    take owns the mutex (\<open>mutex_take_owns\<close>), \<^verbatim>\<open>semGive\<close> and \<^verbatim>\<open>semTake\<close> on every branch, stale
    handles, deadlines, and four defects (a take with \<open>NO_WAIT\<close> that reports success without
    a token, a flush that keeps the mutex, a lost wake-up at deletion, binary semaphores
    that count).
  \<^item> Message queues: the ring of bytes refines a list of messages
    (\<open>ring_refines_deque\<close>), the invariant of all queues in every interleaving in which a
    sender that waited still finds room (\<open>msgQ_invariant\<close>), sending and receiving on every
    branch, stale handles, the agreement of the time arithmetic with that of the semaphores,
    and four defects of concurrent use (\<open>msgQSend_overruns_full_queue\<close>,
    \<open>waiting_sender_keeps_qfull_lock\<close>, \<open>msgQDelete_frees_under_receiver\<close>,
    \<open>msgQSend_undoes_deletion\<close>).
  \<^item> Watchdogs and kernel: the walk of a tick ends (\<open>process_timer_list_terminates\<close>), a
    started watchdog fires once, after half of the documented delay, or again and again if its
    function restarts it (\<open>watchdog_fires_at_half_delay\<close>), \<^verbatim>\<open>v2lin_init\<close>
    starts the system tasks (\<open>v2lin_init_starts\<close>), and two defects of restarting
    (\<open>second_selfRestart_is_lost\<close>, \<open>taskRestart_unknown_leaves_lock\<close>).
  \<^item> Printing and time: \<^verbatim>\<open>semList\<close> shows every semaphore once (\<open>semList_shows_all\<close>), the tick
    counter counts and never goes backwards in spite of rounding (\<open>tick_counter\<close>),
    \<^verbatim>\<open>sysClkRateGet\<close> is not its rate (\<open>sysClkRateGet_is_resolution\<close>), and when
    \<^verbatim>\<open>trace_time\<close> prints (\<open>trace_time_prints\<close>).
  \<^item> Debugging: when a trace names the function and the thread (\<open>TRACEF_again\<close>); the handler of
    a memory fault makes processes until \<^verbatim>\<open>fork\<close> fails, and then all of them end
    (\<open>fault_forks_until_fork_fails\<close>).

  \<^bold>\<open>Not modelled.\<close> The conversions of \<^verbatim>\<open>printf\<close> and the words of a control block that the
  printing functions dump (arguments of the model). The wrappers of \<^verbatim>\<open>v2ldebug.h\<close> under
  \<^verbatim>\<open>TRACE_PTHREAD\<close>, which is not defined. \<^verbatim>\<open>ts_malloc\<close> and \<^verbatim>\<open>ts_free\<close>: the address of a block
  is an argument, and to free a block removes it from its heap. \<^verbatim>\<open>taskVarLib.c\<close> and
  \<^verbatim>\<open>loadLib.c\<close>: empty functions. The samples, and the tests other than the smoke test:
  programs that exercise the functions modelled here. The infinite loops at the end of \<^verbatim>\<open>root_task\<close> and the
  calls of the functions of the application. Cancellation of a thread at a point inside a
  library call (the cleanup handlers \<^verbatim>\<open>pthread_cleanup_push\<close> sets up for it) apart from the
  release of the scheduler lock in \<^verbatim>\<open>task_wrapper_cleanup\<close>: the deletion of a task is one
  step.
\<close>


section \<open>Properties of the whole system\<close>

text \<open>C1. The invariant of the system. Take any interleaving of task, semaphore, queue, watchdog
  and kernel calls from the start of the process, where \<^verbatim>\<open>taskInit\<close> gets a control block that is
  not in use and \<^verbatim>\<open>v2lin_init\<close> is called before there is a task. Always the lists of
  semaphores and queues hold exactly the control blocks that exist, once each, and the
  watchdogs in the list exist. The rest needs a condition that the code does not test and that
  the \<open>usage\<close> names. If no task restarts itself, the list of tasks has no duplicates, all its
  control blocks exist, a thread runs at most one task and exists, and the scheduler lock is held
  exactly while its level is positive. If \<^verbatim>\<open>semTake\<close> and \<^verbatim>\<open>semGive\<close> are called by tasks only, and
  no mutex is nested deeper than an \<^verbatim>\<open>int\<close> counts, a mutex has at most one of token and owner
  (other threads break this: \<open>plain_threads_share_mutex\<close>). If a sender that goes on after its
  wait still finds a free element, and the parameters of \<^verbatim>\<open>msgQCreate\<close> are sensible, every queue is
  a well-formed ring (else not: \<open>msgQSend_overruns_full_queue\<close>).\<close>

theorem system_invariant:
  assumes "sys_reach u w"
  shows "distinct (sem_list w) \<and> set (sem_list w) = dom (sems w)
     \<and> distinct (mqueue_list w) \<and> set (mqueue_list w) = dom (queues w) \<and> wd_wf w
     \<and> (no_self_restart u \<longrightarrow> task_inv w)
     \<and> (task_callers u \<longrightarrow> (\<forall>s. mutex_ok (smcb w s)))
     \<and> (queue_limits u \<longrightarrow> (\<forall>q \<in> set (mqueue_list w). ring_wf (qcb w q)))"
proof -
  have inv: "sys_under u w" using assms by (rule sys_reach_under)
  then have "ring_wf (qcb w q)" if "queue_limits u" "q \<in> set (mqueue_list w)" for q
    using that rings_ok_qcb [of w q] by (simp add: sys_under_def mq_under_def qlist_ok_def del: domIff)
  then show ?thesis
    using inv by (simp add: sys_under_def task_ok_def sems_under_def sems_typed_def mutexes_ok_def mq_under_def
        qlist_ok_def wd_inv_def del: domIff)
qed

text \<open>A reachable state with the two system tasks, a mutex, a queue and a watchdog, for the
  witnesses.\<close>

lemma linux_ranges: "0 \<le> linux_lo p \<and> linux_lo p \<le> linux_hi p \<and> in_s32 (linux_hi p)"
  by (simp add: linux_lo_def linux_hi_def in_s32_def)

lemma mutex_reach:
  "sys_reach u (link_smcb 500 ((boot_world linux_lo linux_hi)\<lparr>threads := {7}, sems := [500 \<mapsto> (new_sem 1)\<lparr>sem_flags := 0x10\<rparr>]\<rparr>))"
proof -
  let ?w = "(boot_world linux_lo linux_hi)\<lparr>threads := {7}\<rparr>"
  have "sys_reach u ?w" by (rule sys_reach.Start) (simp_all add: linux_ranges)
  moreover have "sem_op b ?w (link_smcb 500 (?w\<lparr>sems := [500 \<mapsto> (new_sem 1)\<lparr>sem_flags := 0x10\<rparr>]\<rparr>))" for b
    by (rule sem_op.MCreate [of 500 _ 7 0 500]) (simp_all add: semMCreate_def unsupported_def boot_world_def vxw_codes)
  ultimately show ?thesis using sys_reach.Step [OF _ sys_step.Sem] by simp
qed

lemma started_reach:
  obtains w where "\<And>u. sys_reach u w" and "task_list w = [100, 200]" and "pthrid (tcb w 200) = 8" and "sem_list w = [500]"
    and "mqueue_list w = [600]" and "wdog_list w = [700]"
proof -
  let ?w0 = "(boot_world linux_lo linux_hi)\<lparr>threads := {7}\<rparr>"
  define w1 where w1: "w1 = link_smcb 500 (?w0\<lparr>sems := [500 \<mapsto> (new_sem 1)\<lparr>sem_flags := 0x10\<rparr>]\<rparr>)"
  define w2 where "w2 = link_qcb 600 (w1\<lparr>queues := (queues w1)(600 \<mapsto> fresh_queue 2 3 0)\<rparr>)"
  define w3 where "w3 = snd (wdCreate 700 zero_wdog w2)"
  have r1: "sys_reach u w1" for u using mutex_reach by (simp add: w1)
  have "msgQCreate 7 2 3 0 600 (Some (replicate 33 255)) w1 = Done (600, w2)"
    by (subst msgQCreate_succeeds) (simp_all add: w2_def vxw_codes alloc_size_def zero_queue_def s32_def u32_def)
  then have "mq_step b w1 w2" for b
    by (rule mq_step.Create [rotated -1])
      (simp_all add: w1 link_smcb_def boot_world_def vxw_codes alloc_size_def zero_queue_def s32_def u32_def)
  then have r2: "sys_reach u w2" for u by (rule sys_reach.Step [OF r1 sys_step.Queue])
  have "wd_op w2 w3"
    by (rule wd_op.Create [of 700 _ zero_wdog])
      (simp_all add: w3_def w2_def w1 link_smcb_def link_qcb_def boot_world_def prod_eq_iff)
  then have r3: "sys_reach u w3" for u by (rule sys_reach.Step [OF r2 sys_step.Watchdog])
  have lists: "sem_list w3 = [500] \<and> mqueue_list w3 = [600] \<and> wdog_list w3 = [700]"
    by (simp add: w3_def w2_def w1 link_smcb_def link_qcb_def link_wdog_def wdCreate_def boot_world_def)
  have fresh: "task_list w3 = []" "locker w3 = 0" "taskLock_level w3 = 0" "threads w3 = {7}"
    by (simp_all add: w3_def w2_def w1 link_smcb_def link_qcb_def link_wdog_def wdCreate_def boot_world_def)
  obtain w where w: "v2lin_init 7 100 300 200 40 301 0 8 w3 = Done (0, w)" "task_list w = [100, 200]" "pthrid (tcb w 200) = 8"
    using v2lin_init_result [OF fresh(1-3), of 7 100 200 300 40 301 8] by (auto simp: s32_def)
  have k: "kernel_op w3 w" by (rule kernel_op.Init [OF _ _ _ _ _ _ _ w(1)]) (simp_all add: fresh)
  have "sem_list w = [500] \<and> mqueue_list w = [600] \<and> wdog_list w = [700]"
    using registries.kernel [OF k, of "[500]" "[600]" "[700]"] lists by simp
  then show thesis using that [OF sys_reach.Step [OF r3 sys_step.Kernel [OF k]]] w by simp
qed

definition kept :: usage where
  "kept = \<lparr>queue_limits = True, task_callers = True, no_self_restart = True\<rparr>"

lemma kept_simps [simp]: "queue_limits kept" "task_callers kept" "no_self_restart kept"
  by (simp_all add: kept_def)

theorem system_invariant_witness:
  "\<exists>w. sys_reach kept w \<and> task_list w = [100, 200] \<and> task_inv w \<and> mutex_ok (smcb w 500) \<and> ring_wf (qcb w 600)
     \<and> wdog_list w = [700] \<and> wd_wf w"
proof -
  obtain w where "sys_reach kept w" "task_list w = [100, 200]" "mqueue_list w = [600]" "wdog_list w = [700]"
    by (rule started_reach) blast
  with system_invariant [of kept w] show ?thesis by auto
qed

text \<open>C4. The values keep their types. In every state that any interleaving of the calls can reach,
  the integers the library computes and stores fit the \<^verbatim>\<open>int\<close> they are stored in: of every
  semaphore the tokens and the nesting level; of every watchdog the remaining ticks, which are
  never negative; if no task restarts itself, of every task the identifier, the priorities and
  the count of \<^verbatim>\<open>taskSafe\<close>, which is never negative; and if a sender that goes on after its
  wait still finds a free element and the parameters of \<^verbatim>\<open>msgQCreate\<close> are sensible, of every
  queue the number of messages, which is between 0 and the number of elements. (The code does
  not test for the free element, and without it the count exceeds the elements:
  \<open>msgQSend_overruns_full_queue\<close>.)\<close>

theorem system_types:
  assumes "sys_reach u w"
  shows "(\<forall>s \<in> set (sem_list w). in_s32 (token_count (smcb w s)) \<and> in_s32 (recursion_level (smcb w s)))
     \<and> (\<forall>d \<in> set (wdog_list w). 0 \<le> ticks_remaining (wdcb w d) \<and> in_s32 (ticks_remaining (wdcb w d)))
     \<and> (no_self_restart u \<longrightarrow> (\<forall>t \<in> set (task_list w). in_s32 (taskid (tcb w t)) \<and> in_s32 (prv_priority (tcb w t))
            \<and> in_s32 (attr_priority (tcb w t)) \<and> in_s32 (delete_safe_count (tcb w t)) \<and> 0 \<le> delete_safe_count (tcb w t)))
     \<and> (queue_limits u \<longrightarrow> (\<forall>q \<in> set (mqueue_list w). 0 \<le> msg_count (qcb w q)
            \<and> msg_count (qcb w q) \<le> msgs_per_queue (qcb w q) + 1 \<and> in_s32 (msg_count (qcb w q))))"
proof -
  have inv: "sys_under u w" using assms by (rule sys_reach_under)
  have "0 \<le> msg_count (qcb w q) \<and> msg_count (qcb w q) \<le> msgs_per_queue (qcb w q) + 1 \<and> in_s32 (msg_count (qcb w q))"
    if "queue_limits u" "q \<in> set (mqueue_list w)" for q
  proof -
    have "ring_wf (qcb w q)"
      using that inv rings_ok_qcb [of w q] by (simp add: sys_under_def mq_under_def qlist_ok_def del: domIff)
    then show ?thesis by (auto simp: ring_wf_def ring_geometry_def in_s32_def)
  qed
  moreover have "tcb_typed (tcb w t)" if "no_self_restart u" for t
    using that inv by (simp add: sys_under_def task_ok_def task_typed_def)
  moreover have "sem_typed (smcb w s)" for s using inv by (simp add: sys_under_def sems_under_def sems_typed_def)
  ultimately show ?thesis
    using inv by (simp add: tcb_typed_def sem_typed_def sys_under_def wd_inv_def)
qed

theorem system_types_witness:
  "\<exists>w. task_list w = [100, 200] \<and> 0 \<le> delete_safe_count (tcb w 200) \<and> in_s32 (token_count (smcb w 500))
     \<and> msg_count (qcb w 600) \<le> msgs_per_queue (qcb w 600) + 1 \<and> 0 \<le> ticks_remaining (wdcb w 700)"
proof -
  obtain w where "sys_reach kept w" "task_list w = [100, 200]" "sem_list w = [500]" "mqueue_list w = [600]"
    "wdog_list w = [700]"
    by (rule started_reach) blast
  with system_types [of kept w] show ?thesis by auto
qed

text \<open>C7. The options that creation refuses stay out. In every state that any interleaving of the calls can reach, under any usage, no semaphore
  has priority order, deletion safety or inversion safety, so that waiting tasks are always
  signalled in the order of their calls, and no call of a semaphore function changes the
  deletion safety of any task: the branches of \<^verbatim>\<open>semTake\<close> and \<^verbatim>\<open>semGive\<close> for these options
  are dead code.\<close>

theorem refused_options_are_dead:
  assumes "sys_reach u w"
  shows "(\<forall>s. sem_flags (smcb w s) AND SEM_Q_PRIORITY = 0 \<and> sem_flags (smcb w s) AND SEM_DELETE_SAFE = 0
            \<and> sem_flags (smcb w s) AND SEM_INVERSION_SAFE = 0)
     \<and> (\<forall>s. signalled_task (sem_first_susp (smcb w s)) (uint (sem_flags (smcb w s) AND SEM_Q_PRIORITY)) w
            = (case sem_first_susp (smcb w s) of [] \<Rightarrow> NULL | t # _ \<Rightarrow> t))
     \<and> (\<forall>b w' t. sem_op b w w' \<longrightarrow> delete_safe_count (tcb w' t) = delete_safe_count (tcb w t))"
proof -
  have ty: "sems_typed w" using sys_reach_under [OF assms] by (simp add: sys_under_def sems_under_def)
  then have opts: "sem_flags (smcb w s) AND SEM_Q_PRIORITY = 0 \<and> sem_flags (smcb w s) AND SEM_DELETE_SAFE = 0
      \<and> sem_flags (smcb w s) AND SEM_INVERSION_SAFE = 0" for s
    using sems_typed_sem [of w s] by (simp add: sem_typed_def)
  moreover have "delete_safe_count (tcb w' t) = delete_safe_count (tcb w t)" if "sem_op b w w'" for b w' t
    using safe_counts_op [OF that ty] by (simp add: safe_counts_def fun_eq_iff)
  ultimately show ?thesis by (simp add: signalled_task_def)
qed

theorem refused_options_are_dead_witness:
  "\<exists>w w'. sys_reach kept w \<and> sem_list w = [500] \<and> sem_flags (smcb w 500) AND SEM_DELETE_SAFE = 0
     \<and> sem_op False w w' \<and> delete_safe_count (tcb w' 200) = delete_safe_count (tcb w 200)"
proof -
  obtain w where w: "sys_reach kept w" "sem_list w = [500]" by (rule started_reach) blast
  have "dom (sems w) = {500}"
    using w(2) sys_reach_under [OF w(1)] by (simp add: sys_under_def sems_under_def sems_typed_def)
  then have "501 \<notin> dom (sems w)" by simp
  then have "sem_op False w (snd (semCCreate 7 0 0 501 w))"
    by (rule sem_op.CCreate [OF _ _ surjective_pairing]) (simp add: in_s32_def)
  with refused_options_are_dead [OF w(1)] w show ?thesis by blast
qed

text \<open>C6. A deleted owner keeps its mutex. \<^verbatim>\<open>taskDelete\<close> of an unprotected task that owns a mutex
  succeeds and does not release it: through any number of semaphore calls by the remaining
  tasks, as long as the semaphore is not deleted, the mutex is owned by the task that is gone
  and has no token, so that no task can take it, and \<^verbatim>\<open>semGive\<close> fails for everybody. (Since
  \<^verbatim>\<open>SEM_DELETE_SAFE\<close> is refused, only an explicit \<^verbatim>\<open>taskSafe\<close> protects an owner.)\<close>

theorem deleted_owner_keeps_mutex:
  assumes "sys_inv w" and "me \<noteq> 0" and "locker w = 0 \<or> locker w = me"
    and "task_for me tid w = t" and "t \<noteq> NULL" and "t \<noteq> my_task me w" and "pthrid (tcb w t) = p" and "p \<noteq> 0"
    and "t_first_susp (tcb w t) = []" and "delete_safe_count (tcb w t) = 0"
    and "s \<in> set (sem_list w)" and "is_mutex (smcb w s)" and "current_owner (smcb w s) = t"
    and "\<And>th fr. pc th = Cond fr \<or> pc th = Tick fr \<Longrightarrow> tf_task fr \<noteq> NULL \<and> tf_task fr = my_task th w"
  shows "\<exists>w'. taskDelete me tid w = Done (Ret OK, w') \<and> t \<notin> set (task_list w')
     \<and> (\<forall>v pc'. calls_keeping s (w', pc(p := Idle)) (v, pc') \<longrightarrow>
          current_owner (smcb v s) = t \<and> recursion_level (smcb v s) = recursion_level (smcb w s)
          \<and> token_count (smcb v s) = 0 \<and> (\<forall>th c v'. semGive th s v = Done (c, v') \<longrightarrow> c = Ret ERROR))"
proof -
  have ti: "task_inv w" and si: "sems_inv w" and dom: "s \<in> dom (sems w)"
    using assms(1,11) by (simp_all add: sys_inv_def task_ok_def sems_inv_def sems_typed_def del: domIff)
  have tl: "t \<in> set (task_list w)" "distinct (task_list w)"
    using assms(4,5) task_for_in [of me tid w] ti by (simp_all add: task_inv_def task_wf_def)
  obtain w' where w': "taskDelete me tid w = Done (Ret OK, w')" "task_list w' = remove1 t (task_list w)"
    "\<And>th. my_task th w' = (if th = pthrid (tcb w t) then NULL else my_task th w)" "queues w' = queues w"
    "dom (sems w') = dom (sems w)" "\<And>s. (smcb w' s)\<lparr>sem_first_susp := []\<rparr> = (smcb w s)\<lparr>sem_first_susp := []\<rparr>"
    by (rule deleted_task [OF ti assms(2-6) _ assms(9)]) (use assms(7,8,10) in simp_all)
  have my: "my_task p w = t" "\<And>th. my_task th w = t \<Longrightarrow> th = p"
    using my_task_own [OF ti tl(1)] my_task_pthrid [of _ w] assms(5,7,8) by auto
  have dead: "dead_owner s t (w', pc(p := Idle)) \<and> recursion_level (smcb w' s) = recursion_level (smcb w s)"
    by (rule dead_owner_deleted [OF si dom assms(12,13,5,14) _ my w'(5,6)]) (use w'(3) assms(7) in simp_all)
  have "current_owner (smcb v s) = t \<and> recursion_level (smcb v s) = recursion_level (smcb w s)
      \<and> token_count (smcb v s) = 0 \<and> (\<forall>th c v'. semGive th s v = Done (c, v') \<longrightarrow> c = Ret ERROR)"
    if "calls_keeping s (w', pc(p := Idle)) (v, pc')" for v pc'
  proof -
    have d: "dead_owner s t (v, pc')" "recursion_level (smcb v s) = recursion_level (smcb w s)"
      using dead_owner_calls [OF that, of t] dead by simp_all
    show ?thesis using dead_owner_facts [OF d(1)] d(2) by simp
  qed
  moreover have "t \<notin> set (task_list w')" using w'(2) tl by simp
  ultimately show ?thesis using w'(1) by (intro exI [of _ w']) simp
qed

text \<open>The task with identifier 2 owns the mutex at address 500.\<close>

definition owner_world :: world where
  "owner_world = two_tasks\<lparr>sems := [500 \<mapsto> (new_sem 0)\<lparr>sem_flags := 0x10, recursion_level := 1, current_owner := 200\<rparr>],
     sem_list := [500]\<rparr>"

lemma two_tasks_typed: "task_typed two_tasks"
  by (auto simp: task_typed_def tcb_typed_def demo_simps in_s32_def)

lemma owner_world_inv: "sys_inv owner_world"
proof -
  have "task_ok owner_world"
    using two_tasks_inv two_tasks_typed by (simp add: owner_world_def task_ok_def)
  moreover have "sems_inv owner_world"
    by (auto simp: owner_world_def sems_inv_def mutexes_ok_def sems_typed_def smcb_def sem_typed_def mutex_ok_def
        is_mutex_def new_sem_def zero_sem_def vxw_codes in_s32_def)
  moreover have "mq_inv owner_world" "wd_inv owner_world"
    by (simp_all add: owner_world_def mq_inv_def rings_ok_def qlist_ok_def wd_inv_def wd_wf_def wdcb_def zero_wdog_def
        two_tasks_def boot_world_def in_s32_def)
  ultimately show ?thesis by (simp add: sys_inv_def)
qed

theorem deleted_owner_keeps_mutex_witness:
  "\<exists>w'. taskDelete 7 2 owner_world = Done (Ret OK, w') \<and> current_owner (smcb w' 500) = 200
     \<and> token_count (smcb w' 500) = 0 \<and> (\<forall>c v'. semGive 7 500 w' = Done (c, v') \<longrightarrow> c = Ret ERROR)"
proof -
  have "task_for 7 2 owner_world = 200" "my_task 7 owner_world = 100" "pthrid (tcb owner_world 200) = 8"
    "t_first_susp (tcb owner_world 200) = []" "delete_safe_count (tcb owner_world 200) = 0" "locker owner_world = 0"
    "500 \<in> set (sem_list owner_world)" "is_mutex (smcb owner_world 500)" "current_owner (smcb owner_world 500) = 200"
    by (simp_all add: owner_world_def task_for_def my_task_def demo_simps smcb_def is_mutex_def new_sem_def zero_sem_def vxw_codes)
  then have "\<exists>w'. taskDelete 7 2 owner_world = Done (Ret OK, w') \<and> 200 \<notin> set (task_list w')
     \<and> (\<forall>v pc'. calls_keeping 500 (w', (\<lambda>_. Idle)(8 := Idle)) (v, pc') \<longrightarrow>
          current_owner (smcb v 500) = 200 \<and> recursion_level (smcb v 500) = recursion_level (smcb owner_world 500)
          \<and> token_count (smcb v 500) = 0 \<and> (\<forall>th c v'. semGive th 500 v = Done (c, v') \<longrightarrow> c = Ret ERROR))"
    by (intro deleted_owner_keeps_mutex [OF owner_world_inv]) simp_all
  then show ?thesis using calls_keeping.None by metis
qed

text \<open>C5. A receiver that is deleted blocks its queue. When the task at the head of the list of
  waiting receivers is deleted, it stays there (the control block names no queue to leave). From then
  on, through any number of calls on the queue by the remaining tasks, no \<^verbatim>\<open>msgQDelete\<close> returns
  \<^verbatim>\<open>OK\<close>, because the list never becomes empty; and if the queue is in FIFO order (not
  \<^verbatim>\<open>MSG_Q_PRIORITY\<close>), no \<^verbatim>\<open>msgQReceive\<close> that starts or goes on waiting returns a message,
  because every message is announced to the task that is gone. (The list lives in the control blocks:
  the model takes the link in the freed block of a spawned task for intact.)\<close>

theorem deleted_receiver_blocks_queue:
  assumes "sys_inv w" and "me \<noteq> 0" and "locker w = 0 \<or> locker w = me"
    and "task_for me tid w = t" and "t \<noteq> NULL" and "t \<noteq> my_task me w" and "pthrid (tcb w t) \<noteq> 0"
    and "t_first_susp (tcb w t) = []" and "delete_safe_count (tcb w t) = 0"
    and "q \<in> set (mqueue_list w)" and "q_first_susp (qcb w q) = t # ts"
  shows "\<exists>w'. taskDelete me tid w = Done (Ret OK, w') \<and> t \<notin> set (task_list w')
     \<and> q_first_susp (qcb w' q) = t # ts
     \<and> (\<forall>v. queue_calls q t w' v \<longrightarrow>
          hd (q_first_susp (qcb v q)) = t
          \<and> (\<forall>th d v'. msgQDelete th q v = Done (d, v') \<or> msgQDelete_wait th q v = Done (d, v') \<longrightarrow> d \<noteq> Deleted OK)
          \<and> (order (qcb w q) = 0 \<longrightarrow>
              (\<forall>th buf len wait now r v'. msgQReceive th q buf len wait now v = Done (r, v') \<longrightarrow> no_message r)
              \<and> (\<forall>th rc now fr r v'. rf_queue fr = q \<and> rf_task fr \<noteq> t \<and>
                   (msgQReceive_wake th rc fr v = Done (r, v') \<or> msgQReceive_tick th now fr v = Done (r, v')) \<longrightarrow> no_message r)))"
proof -
  have ti: "task_inv w" and dom: "q \<in> dom (queues w)"
    using assms(1,10) by (simp_all add: sys_inv_def task_ok_def mq_inv_def qlist_ok_def del: domIff)
  have tl: "t \<in> set (task_list w)" "distinct (task_list w)"
    using assms(4,5) task_for_in [of me tid w] ti by (simp_all add: task_inv_def task_wf_def)
  obtain w' where w': "taskDelete me tid w = Done (Ret OK, w')" "task_list w' = remove1 t (task_list w)"
    "\<And>th. my_task th w' = (if th = pthrid (tcb w t) then NULL else my_task th w)" "queues w' = queues w"
    by (rule deleted_task [OF ti assms(2-8)]) (use assms in auto)
  have q: "qcb w' q = qcb w q" using w'(4) by (simp add: qcb_def)
  have "my_task th w' \<noteq> t" for th using w'(3) assms(5) my_task_pthrid [of th w] by auto
  then have dead: "dead_head (order (qcb w q)) q t w'" using q w'(4) assms(5,11) dom by (simp add: dead_head_def)
  have v: "dead_head (order (qcb w q)) q t v" if "queue_calls q t w' v" for v using that dead by (rule dead_head_calls)
  have "hd (q_first_susp (qcb v q)) = t" if "queue_calls q t w' v" for v
    using v [OF that] by (simp add: dead_head_def)
  moreover note dead_head_receive(1,3,4) [OF v] dead_head_delete(1,4) [OF v]
  moreover have "t \<notin> set (task_list w')" "q_first_susp (qcb w' q) = t # ts" using w'(2) tl q assms(11) by simp_all
  ultimately show ?thesis using w'(1) by (intro exI [of _ w']) metis
qed

text \<open>The task with identifier 2 waits for a message of the queue at address 500.\<close>

definition receiver_world :: world where
  "receiver_world = link_susp_task (QueueSusp 500) 200 queue_world"

lemma receiver_world_simps:
  "qcb receiver_world 500 = fresh_queue 2 3 0\<lparr>q_first_susp := [200]\<rparr>" "mqueue_list receiver_world = [500]"
  "task_list receiver_world = [100, 200]" "locker receiver_world = 0"
  "my_task 7 receiver_world = 100" "task_for 7 2 receiver_world = 200" "pthrid (tcb receiver_world 200) = 8"
  "t_first_susp (tcb receiver_world 200) = []" "delete_safe_count (tcb receiver_world 200) = 0"
proof -
  have "500 \<in> dom (queues queue_world)" by simp
  then show "qcb receiver_world 500 = fresh_queue 2 3 0\<lparr>q_first_susp := [200]\<rparr>"
    by (simp add: receiver_world_def qcb_link fresh_queue_demo del: domIff)
  have r: "receiver_world = upd_task 200 (\<lambda>t. t\<lparr>state := state t OR PEND\<rparr>) (upd_queue 500
      (\<lambda>q. q\<lparr>q_first_susp := [200]\<rparr>) queue_world)"
    by (simp add: receiver_world_def link_susp_task_def fresh_queue_demo)
  have tcbs: "tcb queue_world = tcb two_tasks" "task_list queue_world = [100, 200]" "locker queue_world = 0"
    by (simp_all add: queue_world_def link_qcb_def tcb_def fun_eq_iff)
  show "mqueue_list receiver_world = [500]" "task_list receiver_world = [100, 200]" "locker receiver_world = 0"
    "my_task 7 receiver_world = 100" "task_for 7 2 receiver_world = 200" "pthrid (tcb receiver_world 200) = 8"
    "t_first_susp (tcb receiver_world 200) = []" "delete_safe_count (tcb receiver_world 200) = 0"
    by (simp_all add: r task_for_def tcb_upd_field tcbs zero_task_def)
qed

lemma receiver_world_inv: "sys_inv receiver_world"
proof -
  have "task_ok queue_world"
    using two_tasks_inv two_tasks_typed by (simp add: queue_world_def link_qcb_def task_ok_def)
  then have "task_ok receiver_world"
    unfolding receiver_world_def by (rule tasks_in_queues.susp(1))
  moreover have "mq_inv queue_world"
    using fresh_queue_demo by (simp add: queue_world_def link_qcb_def mq_inv_def rings_ok_def qlist_ok_def two_tasks_def boot_world_def)
  then have "mq_inv receiver_world" by (simp add: receiver_world_def mq_inv_def qlist_ok_def rings_ok_susp)
  moreover have "sems_inv receiver_world" "wd_inv receiver_world"
    by (simp_all add: receiver_world_def link_susp_task_def queue_world_def link_qcb_def sems_inv_def mutexes_ok_def
        sems_typed_def smcb_def sem_typed_def zero_sem_def mutex_ok_def is_mutex_def vxw_codes in_s32_def wd_inv_def wd_wf_def
        wdcb_def zero_wdog_def two_tasks_def boot_world_def)
  ultimately show ?thesis by (simp add: sys_inv_def)
qed

theorem deleted_receiver_blocks_queue_witness:
  "\<exists>w'. taskDelete 7 2 receiver_world = Done (Ret OK, w') \<and> q_first_susp (qcb w' 500) = [200]
     \<and> (\<forall>r v'. msgQReceive 7 500 True 3 WAIT_FOREVER (0, 0) w' = Done (r, v') \<longrightarrow> no_message r)
     \<and> (\<forall>d v'. msgQDelete 7 500 w' = Done (d, v') \<longrightarrow> d \<noteq> Deleted OK)"
proof -
  have o: "order (fresh_queue 2 3 0\<lparr>q_first_susp := [200]\<rparr>) = 0" by (simp add: fresh_queue_def zero_queue_def)
  note blocks = deleted_receiver_blocks_queue [OF receiver_world_inv, of 7 2 200 500 "[]"]
  show ?thesis using blocks [simplified receiver_world_simps] o queue_calls.None [of 500 200] by fastforce
qed

text \<open>\<^verbatim>\<open>semList\<close> shows every semaphore. In a reachable state in which the waiting tasks exist
  it follows no bad pointer, returns the number of semaphores, and prints a heading for each
  of them, numbered from 1 in the order of their creation; a semaphore that exists is listed
  exactly once.\<close>

theorem semList_shows_all:
  assumes "sys_reach u w" and "no_self_restart u" and "length (sem_list w) < 2147483648"
    and "\<And>s. s \<in> set (sem_list w) \<Longrightarrow> set (sem_first_susp (smcb w s)) \<subseteq> dom (tasks w)"
  shows "\<exists>out. semList words mem w = Done (out, int (length (sem_list w)))
     \<and> filter (\<lambda>(f, _). f = ''%i %x: '') out
         = map (\<lambda>i. (''%i %x: '', [PInt (int i + 1), PPtr (sem_list w ! i)])) [0..<length (sem_list w)]
     \<and> distinct (sem_list w) \<and> set (sem_list w) = dom (sems w)"
proof -
  have inv: "task_wf w" "distinct (sem_list w)" "set (sem_list w) = dom (sems w)"
    using sys_reach_under [OF assms(1)] assms(2)
    by (simp_all add: sys_under_def task_ok_def task_inv_def sems_under_def sems_typed_def)
  then show ?thesis
    using semList_from_Done [of "sem_list w" w 0 words mem] assms(3,4)
    by (simp add: semList_def task_wf_def del: domIff)
qed

theorem semList_shows_all_witness:
  "\<exists>w out. sem_list w = [500] \<and> semList (\<lambda>_. [1, 2]) 1 w = Done (out, 1)
     \<and> filter (\<lambda>(f, _). f = ''%i %x: '') out = [(''%i %x: '', [PInt 1, PPtr 500])]"
proof -
  let ?w = "link_smcb 500 ((boot_world linux_lo linux_hi)\<lparr>threads := {7}, sems := [500 \<mapsto> (new_sem 1)\<lparr>sem_flags := 0x10\<rparr>]\<rparr>)"
  have l: "sem_list ?w = [500]" "sem_first_susp (smcb ?w 500) = []"
    by (simp_all add: link_smcb_def boot_world_def smcb_def new_sem_def zero_sem_def)
  with semList_shows_all [OF mutex_reach kept_simps(3), of "\<lambda>_. [1, 2]" 1] show ?thesis by (intro exI [of _ ?w]) (simp, blast)
qed

text \<open>C23. Listing the tasks after the deletion of an owner crashes. Let a task made by
  \<^verbatim>\<open>taskSpawn\<close> own a mutex that another task waits for. When the owner is deleted its control
  block is freed, and the semaphore still points to it: \<^verbatim>\<open>semShow\<close> notices and prints
  \<open><deleted>\<close>, but \<^verbatim>\<open>taskList\<close> reads the name of the owner from the freed block.\<close>

theorem taskList_crashes_after_deletion:
  assumes "sys_inv w" and "me \<noteq> 0" and "locker w = 0 \<or> locker w = me"
    and "task_for me tid w = t" and "t \<noteq> NULL" and "t \<noteq> my_task me w" and "pthrid (tcb w t) \<noteq> 0"
    and "t_first_susp (tcb w t) = []" and "delete_safe_count (tcb w t) = 0" and "\<not> static_task (tcb w t)"
    and "s \<in> set (sem_list w)" and "s \<noteq> NULL" and "current_owner (smcb w s) = t"
    and "u \<in> set (task_list w)" and "u \<noteq> t" and "waiting (tcb w u) = s"
    and "set (sem_first_susp (smcb w s)) \<subseteq> set (task_list w) - {t}"
  shows "\<exists>w'. taskDelete me tid w = Done (Ret OK, w')
     \<and> taskList words waiting_m mem w' = Crashed
     \<and> (\<exists>out. semShow words s mem w' = Done out \<and> (''<deleted> '', []) \<in> set out)"
proof -
  have ti: "task_inv w" and dom: "s \<in> dom (sems w)"
    using assms(1,11) by (simp_all add: sys_inv_def task_ok_def sems_inv_def sems_typed_def del: domIff)
  then have tl: "distinct (task_list w)" "set (task_list w) \<subseteq> dom (tasks w)" by (simp_all add: task_inv_def task_wf_def)
  obtain w' where w': "taskDelete me tid w = Done (Ret OK, w')" "task_list w' = remove1 t (task_list w)"
    "dom (sems w') = dom (sems w)" "\<And>s. (smcb w' s)\<lparr>sem_first_susp := []\<rparr> = (smcb w s)\<lparr>sem_first_susp := []\<rparr>"
    "\<And>s. set (sem_first_susp (smcb w' s)) \<subseteq> set (sem_first_susp (smcb w s))"
    "\<And>a. a \<noteq> t \<Longrightarrow> waiting (tcb w' a) = waiting (tcb w a)"
    "dom (tasks w) - {t} \<subseteq> dom (tasks w')" "\<not> static_task (tcb w t) \<Longrightarrow> t \<notin> dom (tasks w')"
    by (rule deleted_task [OF ti assms(2-8)]) (use assms(9) in simp_all)
  have owner: "current_owner (smcb w' s) = t" using arg_cong [OF w'(4) [of s], of current_owner] assms(13) by simp
  have u: "u \<in> set (task_list w')" "u \<in> dom (tasks w')" "waiting (tcb w' u) = s"
    using w'(2,6) subsetD [OF w'(7), of u] subsetD [OF tl(2), of u] tl(1) assms(14-16) by (simp_all del: domIff)
  have "taskShow waiting_m u w' = Crashed"
    by (rule taskShow_freed_owner [OF u(2,3) assms(12) _ owner assms(5)]) (use w'(3,8) dom assms(10) in \<open>simp_all del: domIff\<close>)
  then have "taskList words waiting_m mem w' = Crashed" by (rule taskList_crashes [OF u(1)])
  moreover have "set (task_list w) - {t} \<subseteq> dom (tasks w')" using w'(7) tl(2) by blast
  then have "set (sem_first_susp (smcb w' s)) \<subseteq> dom (tasks w')" "set (task_list w') \<subseteq> dom (tasks w')"
    using w'(2) w'(5) [of s] assms(17) tl(1) by auto
  then obtain rest where "semShow words s mem w' = Done ((''o:%x '', [PPtr t]) # owner_shown t w' @ rest)"
    using semShow_Done [of s w' words mem] dom w'(3) owner by metis
  moreover have "(''<deleted> '', []) \<in> set (owner_shown t w')" using w'(2) tl assms(5) by (simp add: owner_shown_def)
  ultimately show ?thesis using w'(1) by (intro exI [of _ w'] conjI) auto
qed

text \<open>The task with identifier 2 has been spawned and owns the mutex, and the other task waits
  for it.\<close>

definition waited_world :: world where
  "waited_world = upd_task 100 (\<lambda>t. t\<lparr>waiting := 500\<rparr>)
     (upd_sem 500 (\<lambda>s. s\<lparr>sem_first_susp := [100]\<rparr>) owner_world)"

lemma waited_world_simps:
  "smcb waited_world 500 = smcb owner_world 500\<lparr>sem_first_susp := [100]\<rparr>" "sem_list waited_world = [500]"
  "task_list waited_world = [100, 200]" "locker waited_world = 0" "my_task 7 waited_world = 100"
  "task_for 7 2 waited_world = 200" "pthrid (tcb waited_world 200) = 8" "t_first_susp (tcb waited_world 200) = []"
  "delete_safe_count (tcb waited_world 200) = 0" "\<not> static_task (tcb waited_world 200)"
  "waiting (tcb waited_world 100) = 500" "current_owner (smcb owner_world 500) = 200"
proof -
  have o: "tcb owner_world = tcb two_tasks" "sem_list owner_world = [500]" "task_list owner_world = [100, 200]"
    "locker owner_world = 0" "dom (sems owner_world) = {500}" "dom (tasks owner_world) = {100, 200}"
    by (simp_all add: owner_world_def tcb_def fun_eq_iff)
  then show "smcb waited_world 500 = smcb owner_world 500\<lparr>sem_first_susp := [100]\<rparr>" "sem_list waited_world = [500]"
    "task_list waited_world = [100, 200]" "locker waited_world = 0" "waiting (tcb waited_world 100) = 500"
    by (simp_all add: waited_world_def del: domIff)
  show "my_task 7 waited_world = 100" "task_for 7 2 waited_world = 200" "pthrid (tcb waited_world 200) = 8"
    "t_first_susp (tcb waited_world 200) = []" "delete_safe_count (tcb waited_world 200) = 0" "\<not> static_task (tcb waited_world 200)"
    by (simp_all add: waited_world_def my_task_def task_for_def tcb_upd_field o zero_task_def)
  show "current_owner (smcb owner_world 500) = 200" by (simp add: owner_world_def smcb_def)
qed

lemma waited_world_inv: "sys_inv waited_world"
proof -
  have "sys_inv (upd_sem 500 (\<lambda>s. s\<lparr>sem_first_susp := [100]\<rparr>) owner_world)"
    using owner_world_inv by (simp add: sys_inv_def sems_under_susp [of True, unfolded sems_under_True] queues_in_sems.upd_sem [of True, unfolded mq_under_True] tasks_in_sems.upd_sem wdogs_in_sems.upd_sem)
  then show ?thesis
    by (simp add: waited_world_def sys_inv_def task_ok_def sems_elsewhere.basic [of True, unfolded sems_under_True]
        queues_elsewhere.basic [of True, unfolded mq_under_True])
qed

theorem taskList_crashes_after_deletion_witness:
  "\<exists>w'. taskDelete 7 2 waited_world = Done (Ret OK, w') \<and> taskList (\<lambda>_. []) (\<lambda>_. NULL) 0 w' = Crashed
     \<and> (\<exists>out. semShow (\<lambda>_. []) 500 0 w' = Done out \<and> (''<deleted> '', []) \<in> set out)"
  by (rule taskList_crashes_after_deletion [OF waited_world_inv, where u = 100 and t = 200])
    (simp_all add: waited_world_simps)

end
